(* ===== verification/Prelude.thy ===== *)
theory Prelude
  imports "HOL-Library.Word"
begin

text \<open>
  What every component theory shares: the machine integer types of \<open>h/kernel.h\<close>, the result
  types of operations that may stop the machine, the sequencing of such operations, and the
  lemmas that read mixed 64-bit / 32-bit machine arithmetic as integer arithmetic.
\<close>

unbundle bit_operations_syntax

section \<open>Machine integers\<close>

type_synonym u64 = "64 word"
type_synonym u32 = "32 word"
type_synonym i32 = "32 word" \<comment> \<open>read with \<open>sint\<close>\<close>
type_synonym u8 = "8 word"

text \<open>An \<open>i32\<close> stored where a \<open>u64\<close> is expected is sign-extended, a \<open>u32\<close> is zero-extended.\<close>

abbreviation i32_to_u64 :: "i32 \<Rightarrow> u64" where
  "i32_to_u64 x \<equiv> scast x"

abbreviation u64_to_i32 :: "u64 \<Rightarrow> i32" where
  "u64_to_i32 x \<equiv> ucast x"

section \<open>Results of operations\<close>

text \<open>
  How an operation may fail to return to its caller: the kernel calls \<open>__panic\<close> with a message
  (the machine is switched off), it accesses an array of the C program out of its bounds
  (undefined behaviour), or a loop of it never ends.
\<close>

datatype fault =
    Panic string
  | OutOfBounds string
  | Diverges

text \<open>A C string literal that ends in a newline.\<close>

definition line :: "string \<Rightarrow> string" where
  "line msg = msg @ [CHR 0x0A]"

text \<open>
  A function of the C program that returns a value is a state transformer into
  \<open>('a, 's) res\<close>, a \<open>void\<close> one into \<open>'s vres\<close>; a fault carries the state it happened in.
\<close>

type_synonym ('a, 's) res = "(fault \<times> 's) + ('a \<times> 's)"
type_synonym 's vres = "(fault \<times> 's) + 's"

definition seqr :: "'e + 'a \<Rightarrow> ('a \<Rightarrow> 'e + 'b) \<Rightarrow> 'e + 'b" where
  "seqr m f = (case m of Inl e \<Rightarrow> Inl e | Inr x \<Rightarrow> f x)"

text \<open>The value of a loop that may not end: \<open>None\<close> is the loop that never ends.\<close>

definition returned :: "'s \<Rightarrow> ((fault \<times> 's) + 'a) option \<Rightarrow> (fault \<times> 's) + 'a" where
  "returned s m = (case m of None \<Rightarrow> Inl (Diverges, s) | Some r \<Rightarrow> r)"

lemma seqr_Inl [simp]: "seqr (Inl e) f = Inl e"
  and seqr_Inr [simp]: "seqr (Inr x) f = f x"
  by (simp_all add: seqr_def)

lemma seqr_eq_Inr: "seqr m f = Inr y \<longleftrightarrow> (\<exists>x. m = Inr x \<and> f x = Inr y)"
  by (auto simp: seqr_def split: sum.splits)

lemma seqr_InrE:
  assumes "seqr m f = Inr y"
  obtains x where "m = Inr x" and "f x = Inr y"
  using assms by (auto simp: seqr_eq_Inr)

lemma returned_Some [simp]: "returned s (Some r) = r"
  and returned_None [simp]: "returned s None = Inl (Diverges, s)"
  by (simp_all add: returned_def)

section \<open>Machine arithmetic read as integer arithmetic\<close>

named_theorems word_ints \<open>conditional equations from words to integers\<close>

lemma uint_add_bounded [word_ints]:
  fixes a b :: u64
  assumes "uint a + uint b < 2 ^ 64"
  shows "uint (a + b) = uint a + uint b"
  using assms by (simp add: uint_word_ariths)

lemma uint_sub_bounded [word_ints]:
  fixes a b :: u64
  assumes "uint b \<le> uint a"
  shows "uint (a - b) = uint a - uint b"
proof -
  have "uint a < 2 ^ 64" using uint_lt2p [of a] by simp
  moreover have "0 \<le> uint b" by simp
  ultimately have "uint a - uint b < 2 ^ 64" by linarith
  with assms show ?thesis by (simp add: uint_word_ariths)
qed

lemma uint_last_bounded [word_ints]:
  fixes a b :: u64
  assumes "0 < uint b" and "uint a + uint b < 2 ^ 64"
  shows "uint (a + b - 1) = uint a + uint b - 1"
proof -
  have s: "uint (a + b) = uint a + uint b" using assms(2) by (rule uint_add_bounded)
  have "0 \<le> uint a" by (rule uint_ge_0)
  moreover have "uint (1 :: u64) = 1" by simp
  ultimately have "uint (1 :: u64) \<le> uint (a + b)" using assms(1) s by linarith
  then show ?thesis by (simp add: uint_sub_bounded s)
qed

lemma uint_div_64: "uint ((w :: u64) div 64) = uint w div 64"
  and uint_mod_64: "uint ((w :: u64) mod 64) = uint w mod 64"
  by (simp_all add: uint_div uint_mod)

lemma unat_inc:
  fixes x y :: "'a::len word"
  assumes "x < y"
  shows "unat (x + 1) = Suc (unat x)"
proof -
  have "unat x < unat y" using assms by (simp add: word_less_nat_alt)
  moreover have "unat y < 2 ^ LENGTH('a)" by (rule unsigned_less)
  ultimately have "Suc (unat x) < 2 ^ LENGTH('a)" by linarith
  then show ?thesis by (simp add: unat_word_ariths)
qed

lemma unat_u32_bound: "unat (w :: u32) < 4294967296"
  by (rule order_less_le_trans [OF unsigned_less]) simp

lemma unat_u64_bound: "unat (w :: u64) < 18446744073709551616"
  by (rule order_less_le_trans [OF unsigned_less]) simp

lemma ucast_of_unat: "(ucast (w :: 'a::len word) :: 'b::len word) = of_nat (unat w)"
  by transfer simp

lemma unat_ucast_u32: "unat (ucast (w :: u32) :: u64) = unat w"
proof -
  have "unat (ucast w :: u64) = unat (of_nat (unat w) :: u64)" by (simp only: ucast_of_unat)
  also have "\<dots> = unat w mod 2 ^ 64" by (simp only: unat_of_nat) simp
  also have "\<dots> = unat w" using unat_u32_bound [of w] by (intro mod_less) simp
  finally show ?thesis .
qed

lemma ucast_u32_u64: "unat (w :: u64) < 4294967296 \<Longrightarrow> (ucast (ucast w :: u32) :: u64) = w"
proof -
  assume w: "unat w < 4294967296"
  have "unat (ucast w :: u32) = unat (of_nat (unat w) :: u32)" by (simp only: ucast_of_unat)
  also have "\<dots> = unat w mod 2 ^ 32" by (simp only: unat_of_nat) simp
  also have "\<dots> = unat w" using w by (intro mod_less) simp
  finally show ?thesis by (simp only: word_unat_eq_iff unat_ucast_u32)
qed

lemma word_of_int_sint: "word_of_int (sint w) = (w :: 'a::len word)"
  by (metis scast_eq scast_id)

lemma uint_add_scast [word_ints]:
  fixes a :: u64 and x :: i32
  assumes "0 \<le> uint a + sint x" and "uint a + sint x < 2 ^ 64"
  shows "uint (a + scast x) = uint a + sint x"
proof -
  have "a + scast x = word_of_int (uint a) + word_of_int (sint x)"
    by (simp only: scast_eq word_of_int_uint)
  also have "\<dots> = word_of_int (uint a + sint x)" by (rule wi_hom_add)
  finally have "uint (a + scast x) = (uint a + sint x) mod 2 ^ 64"
    by (simp only: uint_word_of_int len_of_numeral_defs) simp
  also have "\<dots> = uint a + sint x" using assms by (rule mod_pos_pos_trivial)
  finally show ?thesis .
qed

lemma uint_scast_nonneg [word_ints]:
  fixes x :: i32
  assumes "0 \<le> sint x"
  shows "uint (scast x :: u64) = sint x"
  using uint_add_scast [of 0 x] assms sint_lt [of x] by simp

lemma sint_i32_bounds: "- 2147483648 \<le> sint (x :: i32)" "sint (x :: i32) < 2147483648"
  using sint_ge [of x] sint_lt [of x] by simp_all

lemma sint_of_int_i32 [word_ints]:
  assumes "- 2147483648 \<le> m" and "m < 2147483648"
  shows "sint (word_of_int m :: i32) = m"
proof -
  have "sint (word_of_int m :: i32) = signed_take_bit 31 m"
    by (simp add: sint_sbintrunc')
  also have "\<dots> = m"
    using assms by (intro signed_take_bit_int_eq_self) simp_all
  finally show ?thesis .
qed

lemma ucast_u64_i32_of_int: "(ucast (word_of_int m :: u64) :: i32) = word_of_int m"
  by (simp add: ucast_down_wi is_down)

lemma sint_minus_i32 [word_ints]:
  fixes x :: i32
  assumes "- 2147483648 < sint x"
  shows "sint (- x) = - sint x"
proof -
  have "- x = word_of_int (- sint x)" by (simp only: word_of_int_sint wi_hom_neg [symmetric])
  then have "sint (- x) = sint (word_of_int (- sint x) :: i32)" by (rule arg_cong)
  also have "\<dots> = - sint x"
    using assms sint_i32_bounds [of x] by (intro sint_of_int_i32) simp_all
  finally show ?thesis .
qed

lemma sint_sub_i32 [word_ints]:
  fixes x y :: i32
  assumes "- 2147483648 \<le> sint x - sint y" and "sint x - sint y < 2147483648"
  shows "sint (x - y) = sint x - sint y"
proof -
  have "x - y = word_of_int (sint x - sint y)"
    by (simp only: word_of_int_sint wi_hom_sub [symmetric])
  then have "sint (x - y) = sint (word_of_int (sint x - sint y) :: i32)" by (rule arg_cong)
  also have "\<dots> = sint x - sint y" using assms by (rule sint_of_int_i32)
  finally show ?thesis .
qed

lemma sint_trunc_u64 [word_ints]:
  fixes w :: u64
  assumes "uint w < 2147483648"
  shows "sint (ucast w :: i32) = uint w"
proof -
  have "(ucast w :: i32) = word_of_int (uint w)"
    using ucast_u64_i32_of_int [of "uint w"] by (simp only: word_of_int_uint)
  then have "sint (ucast w :: i32) = sint (word_of_int (uint w) :: i32)" by (rule arg_cong)
  also have "\<dots> = uint w"
    using assms by (intro sint_of_int_i32) (use uint_ge_0 [of w] in linarith)+
  finally show ?thesis .
qed

lemma sint_trunc_minus_u64 [word_ints]:
  fixes w :: u64
  assumes "uint w \<le> 2147483648"
  shows "sint (ucast (- w) :: i32) = - uint w"
proof -
  have "(ucast (- w) :: i32) = word_of_int (- uint w)"
    using ucast_u64_i32_of_int [of "- uint w"] by (simp only: word_of_int_uint wi_hom_neg [symmetric])
  then have "sint (ucast (- w) :: i32) = sint (word_of_int (- uint w) :: i32)" by (rule arg_cong)
  also have "\<dots> = - uint w"
    using assms by (intro sint_of_int_i32) (use uint_ge_0 [of w] in linarith)+
  finally show ?thesis .
qed

lemma sgt_0_iff: "0 <s (x :: i32) \<longleftrightarrow> 0 < sint x"
  and slt_0_iff: "(x :: i32) <s 0 \<longleftrightarrow> sint x < 0"
  and sle_0_iff: "(x :: i32) \<le>s 0 \<longleftrightarrow> sint x \<le> 0"
  by (simp_all add: word_sless_alt word_sle_eq)

lemma eq_0_iff_sint: "(x :: i32) = 0 \<longleftrightarrow> sint x = 0"
  by (metis signed_0 signed_word_eqI)

lemmas sign_tests = sgt_0_iff slt_0_iff sle_0_iff eq_0_iff_sint

lemma uint_u64_bounds: "0 \<le> uint (w :: u64)" "uint (w :: u64) < 18446744073709551616"
  using uint_lt2p [of w] by simp_all

end
