(* ===== verification/Mem.thy ===== *)
theory Mem
  imports Prelude
begin

text \<open>
  The block allocator of \<open>src/mem.c\<close>. The heap is cut into blocks of 64 bytes; \<open>mem_index\<close> has
  one signed 32-bit entry per block. A run of \<open>k\<close> allocated blocks has the entry \<open>k\<close> at its first
  and at its last block, a run of \<open>k\<close> free ones has \<open>-k\<close>, and all other entries are 0.
  The theory models \<open>__mem_init\<close>, \<open>__mem_alloc\<close> and \<open>__mem_free\<close> on machine words, states the
  allocator abstractly as first fit on a list of signed runs, and proves that the words implement
  the list. The lines of the header \<open>lib/hw.h\<close> and the linker symbols bounding the heap are fields
  that no operation writes.
\<close>

section \<open>The globals of \<open>mem.c\<close>\<close>

record mem_state =
  mem_index :: "u64 \<Rightarrow> i32"
  n_mem_blocks :: u64
  mem_index_len_in_blocks :: u64
  HEAP_START_ADDR :: u64
  HEAP_END_ADDR :: u64

text \<open>
  \<open>mem_index\<close> is the memory at \<open>HEAP_START_ADDR\<close> read as \<open>i32\<close> entries, also beyond the last
  entry: the code reads one entry past the end, and what it finds there is whatever the memory holds.
\<close>

definition MEM_BLOCK_SIZE :: u64 where [simp]: "MEM_BLOCK_SIZE = 64"

definition FREE_OUT_OF_HEAP :: i32 where "FREE_OUT_OF_HEAP = -1"
definition FREE_NOT_BLOCK_ALLIGNED :: i32 where "FREE_NOT_BLOCK_ALLIGNED = -2"
definition FREE_NOT_ALLOCED :: i32 where "FREE_NOT_ALLOCED = -3"
definition FREE_NOT_START_OF_ALLOC :: i32 where "FREE_NOT_START_OF_ALLOC = -4"

definition set_index :: "u64 \<Rightarrow> i32 \<Rightarrow> 'a mem_state_scheme \<Rightarrow> 'a mem_state_scheme" where
  "set_index i v s = s\<lparr>mem_index := (mem_index s)(i := v)\<rparr>"

section \<open>Initialisation\<close>

function mem_zero_loop :: "u64 \<Rightarrow> 'a mem_state_scheme \<Rightarrow> 'a mem_state_scheme" where
  "mem_zero_loop i s =
     (if i < n_mem_blocks s then mem_zero_loop (i + 1) (set_index i 0 s) else s)"
  by pat_completeness auto
termination
proof (relation "measure (\<lambda>(i, s). unat (n_mem_blocks s - i))")
  fix i :: u64 and s :: "'a mem_state_scheme"
  assume "i < n_mem_blocks s"
  then have "n_mem_blocks s - (i + 1) < n_mem_blocks s - i"
    by unat_arith
  then show "((i + 1, set_index i 0 s), (i, s)) \<in> measure (\<lambda>(i, s). unat (n_mem_blocks s - i))"
    by (simp add: set_index_def unat_mono)
qed simp

declare mem_zero_loop.simps [simp del]

definition mem_init :: "'a mem_state_scheme \<Rightarrow> 'a mem_state_scheme" where
  "mem_init s =
     (let s = s\<lparr>n_mem_blocks := (HEAP_END_ADDR s - HEAP_START_ADDR s) div MEM_BLOCK_SIZE\<rparr>;
          n = n_mem_blocks s;
          s = s\<lparr>mem_index_len_in_blocks := (4 * n + MEM_BLOCK_SIZE - 1) div MEM_BLOCK_SIZE\<rparr>;
          l = mem_index_len_in_blocks s;
          s = mem_zero_loop 0 s;
          s = set_index 0 (u64_to_i32 l) s;
          s = set_index (l - 1) (u64_to_i32 l) s;
          s = set_index l (u64_to_i32 (- (n - l))) s;
          s = set_index (n - 1) (u64_to_i32 (- (n - l))) s
      in s)"

section \<open>Allocation\<close>

text \<open>The four writes that cut \<open>nblocks\<close> blocks off a larger free run at \<open>i\<close>, and the two that
  take a free run of exactly that size.\<close>

definition carve :: "u64 \<Rightarrow> u64 \<Rightarrow> u64 \<Rightarrow> 'a mem_state_scheme \<Rightarrow> 'a mem_state_scheme" where
  "carve i free_blocks_count nblocks s =
     (let s = set_index (i + free_blocks_count - 1) (u64_to_i32 (- (free_blocks_count - nblocks))) s;
          s = set_index (i + nblocks) (u64_to_i32 (- (free_blocks_count - nblocks))) s;
          s = set_index (i + nblocks - 1) (u64_to_i32 nblocks) s;
          s = set_index i (u64_to_i32 nblocks) s
      in s)"

definition take_whole :: "u64 \<Rightarrow> u64 \<Rightarrow> 'a mem_state_scheme \<Rightarrow> 'a mem_state_scheme" where
  "take_whole i nblocks s =
     (let s = set_index i (u64_to_i32 nblocks) s;
          s = set_index (i + nblocks - 1) (u64_to_i32 nblocks) s
      in s)"

definition index_corrupted :: fault where
  "index_corrupted = Panic (line ''Memory index corrupted!'')"

text \<open>The loop of \<open>__mem_alloc\<close>; \<open>i\<close> is its local variable. The comparison of the \<open>i32\<close> count with
  the \<open>size_t\<close> argument is the unsigned one on 64 bits.\<close>

partial_function (option) mem_alloc_loop ::
  "u64 \<Rightarrow> u64 \<Rightarrow> 'a mem_state_scheme \<Rightarrow> (u64, 'a mem_state_scheme) res option" where
  "mem_alloc_loop nblocks i s =
     (if i < n_mem_blocks s then
        (let i = (if 0 <s mem_index s i then i + i32_to_u64 (mem_index s i) else i) in
         if mem_index s i <s 0 then
           (let free_blocks_count = i32_to_u64 (- mem_index s i) in
            if nblocks < free_blocks_count then
              Some (Inr (HEAP_START_ADDR s + i * MEM_BLOCK_SIZE, carve i free_blocks_count nblocks s))
            else if free_blocks_count = nblocks then
              Some (Inr (HEAP_START_ADDR s + i * MEM_BLOCK_SIZE, take_whole i nblocks s))
            else
              (let i = i + free_blocks_count in
               if mem_index s i = 0 then Some (Inl (index_corrupted, s))
               else mem_alloc_loop nblocks i s))
         else if mem_index s i = 0 then Some (Inl (index_corrupted, s))
         else mem_alloc_loop nblocks i s)
      else Some (Inr (0, s)))"

definition mem_alloc :: "u64 \<Rightarrow> 'a mem_state_scheme \<Rightarrow> (u64, 'a mem_state_scheme) res" where
  "mem_alloc nblocks s = returned s (mem_alloc_loop nblocks 0 s)"

section \<open>Deallocation\<close>

definition free_alone :: "u64 \<Rightarrow> i32 \<Rightarrow> 'a mem_state_scheme \<Rightarrow> 'a mem_state_scheme" where
  "free_alone e sz s =
     (let s = set_index e (- sz) s;
          s = set_index (e + i32_to_u64 sz - 1) (- sz) s
      in s)"

definition join_prev ::
  "u64 \<Rightarrow> i32 \<Rightarrow> 'a mem_state_scheme \<Rightarrow> u64 \<times> i32 \<times> 'a mem_state_scheme" where
  "join_prev e sz s =
     (let prev_index = e + i32_to_u64 (mem_index s (e - 1));
          joined_size = sz - mem_index s (e - 1);
          s = set_index e 0 s;
          s = set_index (e - 1) 0 s;
          s = set_index prev_index (- joined_size) s;
          s = set_index (prev_index + i32_to_u64 joined_size - 1) (- joined_size) s
      in (prev_index, joined_size, s))"

definition join_next :: "u64 \<Rightarrow> i32 \<Rightarrow> 'a mem_state_scheme \<Rightarrow> 'a mem_state_scheme" where
  "join_next e sz s =
     (let joined_size = sz - mem_index s (e + i32_to_u64 sz);
          s = set_index (e + i32_to_u64 sz - 1) 0 s;
          s = set_index (e + i32_to_u64 sz) 0 s;
          s = set_index e (- joined_size) s;
          s = set_index (e + i32_to_u64 joined_size - 1) (- joined_size) s
      in s)"

definition mem_free :: "u64 \<Rightarrow> 'a mem_state_scheme \<Rightarrow> i32 \<times> 'a mem_state_scheme" where
  "mem_free abs_ptr s =
     (let e = (abs_ptr - HEAP_START_ADDR s) div MEM_BLOCK_SIZE in
      if abs_ptr < HEAP_START_ADDR s \<or> HEAP_END_ADDR s \<le> abs_ptr then (FREE_OUT_OF_HEAP, s)
      else if (abs_ptr - HEAP_START_ADDR s) mod MEM_BLOCK_SIZE \<noteq> 0
        then (FREE_NOT_BLOCK_ALLIGNED, s)
      else if mem_index s e \<le>s 0 then (FREE_NOT_ALLOCED, s)
      else if mem_index s e \<noteq> mem_index s (e + i32_to_u64 (mem_index s e) - 1)
        then (FREE_NOT_START_OF_ALLOC, s)
      else
        (let sz = mem_index s e;
             prev_free = (0 < e \<and> mem_index s (e - 1) <s 0);
             next_free = (e + i32_to_u64 sz < n_mem_blocks s \<and>
                          mem_index s (e + i32_to_u64 sz) <s 0);
             s = (if \<not> prev_free \<and> \<not> next_free then free_alone e sz s else s);
             (e, sz, s) = (if prev_free then join_prev e sz s else (e, sz, s));
             s = (if next_free then join_next e sz s else s)
         in (0, s)))"

end
