(* ===== verification/Console.thy ===== *)
theory Console
  imports Mem
begin

text \<open>
  The buffers of \<open>src/console.c\<close> and the serial device they serve: \<open>__console_init\<close>, \<open>__putc\<close>,
  \<open>__console_send\<close> and the first half of \<open>__console_receive\<close>, which fills the receive buffer. The
  operations that wake or block threads are in the theory of console input.

  The device is arbitrary: \<open>dev_status n\<close> and \<open>dev_rx n\<close> are the values that the \<open>n\<close>-th read of its
  status and of its receive register return, and every lemma holds for all such functions. The bytes
  written to its transmit register are recorded in order.
\<close>

section \<open>State\<close>

record io_state = mem_state +
  console_receive_buffer_ptr :: u64
  console_send_buffer_ptr :: u64
  console_receive_buffer :: "nat \<Rightarrow> u8"
  console_send_buffer :: "nat \<Rightarrow> u8"
  console_receive_cnt :: u32
  console_send_cnt :: u32
  threads_waiting_for_input :: u64
  dev_status :: "nat \<Rightarrow> u8"
  dev_status_reads :: nat
  dev_rx :: "nat \<Rightarrow> u8"
  dev_rx_reads :: nat
  dev_tx :: "u8 list"
  dev_test :: "u32 option" \<comment> \<open>the value written to the word at \<open>0x100000\<close>, which switches the machine off\<close>

text \<open>The buffers are read as the memory from their pointers on; the pointers are what \<open>__mem_alloc\<close>
  returned, which the code does not check.\<close>

definition CONSOLE_CONTROLLER_PLIC :: i32 where [simp]: "CONSOLE_CONTROLLER_PLIC = 10"
definition CONSOLE_BUFFER_SIZE :: u64 where [simp]: "CONSOLE_BUFFER_SIZE = 1024"
definition CONSOLE_STATUS_SEND :: u8 where [simp]: "CONSOLE_STATUS_SEND = 0x20"
definition CONSOLE_STATUS_RECEIVE :: u8 where [simp]: "CONSOLE_STATUS_RECEIVE = 0x1"

definition CONSOLE_RECEIVE_BUFFER_EMPTY :: i32 where "CONSOLE_RECEIVE_BUFFER_EMPTY = -1"
definition CONSOLE_SEND_BUFFER_FULL :: i32 where "CONSOLE_SEND_BUFFER_FULL = -2"

section \<open>Device registers\<close>

definition read_status :: "'a io_state_scheme \<Rightarrow> u8 \<times> 'a io_state_scheme" where
  "read_status s = (dev_status s (dev_status_reads s), s\<lparr>dev_status_reads := Suc (dev_status_reads s)\<rparr>)"

definition read_rx :: "'a io_state_scheme \<Rightarrow> u8 \<times> 'a io_state_scheme" where
  "read_rx s = (dev_rx s (dev_rx_reads s), s\<lparr>dev_rx_reads := Suc (dev_rx_reads s)\<rparr>)"

definition write_tx :: "u8 \<Rightarrow> 'a io_state_scheme \<Rightarrow> 'a io_state_scheme" where
  "write_tx c s = s\<lparr>dev_tx := dev_tx s @ [c]\<rparr>"

section \<open>Operations\<close>

definition console_init :: "'a io_state_scheme \<Rightarrow> ('a io_state_scheme) vres" where
  "console_init s =
     (let console_buffer_size_in_blocks = (CONSOLE_BUFFER_SIZE + MEM_BLOCK_SIZE - 1) div MEM_BLOCK_SIZE in
      seqr (mem_alloc console_buffer_size_in_blocks s) (\<lambda>(p, s).
      let s = s\<lparr>console_receive_buffer_ptr := p\<rparr> in
      seqr (mem_alloc console_buffer_size_in_blocks s) (\<lambda>(p, s).
      Inr (s\<lparr>console_send_buffer_ptr := p, console_receive_cnt := 0, console_send_cnt := 0,
             threads_waiting_for_input := 0\<rparr>))))"

text \<open>Moving the unread rest of a buffer to its front: \<open>buffer[i] = buffer[k + i]\<close> for \<open>i\<close> from 0 below \<open>n\<close>.\<close>

function shift_loop :: "nat \<Rightarrow> nat \<Rightarrow> nat \<Rightarrow> (nat \<Rightarrow> u8) \<Rightarrow> nat \<Rightarrow> u8" where
  "shift_loop k i n buf = (if i < n then shift_loop k (Suc i) n (buf(i := buf (k + i))) else buf)"
  by pat_completeness auto
termination by (relation "measure (\<lambda>(k, i, n, buf). n - i)") auto

declare shift_loop.simps [simp del]

function console_send_loop :: "u32 \<Rightarrow> 'a io_state_scheme \<Rightarrow> u32 \<times> 'a io_state_scheme" where
  "console_send_loop bytes_sent s =
     (let (status, s) = read_status s in
      if status AND CONSOLE_STATUS_SEND \<noteq> 0 \<and> bytes_sent < console_send_cnt s
      then console_send_loop (bytes_sent + 1) (write_tx (console_send_buffer s (unat bytes_sent)) s)
      else (bytes_sent, s))"
  by pat_completeness auto
termination
  by (relation "measure (\<lambda>(b, s). unat (console_send_cnt s - b))")
     (auto simp: read_status_def write_tx_def intro!: unat_mono, unat_arith)

declare console_send_loop.simps [simp del]

definition console_send :: "'a io_state_scheme \<Rightarrow> 'a io_state_scheme" where
  "console_send s =
     (let (bytes_sent, s) = console_send_loop 0 s;
          s = s\<lparr>console_send_cnt := console_send_cnt s - bytes_sent\<rparr>
      in s\<lparr>console_send_buffer :=
             shift_loop (unat bytes_sent) 0 (unat (console_send_cnt s)) (console_send_buffer s)\<rparr>)"

definition putc :: "u8 \<Rightarrow> 'a io_state_scheme \<Rightarrow> i32 \<times> 'a io_state_scheme" where
  "putc c s =
     (let full = (console_send_cnt s = 1024);
          s = (if full then console_send s else s)
      in if full \<and> console_send_cnt s = 1024 then (CONSOLE_SEND_BUFFER_FULL, s)
         else (let s = console_send s;
                   s = s\<lparr>console_send_buffer := (console_send_buffer s)(unat (console_send_cnt s) := c)\<rparr>;
                   s = s\<lparr>console_send_cnt := console_send_cnt s + 1\<rparr>
               in (0, s)))"

text \<open>The loop of \<open>__console_receive\<close> that takes bytes from the device.\<close>

function console_fill_loop :: "'a io_state_scheme \<Rightarrow> 'a io_state_scheme" where
  "console_fill_loop s =
     (let (status, s) = read_status s in
      if status AND CONSOLE_STATUS_RECEIVE \<noteq> 0 \<and> console_receive_cnt s < 1024
      then (let (c, s) = read_rx s;
                s = s\<lparr>console_receive_buffer :=
                        (console_receive_buffer s)(unat (console_receive_cnt s) := c)\<rparr>
            in console_fill_loop (s\<lparr>console_receive_cnt := console_receive_cnt s + 1\<rparr>))
      else s)"
  by pat_completeness auto
termination
proof (relation "measure (\<lambda>s. 1024 - unat (console_receive_cnt s))", goal_cases)
  case (2 s x status s1 y c s2)
  then have "console_receive_cnt s2 < (1024 :: u32)" "console_receive_cnt s2 = console_receive_cnt s"
    by (auto simp: read_rx_def read_status_def)
  then have "unat (console_receive_cnt s + 1) = Suc (unat (console_receive_cnt s))"
    and "unat (console_receive_cnt s) < 1024"
    by (simp_all only: unat_inc) (simp add: word_less_nat_alt)
  with 2 show ?case by (auto simp: read_status_def read_rx_def)
qed simp

declare console_fill_loop.simps [simp del]

section \<open>Moving a buffer\<close>

lemma shift_loop_at:
  "shift_loop k i n buf j = (if i \<le> j \<and> j < n then buf (k + j) else buf j)"
proof (induction k i n buf rule: shift_loop.induct)
  case (1 k i n buf)
  then show ?case by (subst shift_loop.simps) (auto simp: fun_upd_def)
qed

text \<open>The bytes of a buffer that its counter covers, oldest first.\<close>

definition buffered :: "(nat \<Rightarrow> u8) \<Rightarrow> u32 \<Rightarrow> u8 list" where
  "buffered buf cnt = map buf [0..<unat cnt]"

lemma length_buffered [simp]: "length (buffered buf cnt) = unat cnt"
  by (simp add: buffered_def)

lemma buffered_0 [simp]: "buffered buf 0 = []"
  by (simp add: buffered_def)

lemma buffered_drop:
  assumes "k \<le> unat cnt" and "unat cnt' = unat cnt - k"
  shows "buffered (shift_loop k 0 (unat cnt') buf) cnt' = drop k (buffered buf cnt)"
  using assms by (intro nth_equalityI) (simp_all add: buffered_def shift_loop_at)

lemma buffered_append:
  assumes "cnt < 1024"
  shows "buffered (buf(unat cnt := c)) (cnt + 1) = buffered buf cnt @ [c]"
  using unat_inc [OF assms] by (simp add: buffered_def)

section \<open>The send buffer\<close>

definition pending_output :: "'a io_state_scheme \<Rightarrow> u8 list" where
  "pending_output s = buffered (console_send_buffer s) (console_send_cnt s)"

definition output_of :: "'a io_state_scheme \<Rightarrow> u8 list" where
  "output_of s = dev_tx s @ pending_output s"

lemma console_send_loop_result:
  assumes "b \<le> console_send_cnt s"
  shows "\<exists>n r. console_send_loop b s =
    (n, s\<lparr>dev_status_reads := r, dev_tx := dev_tx s @ map (console_send_buffer s) [unat b..<unat n]\<rparr>)
    \<and> b \<le> n \<and> n \<le> console_send_cnt s"
  using assms
proof (induction b s rule: console_send_loop.induct)
  case (1 b s)
  let ?t = "snd (read_status s)"
  show ?case
  proof (cases "fst (read_status s) AND CONSOLE_STATUS_SEND \<noteq> 0 \<and> b < console_send_cnt ?t")
    case False
    then have "console_send_loop b s = (b, ?t)"
      by (subst console_send_loop.simps) (auto simp: split_beta)
    with "1.prems" show ?thesis by (auto simp: read_status_def)
  next
    case True
    let ?u = "write_tx (console_send_buffer ?t (unat b)) ?t"
    have e: "console_send_loop b s = console_send_loop (b + 1) ?u"
      using True by (subst console_send_loop.simps) (auto simp: split_beta)
    have lt: "b < console_send_cnt s" using True by (simp add: read_status_def)
    then have b1: "unat (b + 1) = Suc (unat b)" by (rule unat_inc)
    then have "b + 1 \<le> console_send_cnt ?u"
      using lt by (simp add: write_tx_def read_status_def word_le_nat_alt word_less_nat_alt)
    from "1.IH" [OF refl prod.collapse True this] obtain n r where
      n: "console_send_loop (b + 1) ?u = (n, ?u\<lparr>dev_status_reads := r,
        dev_tx := dev_tx ?u @ map (console_send_buffer ?u) [unat (b + 1)..<unat n]\<rparr>)"
      "b + 1 \<le> n" "n \<le> console_send_cnt ?u" by blast
    have le: "unat b < unat n" using n(2) b1 by (simp add: word_le_nat_alt)
    then have "[unat b..<unat n] = unat b # [unat (b + 1)..<unat n]" by (simp add: b1 upt_conv_Cons)
    with n le e show ?thesis
      by (auto simp: write_tx_def read_status_def word_le_nat_alt intro!: exI [of _ n])
  qed
qed

lemma console_send_result:
  obtains n r where "n \<le> unat (console_send_cnt s)"
    and "console_send s = s\<lparr>dev_status_reads := r, dev_tx := dev_tx s @ take n (pending_output s),
      console_send_cnt := console_send_cnt s - of_nat n,
      console_send_buffer := console_send_buffer (console_send s)\<rparr>"
    and "pending_output (console_send s) = drop n (pending_output s)"
proof -
  obtain m r where m: "console_send_loop 0 s =
      (m, s\<lparr>dev_status_reads := r, dev_tx := dev_tx s @ map (console_send_buffer s) [0..<unat m]\<rparr>)"
      "m \<le> console_send_cnt s"
    using console_send_loop_result [of 0 s] by auto
  have le: "unat m \<le> unat (console_send_cnt s)" using m(2) by (simp add: word_le_nat_alt)
  have cnt: "unat (console_send_cnt s - m) = unat (console_send_cnt s) - unat m"
    using m(2) by (rule unat_sub)
  have tx: "map (console_send_buffer s) [0..<unat m] = take (unat m) (pending_output s)"
    using le by (simp add: pending_output_def buffered_def take_map)
  show thesis
  proof (rule that [of "unat m" r])
    show "unat m \<le> unat (console_send_cnt s)" by (rule le)
    show "console_send s = s\<lparr>dev_status_reads := r, dev_tx := dev_tx s @ take (unat m) (pending_output s),
      console_send_cnt := console_send_cnt s - of_nat (unat m),
      console_send_buffer := console_send_buffer (console_send s)\<rparr>"
      by (simp add: console_send_def m(1) tx)
    show "pending_output (console_send s) = drop (unat m) (pending_output s)"
      by (simp add: console_send_def m(1) pending_output_def buffered_drop [OF le cnt])
  qed
qed

lemma console_send_output [simp]: "output_of (console_send s) = output_of s"
proof -
  obtain n r where e: "console_send s = s\<lparr>dev_status_reads := r, dev_tx := dev_tx s @ take n (pending_output s),
      console_send_cnt := console_send_cnt s - of_nat n,
      console_send_buffer := console_send_buffer (console_send s)\<rparr>"
    and p: "pending_output (console_send s) = drop n (pending_output s)"
    by (rule console_send_result [of s])
  have "dev_tx (console_send s) = dev_tx s @ take n (pending_output s)" by (subst e) simp
  with p show ?thesis by (simp add: output_of_def)
qed

lemma console_send_cnt_le: "console_send_cnt (console_send s) \<le> console_send_cnt s"
proof -
  obtain n r where n: "n \<le> unat (console_send_cnt s)"
    and e: "console_send s = s\<lparr>dev_status_reads := r, dev_tx := dev_tx s @ take n (pending_output s),
      console_send_cnt := console_send_cnt s - of_nat n,
      console_send_buffer := console_send_buffer (console_send s)\<rparr>"
    by (rule console_send_result [of s])
  have "unat (of_nat n :: u32) = n" using n unat_u32_bound [of "console_send_cnt s"]
    by (simp add: unat_of_nat)
  then have "of_nat n \<le> console_send_cnt s" using n by (simp add: word_le_nat_alt)
  then have "console_send_cnt s - of_nat n \<le> console_send_cnt s"
    by (simp add: word_le_nat_alt unat_sub)
  then show ?thesis by (subst e) simp
qed

text \<open>Sending changes the send buffer, its counter and the device only.\<close>

definition output_only :: "'a io_state_scheme \<Rightarrow> 'a io_state_scheme \<Rightarrow> bool" where
  "output_only s t \<longleftrightarrow>
     t = s\<lparr>console_send_buffer := console_send_buffer t, console_send_cnt := console_send_cnt t,
           dev_status_reads := dev_status_reads t, dev_tx := dev_tx t\<rparr>"

lemma output_only_trans [trans]: "output_only s t \<Longrightarrow> output_only t u \<Longrightarrow> output_only s u"
  by (cases s, cases t, cases u) (simp add: output_only_def)

lemma output_only_refl [simp]: "output_only s s"
  by (simp add: output_only_def)

lemma console_send_only [simp]: "output_only s (console_send s)"
proof -
  obtain n r where e: "console_send s = s\<lparr>dev_status_reads := r, dev_tx := dev_tx s @ take n (pending_output s),
      console_send_cnt := console_send_cnt s - of_nat n,
      console_send_buffer := console_send_buffer (console_send s)\<rparr>"
    by (rule console_send_result [of s])
  have "output_only s (s\<lparr>dev_status_reads := r, dev_tx := dev_tx s @ take n (pending_output s),
      console_send_cnt := console_send_cnt s - of_nat n, console_send_buffer := b\<rparr>)" for b
    by (simp add: output_only_def)
  then show ?thesis by (subst e)
qed

lemma output_onlyD:
  assumes "output_only s t"
  shows "io_state.more t = io_state.more s" and "mem_state.truncate t = mem_state.truncate s"
    and "console_receive_cnt t = console_receive_cnt s"
    and "console_receive_buffer t = console_receive_buffer s"
    and "dev_test t = dev_test s"
    and "threads_waiting_for_input t = threads_waiting_for_input s"
  using assms
  by (cases s; cases t; simp add: output_only_def mem_state.truncate_def)+

lemma putc_cases:
  assumes "console_send_cnt s \<le> 1024"
  obtains (sent) t where "putc c s = (0, t)" "output_only s t" "output_of t = output_of s @ [c]"
      "console_send_cnt t \<le> 1024"
    | (full) t where "putc c s = (CONSOLE_SEND_BUFFER_FULL, t)" "output_only s t"
      "output_of t = output_of s" "console_send_cnt t = 1024"
proof -
  define s1 where "s1 = (if console_send_cnt s = 1024 then console_send s else s)"
  have s1: "output_only s s1" "output_of s1 = output_of s" "console_send_cnt s1 \<le> 1024"
    using assms console_send_cnt_le [of s] by (auto simp: s1_def)
  show thesis
  proof (cases "console_send_cnt s = 1024 \<and> console_send_cnt s1 = 1024")
    case True
    then have "console_send_cnt s = 1024" "console_send_cnt (console_send s) = 1024"
      by (auto simp: s1_def)
    then have "putc c s = (CONSOLE_SEND_BUFFER_FULL, s1)" by (simp add: putc_def s1_def Let_def)
    with s1 True full show thesis by blast
  next
    case False
    with s1(3) assms have "console_send_cnt s1 \<noteq> 1024" by (auto simp: s1_def split: if_splits)
    with s1(3) have lt: "console_send_cnt s1 < 1024" by simp
    define u where "u = console_send s1"
    have u: "output_only s u" "output_of u = output_of s" "console_send_cnt u < 1024"
      using output_only_trans [OF s1(1) console_send_only] s1(2) lt console_send_cnt_le [of s1]
      by (auto simp: u_def)
    define t where "t = u\<lparr>console_send_buffer := (console_send_buffer u)(unat (console_send_cnt u) := c),
      console_send_cnt := console_send_cnt u + 1\<rparr>"
    have p: "putc c s = (0, t)" using False by (auto simp: putc_def s1_def u_def t_def Let_def)
    have "output_only u t" by (simp add: t_def output_only_def)
    with u(1) have o: "output_only s t" by (rule output_only_trans)
    have out: "output_of t = output_of s @ [c]"
      using buffered_append [OF u(3), of "console_send_buffer u" c] u(2)
      by (simp add: t_def output_of_def pending_output_def)
    have "console_send_cnt t \<le> 1024"
      using u(3) unat_inc [OF u(3)] by (simp add: t_def word_le_nat_alt word_less_nat_alt)
    with p o out sent show thesis by blast
  qed
qed

section \<open>The receive buffer\<close>

definition received :: "'a io_state_scheme \<Rightarrow> u8 list" where
  "received s = buffered (console_receive_buffer s) (console_receive_cnt s)"

lemma console_fill_result:
  assumes "console_receive_cnt s \<le> 1024"
  shows "\<exists>b c r n. console_fill_loop s =
      s\<lparr>console_receive_buffer := b, console_receive_cnt := c, dev_status_reads := r,
        dev_rx_reads := n\<rparr>
    \<and> c \<le> 1024 \<and> dev_rx_reads s \<le> n
    \<and> buffered b c = received s @ map (dev_rx s) [dev_rx_reads s..<n]"
  using assms
proof (induction s rule: console_fill_loop.induct)
  case (1 s)
  let ?t = "snd (read_status s)"
  show ?case
  proof (cases "fst (read_status s) AND CONSOLE_STATUS_RECEIVE \<noteq> 0 \<and> console_receive_cnt ?t < 1024")
    case False
    then have "console_fill_loop s = ?t"
      by (subst console_fill_loop.simps) (auto simp: split_beta)
    with "1.prems" show ?thesis
      by (intro exI [of _ "console_receive_buffer s"])
         (rule exI [of _ "console_receive_cnt s"], rule exI [of _ "Suc (dev_status_reads s)"],
          rule exI [of _ "dev_rx_reads s"], simp add: read_status_def received_def)
  next
    case True
    let ?v = "snd (read_rx ?t)"
    let ?w = "?v\<lparr>console_receive_buffer :=
      (console_receive_buffer ?v)(unat (console_receive_cnt ?v) := fst (read_rx ?t))\<rparr>"
    let ?u = "?w\<lparr>console_receive_cnt := console_receive_cnt ?w + 1\<rparr>"
    have e: "console_fill_loop s = console_fill_loop ?u"
      using True by (subst console_fill_loop.simps) (auto simp: split_beta Let_def)
    have lt: "console_receive_cnt s < 1024" using True by (simp add: read_status_def)
    then have "console_receive_cnt ?u \<le> 1024" using unat_inc [OF lt]
      by (simp add: read_status_def read_rx_def word_le_nat_alt word_less_nat_alt)
    from "1.IH" [OF refl prod.collapse True refl prod.collapse refl this] obtain b c r n where
      n: "console_fill_loop ?u = ?u\<lparr>console_receive_buffer := b, console_receive_cnt := c,
          dev_status_reads := r, dev_rx_reads := n\<rparr>"
        "c \<le> 1024" "dev_rx_reads ?u \<le> n"
        "buffered b c = received ?u @ map (dev_rx ?u) [dev_rx_reads ?u..<n]" by blast
    have "received ?u = received s @ [dev_rx s (dev_rx_reads s)]"
      using buffered_append [OF lt] by (simp add: received_def read_status_def read_rx_def)
    moreover have "[dev_rx_reads s..<n] = dev_rx_reads s # [Suc (dev_rx_reads s)..<n]"
      using n(3) by (simp add: read_status_def read_rx_def upt_conv_Cons)
    ultimately show ?thesis using n e
      by (intro exI [of _ b] exI [of _ c] exI [of _ r] exI [of _ n])
         (simp add: read_status_def read_rx_def)
  qed
qed

section \<open>Properties\<close>

text \<open>C30. Every byte given to \<open>__putc\<close> leaves the kernel once and in order. With at most 1024 bytes
  buffered, \<open>__putc\<close> either accepts the byte (result 0), and then the bytes sent to the device followed by
  those still buffered are the old ones with the new byte at the end; or it refuses it with
  \<open>CONSOLE_SEND_BUFFER_FULL\<close>, the buffer still being full after an attempt to send. No byte is stored
  past the buffer, and nothing else of the kernel changes.\<close>

theorem putc_keeps_output:
  assumes "console_send_cnt s \<le> 1024"
  shows "(\<exists>t. output_only s t \<and> console_send_cnt t \<le> 1024
      \<and> (putc c s = (0, t) \<and> output_of t = output_of s @ [c]
        \<or> putc c s = (CONSOLE_SEND_BUFFER_FULL, t) \<and> output_of t = output_of s
          \<and> console_send_cnt s = 1024 \<and> console_send_cnt t = 1024))"
  using assms
proof (rule putc_cases [of s c], goal_cases)
  case (2 t)
  note full = this
  then have "console_send_cnt s = 1024"
    by (auto simp: putc_def Let_def CONSOLE_SEND_BUFFER_FULL_def split: if_splits)
  with full show ?thesis by auto
qed auto

text \<open>\<open>__console_send\<close> takes from the front of the send buffer: the bytes it writes to the device
  followed by those that stay are the bytes that were buffered, whatever the device reports.\<close>

lemma console_send_keeps_output:
  "output_only s (console_send s) \<and>
   (\<exists>n \<le> unat (console_send_cnt s). dev_tx (console_send s) = dev_tx s @ take n (pending_output s)
     \<and> pending_output (console_send s) = drop n (pending_output s))"
proof -
  obtain n r where n: "n \<le> unat (console_send_cnt s)"
    and e: "console_send s = s\<lparr>dev_status_reads := r, dev_tx := dev_tx s @ take n (pending_output s),
      console_send_cnt := console_send_cnt s - of_nat n,
      console_send_buffer := console_send_buffer (console_send s)\<rparr>"
    and p: "pending_output (console_send s) = drop n (pending_output s)"
    by (rule console_send_result [of s])
  have "dev_tx (console_send s) = dev_tx s @ take n (pending_output s)" by (subst e) simp
  with n p show ?thesis by auto
qed

text \<open>The receiving loop of \<open>__console_receive\<close> ends, never stores past the 1024 bytes of the buffer,
  and appends to the buffer exactly the bytes it read from the device, in order.\<close>

lemma console_fill_appends:
  assumes "console_receive_cnt s \<le> 1024"
  shows "console_receive_cnt (console_fill_loop s) \<le> 1024
    \<and> received (console_fill_loop s) =
        received s @ map (dev_rx s) [dev_rx_reads s..<dev_rx_reads (console_fill_loop s)]
    \<and> console_send_cnt (console_fill_loop s) = console_send_cnt s"
proof -
  obtain b c r n where "console_fill_loop s = s\<lparr>console_receive_buffer := b, console_receive_cnt := c,
      dev_status_reads := r, dev_rx_reads := n\<rparr>" "c \<le> 1024"
      "buffered b c = received s @ map (dev_rx s) [dev_rx_reads s..<n]"
    using console_fill_result [OF assms] by blast
  then show ?thesis by (simp add: received_def)
qed

text \<open>A console whose send buffer is full and whose device is never ready to send, with two bytes to read.\<close>

definition stuck_console :: io_state where
  "stuck_console = \<lparr>mem_index = (\<lambda>_. 0), n_mem_blocks = 0, mem_index_len_in_blocks = 0,
     HEAP_START_ADDR = 0, HEAP_END_ADDR = 0, console_receive_buffer_ptr = 0,
     console_send_buffer_ptr = 0, console_receive_buffer = (\<lambda>_. 0), console_send_buffer = (\<lambda>_. 7),
     console_receive_cnt = 0, console_send_cnt = 1024, threads_waiting_for_input = 0,
     dev_status = (\<lambda>n. if n < 2 then 1 else 0), dev_status_reads = 0, dev_rx = (\<lambda>n. of_nat (n + 65)),
     dev_rx_reads = 0, dev_tx = [], dev_test = None\<rparr>"

theorem putc_keeps_output_witness:
  "\<exists>t. console_send_cnt t \<le> 1024 \<and> putc 65 stuck_console = (CONSOLE_SEND_BUFFER_FULL, t)
    \<and> output_of t = output_of stuck_console"
proof -
  have "putc 65 stuck_console \<noteq> (0, t)" for t
    by (simp add: putc_def console_send_def console_send_loop.simps read_status_def stuck_console_def
      CONSOLE_SEND_BUFFER_FULL_def)
  then show ?thesis
    using putc_keeps_output [of stuck_console 65] by (auto simp: stuck_console_def)
qed

lemma console_fill_appends_witness:
  "console_receive_cnt (console_fill_loop stuck_console) \<le> 1024 \<and>
   received (console_fill_loop stuck_console) = [65, 66]"
proof -
  have "dev_rx_reads (console_fill_loop stuck_console) = 2"
    by (simp add: console_fill_loop.simps stuck_console_def read_status_def read_rx_def)
  moreover have "[0..<2] = [0, Suc 0]" by (simp add: upt_rec numeral_2_eq_2)
  moreover have "received stuck_console = []" by (simp add: received_def stuck_console_def)
  moreover have "console_receive_cnt stuck_console \<le> 1024" "dev_rx_reads stuck_console = 0"
    "map (dev_rx stuck_console) [0, Suc 0] = [65, 66]"
    by (simp_all add: stuck_console_def)
  ultimately show ?thesis using console_fill_appends [of stuck_console] by simp
qed

end
