(* ===== verification/Print.thy ===== *)
theory Print
  imports Console
begin

text \<open>
  The output routines of \<open>src/kernel.c\<close> and \<open>__mem_print\<close> of \<open>src/mem.c\<close>, down to the bytes handed to
  \<open>__putc\<close>, and the two ways the kernel stops the machine, \<open>__stop\<close> and \<open>__panic\<close>. The printers ignore the
  result of \<open>__putc\<close>: what they are proved to do is to hand the right bytes to it, in order; that these
  bytes also arrive is proved for a device that is ready.
\<close>

section \<open>Machine division\<close>

text \<open>Unsigned division as the RISC-V instructions define it, also for the divisor 0 (which the code
  never reaches).\<close>

definition divu :: "'a::len word \<Rightarrow> 'a word \<Rightarrow> 'a word" where
  "divu x y = (if y = 0 then -1 else x div y)"

definition remu :: "'a::len word \<Rightarrow> 'a word \<Rightarrow> 'a word" where
  "remu x y = (if y = 0 then x else x mod y)"

lemma divu_less:
  fixes m d :: "'a::len word"
  assumes "m \<noteq> 0" and "1 < d"
  shows "divu m d < m"
proof -
  have "unat m div unat d < unat m"
    using assms by (intro div_less_dividend) (auto simp: word_less_nat_alt unat_eq_0 [symmetric])
  then show ?thesis using assms by (auto simp: divu_def word_less_nat_alt unat_div)
qed

lemma divu_eq_0: "divu x y = 0 \<Longrightarrow> y \<noteq> 0"
  by (auto simp: divu_def)

lemma unat_divu: "y \<noteq> 0 \<Longrightarrow> unat (divu x y) = unat x div unat y"
  and unat_remu: "y \<noteq> 0 \<Longrightarrow> unat (remu x y) = unat x mod unat y"
  by (simp_all add: divu_def remu_def unat_div unat_mod)

lemma unat_drop_bit_4: "unat (drop_bit 4 (m :: u64)) = unat m div 16"
  by (simp only: unat_drop_bit_eq drop_bit_eq_div) (simp add: unat_div)

lemma drop_bit_4_less: "m \<noteq> 0 \<Longrightarrow> unat (drop_bit 4 (m :: u64)) < unat m"
  by (simp only: unat_drop_bit_4) (auto intro!: div_less_dividend simp: unat_gt_0)

section \<open>Emitting bytes\<close>

definition emit :: "u8 \<Rightarrow> 'a io_state_scheme \<Rightarrow> 'a io_state_scheme" where
  "emit c s = snd (putc c s)"

abbreviation emits :: "u8 list \<Rightarrow> 'a io_state_scheme \<Rightarrow> 'a io_state_scheme" where
  "emits cs s \<equiv> fold emit cs s"

text \<open>A C string is given by its characters before the terminating null.\<close>

primrec print_str :: "string \<Rightarrow> 'a io_state_scheme \<Rightarrow> 'a io_state_scheme" where
  "print_str [] s = s"
| "print_str (c # str) s = print_str str (emit (of_char c) s)"

section \<open>Numbers\<close>

function dec_scale_u64 :: "u64 \<Rightarrow> u64 \<Rightarrow> u64" where
  "dec_scale_u64 var m = (if divu var m = 0 then dec_scale_u64 var (divu m 10) else m)"
  by pat_completeness auto
termination
  by (relation "measure (\<lambda>(var, m). unat m)")
     (auto intro!: unat_mono divu_less dest: divu_eq_0)

function dec_loop_u64 :: "u64 \<Rightarrow> u64 \<Rightarrow> 'a io_state_scheme \<Rightarrow> 'a io_state_scheme" where
  "dec_loop_u64 var m s =
     (if m \<noteq> 0 then dec_loop_u64 (remu var m) (divu m 10) (emit (ucast (0x30 + divu var m)) s) else s)"
  by pat_completeness auto
termination
  by (relation "measure (\<lambda>(var, m, s). unat m)") (auto intro!: unat_mono divu_less)

definition print_u64 :: "u64 \<Rightarrow> 'a io_state_scheme \<Rightarrow> 'a io_state_scheme" where
  "print_u64 var s =
     (if var = 0 then emit 0x30 s
      else dec_loop_u64 var (dec_scale_u64 var 10000000000000000000) s)"

function dec_scale_u32 :: "u32 \<Rightarrow> u32 \<Rightarrow> u32" where
  "dec_scale_u32 var m = (if divu var m = 0 then dec_scale_u32 var (divu m 10) else m)"
  by pat_completeness auto
termination
  by (relation "measure (\<lambda>(var, m). unat m)")
     (auto intro!: unat_mono divu_less dest: divu_eq_0)

function dec_loop_u32 :: "u32 \<Rightarrow> u32 \<Rightarrow> 'a io_state_scheme \<Rightarrow> 'a io_state_scheme" where
  "dec_loop_u32 var m s =
     (if m \<noteq> 0 then dec_loop_u32 (remu var m) (divu m 10) (emit (ucast (0x30 + divu var m)) s) else s)"
  by pat_completeness auto
termination
  by (relation "measure (\<lambda>(var, m, s). unat m)") (auto intro!: unat_mono divu_less)

text \<open>\<open>var / mod\<close> mixes an \<open>i32\<close> with a \<open>u32\<close>, so both divisions are unsigned.\<close>

definition print_i32 :: "i32 \<Rightarrow> 'a io_state_scheme \<Rightarrow> 'a io_state_scheme" where
  "print_i32 var s =
     (if var = 0 then emit 0x30 s
      else
        (let (var, s) = (if var AND push_bit 31 1 \<noteq> 0 then (NOT var + 1, emit 0x2D s) else (var, s))
         in dec_loop_u32 var (dec_scale_u32 var 1000000000) s))"

definition hex :: "u8 list" where
  "hex = [0x30, 0x31, 0x32, 0x33, 0x34, 0x35, 0x36, 0x37, 0x38, 0x39, 0x41, 0x42, 0x43, 0x44, 0x45, 0x46]"

function hex_loop_64 :: "u64 \<Rightarrow> u64 \<Rightarrow> 'a io_state_scheme \<Rightarrow> 'a io_state_scheme" where
  "hex_loop_64 var m s =
     (if m \<noteq> 0
      then hex_loop_64 (remu var m) (drop_bit 4 m) (emit (hex ! unat (divu var m)) s)
      else s)"
  by pat_completeness auto
termination
  by (relation "measure (\<lambda>(var, m, s). unat m)")
     (auto simp: drop_bit_4_less)

definition print_h64 :: "u64 \<Rightarrow> 'a io_state_scheme \<Rightarrow> 'a io_state_scheme" where
  "print_h64 var s = hex_loop_64 var (push_bit 60 1) s"

function hex_loop_32 :: "u32 \<Rightarrow> u64 \<Rightarrow> 'a io_state_scheme \<Rightarrow> 'a io_state_scheme" where
  "hex_loop_32 var m s =
     (if m \<noteq> 0
      then hex_loop_32 (ucast (remu (ucast var) m)) (drop_bit 4 m)
             (emit (hex ! unat (divu (ucast var) m)) s)
      else s)"
  by pat_completeness auto
termination
  by (relation "measure (\<lambda>(var, m, s). unat m)")
     (auto simp: drop_bit_4_less)

definition print_h32 :: "u32 \<Rightarrow> 'a io_state_scheme \<Rightarrow> 'a io_state_scheme" where
  "print_h32 var s = hex_loop_32 var (push_bit 28 1) s"

declare dec_scale_u64.simps [simp del] dec_loop_u64.simps [simp del] dec_scale_u32.simps [simp del]
  dec_loop_u32.simps [simp del] hex_loop_64.simps [simp del] hex_loop_32.simps [simp del]

definition print_mem :: "string \<Rightarrow> u64 \<Rightarrow> 'a io_state_scheme \<Rightarrow> 'a io_state_scheme" where
  "print_mem msg m s =
     (let s = print_str msg s;
          s = print_str '': '' s;
          s = print_u64 m s;
          s = print_str '' : '' s;
          s = print_h64 m s
      in emit 0x0A s)"

section \<open>Digits\<close>

text \<open>The specification: the decimal digits of a number, without leading zeros, and the last \<open>k\<close> digits
  to a base, most significant first.\<close>

fun dec_digits :: "nat \<Rightarrow> nat list" where
  "dec_digits n = (if n < 10 then [n] else dec_digits (n div 10) @ [n mod 10])"

declare dec_digits.simps [simp del]

definition fixed_digits :: "nat \<Rightarrow> nat \<Rightarrow> nat \<Rightarrow> nat list" where
  "fixed_digits b k n = map (\<lambda>i. n div b ^ i mod b) (rev [0..<k])"

definition digit_char :: "nat \<Rightarrow> u8" where
  "digit_char d = of_nat (48 + d)"

lemma mod_power_digit:
  fixes b :: nat
  assumes "i < k" and "0 < b"
  shows "n mod b ^ k div b ^ i mod b = n div b ^ i mod b"
proof -
  have "b ^ k = b ^ i * b ^ (k - i)" using assms by (simp flip: power_add)
  then have "n mod b ^ k div b ^ i = n div b ^ i mod b ^ (k - i)"
    using assms(2) by (simp add: mod_mult2_eq)
  moreover have "b dvd b ^ (k - i)" using assms by (simp add: dvd_power)
  ultimately show ?thesis by (simp add: mod_mod_cancel)
qed

lemma fixed_digits_Suc:
  assumes "n < b ^ Suc k"
  shows "fixed_digits b (Suc k) n = (n div b ^ k) # fixed_digits b k (n mod b ^ k)"
proof -
  have "n div b ^ k < b" using assms by (simp add: less_mult_imp_div_less)
  moreover from this have "0 < b" by linarith
  ultimately show ?thesis by (auto simp: fixed_digits_def mod_power_digit)
qed

lemma fixed_digits_0 [simp]: "fixed_digits b 0 n = []"
  by (simp add: fixed_digits_def)

lemma fixed_digits_last: "fixed_digits b (Suc k) n = fixed_digits b k (n div b) @ [n mod b]"
proof -
  have "rev [0..<Suc k] = map Suc (rev [0..<k]) @ [0]"
    by (simp add: rev_map [symmetric] map_Suc_upt upt_conv_Cons del: upt_Suc)
  then show ?thesis by (simp add: fixed_digits_def div_mult2_eq del: upt_Suc)
qed

lemma dec_digits_fixed:
  assumes "n < 10 ^ Suc k" and "k = 0 \<or> 10 ^ k \<le> n"
  shows "dec_digits n = fixed_digits 10 (Suc k) n"
  using assms
proof (induction k arbitrary: n)
  case 0
  then show ?case by (subst dec_digits.simps) (simp add: fixed_digits_last)
next
  case (Suc k)
  then have big: "10 * 10 ^ k \<le> n" by simp
  have "(1 :: nat) \<le> 10 ^ k" by simp
  with big have "\<not> n < 10" by linarith
  then have "dec_digits n = dec_digits (n div 10) @ [n mod 10]" by (subst dec_digits.simps) simp
  also have "dec_digits (n div 10) = fixed_digits 10 (Suc k) (n div 10)"
  proof (rule Suc.IH)
    show "n div 10 < 10 ^ Suc k" using Suc.prems(1) by (simp add: less_mult_imp_div_less)
    show "k = 0 \<or> 10 ^ k \<le> n div 10" using big by (simp add: less_eq_div_iff_mult_less_eq mult.commute)
  qed
  finally show ?case by (simp add: fixed_digits_last [of 10 "Suc k"])
qed

lemma digit_byte_64:
  fixes q :: u64
  assumes "unat q < 10"
  shows "ucast (0x30 + q) = digit_char (unat q)"
proof -
  have "unat (0x30 + q) = 48 + unat q" using assms by (simp add: unat_word_ariths)
  then show ?thesis by (simp only: ucast_of_unat digit_char_def)
qed

lemma digit_byte_32:
  fixes q :: u32
  assumes "unat q < 10"
  shows "ucast (0x30 + q) = digit_char (unat q)"
proof -
  have "unat (0x30 + q) = 48 + unat q" using assms by (simp add: unat_word_ariths)
  then show ?thesis by (simp only: ucast_of_unat digit_char_def)
qed

lemma dec_loop_u64_0 [simp]: "dec_loop_u64 var 0 s = s"
  and dec_loop_u32_0 [simp]: "dec_loop_u32 var' 0 s = s"
  by (simp_all add: dec_loop_u64.simps dec_loop_u32.simps)

lemma dec_loop_u64_digits:
  assumes "unat m = 10 ^ k" and "unat var < 10 ^ Suc k"
  shows "dec_loop_u64 var m s = emits (map digit_char (fixed_digits 10 (Suc k) (unat var))) s"
  using assms
proof (induction k arbitrary: m var s)
  case 0
  then have m: "m = 1" by (metis power_0 unat_1 word_unat_eq_iff)
  then have "unat (divu var m) = unat var" by (simp add: unat_divu)
  with 0 have "ucast (0x30 + divu var m) = digit_char (unat var)" by (simp add: digit_byte_64)
  moreover have "divu m 10 = 0" using m by (simp add: divu_def)
  ultimately show ?case using m "0.prems"
    by (subst dec_loop_u64.simps) (simp add: fixed_digits_last)
next
  case (Suc k)
  have m: "m \<noteq> 0" using Suc.prems(1) by auto
  have q: "unat (divu var m) = unat var div 10 ^ Suc k" using m Suc.prems(1) by (simp add: unat_divu)
  have r: "unat (remu var m) = unat var mod 10 ^ Suc k" using m Suc.prems(1) by (simp add: unat_remu)
  have "unat (divu var m) < 10" using Suc.prems(2) unfolding q by (simp add: less_mult_imp_div_less)
  then have "ucast (0x30 + divu var m) = digit_char (unat var div 10 ^ Suc k)"
    using digit_byte_64 q by simp
  moreover have "unat (divu m 10) = 10 ^ k" using Suc.prems(1) by (simp add: unat_divu)
  moreover have "unat (remu var m) < 10 ^ Suc k" unfolding r by (rule mod_less_divisor) simp
  ultimately show ?case using m
    by (subst dec_loop_u64.simps) (simp add: Suc.IH r fixed_digits_Suc [OF Suc.prems(2)])
qed

lemma dec_loop_u32_digits:
  assumes "unat m = 10 ^ k" and "unat var < 10 ^ Suc k"
  shows "dec_loop_u32 var m s = emits (map digit_char (fixed_digits 10 (Suc k) (unat var))) s"
  using assms
proof (induction k arbitrary: m var s)
  case 0
  then have m: "m = 1" by (metis power_0 unat_1 word_unat_eq_iff)
  then have "unat (divu var m) = unat var" by (simp add: unat_divu)
  with 0 have "ucast (0x30 + divu var m) = digit_char (unat var)" by (simp add: digit_byte_32)
  moreover have "divu m 10 = 0" using m by (simp add: divu_def)
  ultimately show ?case using m "0.prems"
    by (subst dec_loop_u32.simps) (simp add: fixed_digits_last)
next
  case (Suc k)
  have m: "m \<noteq> 0" using Suc.prems(1) by auto
  have q: "unat (divu var m) = unat var div 10 ^ Suc k" using m Suc.prems(1) by (simp add: unat_divu)
  have r: "unat (remu var m) = unat var mod 10 ^ Suc k" using m Suc.prems(1) by (simp add: unat_remu)
  have "unat (divu var m) < 10" using Suc.prems(2) unfolding q by (simp add: less_mult_imp_div_less)
  then have "ucast (0x30 + divu var m) = digit_char (unat var div 10 ^ Suc k)"
    using digit_byte_32 q by simp
  moreover have "unat (divu m 10) = 10 ^ k" using Suc.prems(1) by (simp add: unat_divu)
  moreover have "unat (remu var m) < 10 ^ Suc k" unfolding r by (rule mod_less_divisor) simp
  ultimately show ?case using m
    by (subst dec_loop_u32.simps) (simp add: Suc.IH r fixed_digits_Suc [OF Suc.prems(2)])
qed

lemma scale_u64:
  assumes "unat m = 10 ^ j" and "var \<noteq> 0" and "unat var < 10 ^ Suc j"
  obtains k where "unat (dec_scale_u64 var m) = 10 ^ k" and "10 ^ k \<le> unat var" and "unat var < 10 ^ Suc k"
  using assms
proof (induction j arbitrary: m thesis)
  case 0
  then have "m = 1" by (metis power_0 unat_1 word_unat_eq_iff)
  then have "dec_scale_u64 var m = m" using 0 by (subst dec_scale_u64.simps) (simp add: divu_def)
  with 0 show ?case by (intro "0.prems"(1) [of 0]) (simp_all add: unat_gt_0 Suc_le_eq)
next
  case (Suc j)
  have m: "m \<noteq> 0" using Suc.prems(2) by auto
  show ?case
  proof (cases "unat var < 10 ^ Suc j")
    case True
    then have "divu var m = 0" using m Suc.prems(2) by (simp add: unat_eq_0 [symmetric] unat_divu)
    then have e: "dec_scale_u64 var m = dec_scale_u64 var (divu m 10)" by (subst dec_scale_u64.simps) simp
    have "unat (divu m 10) = 10 ^ j" using Suc.prems(2) by (simp add: unat_divu)
    from Suc.IH [OF _ this Suc.prems(3) True] Suc.prems(1) show ?thesis unfolding e by blast
  next
    case False
    then have "0 < unat (divu var m)" using m Suc.prems(2) by (simp add: unat_divu div_greater_zero_iff)
    then have "dec_scale_u64 var m = m" by (subst dec_scale_u64.simps) auto
    with Suc.prems(2,4) False show ?thesis by (intro Suc.prems(1) [of "Suc j"]) simp_all
  qed
qed

lemma scale_u32:
  assumes "unat m = 10 ^ j" and "var \<noteq> 0" and "unat var < 10 ^ Suc j"
  obtains k where "unat (dec_scale_u32 var m) = 10 ^ k" and "10 ^ k \<le> unat var" and "unat var < 10 ^ Suc k"
  using assms
proof (induction j arbitrary: m thesis)
  case 0
  then have "m = 1" by (metis power_0 unat_1 word_unat_eq_iff)
  then have "dec_scale_u32 var m = m" using 0 by (subst dec_scale_u32.simps) (simp add: divu_def)
  with 0 show ?case by (intro "0.prems"(1) [of 0]) (simp_all add: unat_gt_0 Suc_le_eq)
next
  case (Suc j)
  have m: "m \<noteq> 0" using Suc.prems(2) by auto
  show ?case
  proof (cases "unat var < 10 ^ Suc j")
    case True
    then have "divu var m = 0" using m Suc.prems(2) by (simp add: unat_eq_0 [symmetric] unat_divu)
    then have e: "dec_scale_u32 var m = dec_scale_u32 var (divu m 10)" by (subst dec_scale_u32.simps) simp
    have "unat (divu m 10) = 10 ^ j" using Suc.prems(2) by (simp add: unat_divu)
    from Suc.IH [OF _ this Suc.prems(3) True] Suc.prems(1) show ?thesis unfolding e by blast
  next
    case False
    then have "0 < unat (divu var m)" using m Suc.prems(2) by (simp add: unat_divu div_greater_zero_iff)
    then have "dec_scale_u32 var m = m" by (subst dec_scale_u32.simps) auto
    with Suc.prems(2,4) False show ?thesis by (intro Suc.prems(1) [of "Suc j"]) simp_all
  qed
qed

lemma print_u64_digits: "print_u64 var s = emits (map digit_char (dec_digits (unat var))) s"
proof (cases "var = 0")
  case True
  then show ?thesis by (simp add: print_u64_def dec_digits.simps digit_char_def)
next
  case False
  have "unat var < 10 ^ Suc 19" using unat_u64_bound [of var] by simp
  with False obtain k where k: "unat (dec_scale_u64 var 10000000000000000000) = 10 ^ k"
      "10 ^ k \<le> unat var" "unat var < 10 ^ Suc k"
    using scale_u64 [of 10000000000000000000 19 var] by auto
  from k(1,3) have "print_u64 var s = emits (map digit_char (fixed_digits 10 (Suc k) (unat var))) s"
    using False by (simp add: print_u64_def dec_loop_u64_digits)
  also have "fixed_digits 10 (Suc k) (unat var) = dec_digits (unat var)"
    using k(2,3) by (simp add: dec_digits_fixed)
  finally show ?thesis .
qed

lemma print_u32_digits:
  assumes "var \<noteq> 0"
  shows "dec_loop_u32 var (dec_scale_u32 var 1000000000) s =
    emits (map digit_char (dec_digits (unat var))) s"
proof -
  have "unat var < 10 ^ Suc 9" using unat_u32_bound [of var] by simp
  with assms obtain k where k: "unat (dec_scale_u32 var 1000000000) = 10 ^ k"
      "10 ^ k \<le> unat var" "unat var < 10 ^ Suc k"
    using scale_u32 [of 1000000000 9 var] by auto
  then show ?thesis by (simp add: dec_loop_u32_digits dec_digits_fixed)
qed

definition decimal :: "int \<Rightarrow> u8 list" where
  "decimal i = (if i < 0 then [0x2D] else []) @ map digit_char (dec_digits (nat \<bar>i\<bar>))"

lemma uint_of_sint_32: "uint (w :: i32) = sint w mod 4294967296"
  by (simp add: uint_sint take_bit_eq_mod)

lemma sign_bit_i32: "(w :: i32) AND push_bit 31 1 \<noteq> 0 \<longleftrightarrow> sint w < 0"
  using bit_last_iff [of w] and_exp_eq_0_iff_not_bit [of w 31] by (simp add: push_bit_of_1)

lemma unat_i32_abs:
  shows "0 \<le> sint (w :: i32) \<Longrightarrow> unat w = nat \<bar>sint w\<bar>"
    and "sint w < 0 \<Longrightarrow> unat (NOT w + 1) = nat \<bar>sint w\<bar>"
proof -
  assume "0 \<le> sint w"
  then have "uint w = sint w" using sint_i32_bounds [of w] by (simp add: uint_of_sint_32)
  with \<open>0 \<le> sint w\<close> show "unat w = nat \<bar>sint w\<bar>" by (simp add: unat_eq_nat_uint)
next
  assume n: "sint w < 0"
  have "NOT w + 1 = - w" by (simp add: minus_eq_not_plus_1)
  also have "- w = word_of_int (- sint w)" by (simp only: word_of_int_sint wi_hom_neg [symmetric])
  finally have "uint (NOT w + 1) = uint (word_of_int (- sint w) :: i32)" by (rule arg_cong)
  also have "\<dots> = - sint w mod 2 ^ 32" by (simp only: uint_word_of_int) simp
  also have "\<dots> = - sint w" using n sint_i32_bounds [of w] by (intro mod_pos_pos_trivial) simp_all
  finally show "unat (NOT w + 1) = nat \<bar>sint w\<bar>" using n by (simp add: unat_eq_nat_uint)
qed

lemma print_i32_decimal: "print_i32 var s = emits (decimal (sint var)) s"
proof (cases "var = 0")
  case True
  then show ?thesis by (simp add: print_i32_def decimal_def dec_digits.simps digit_char_def)
next
  case False
  show ?thesis
  proof (cases "sint var < 0")
    case True
    have "NOT var + 1 \<noteq> 0" using unat_i32_abs(2) [OF True] True by auto
    with False True sign_bit_i32 [of var] show ?thesis
      by (simp add: print_i32_def print_u32_digits unat_i32_abs(2) decimal_def)
  next
    case nonneg: False
    then have "unat var = nat \<bar>sint var\<bar>" by (intro unat_i32_abs) simp
    with False nonneg sign_bit_i32 [of var] show ?thesis
      by (simp add: print_i32_def print_u32_digits decimal_def)
  qed
qed

definition hex_char :: "nat \<Rightarrow> u8" where
  "hex_char d = hex ! d"

lemma hex_loop_64_0 [simp]: "hex_loop_64 var 0 s = s"
  and hex_loop_32_0 [simp]: "hex_loop_32 var' 0 s = s"
  by (simp_all add: hex_loop_64.simps hex_loop_32.simps)

lemma hex_loop_64_digits:
  assumes "unat m = 16 ^ k" and "unat var < 16 ^ Suc k"
  shows "hex_loop_64 var m s = emits (map hex_char (fixed_digits 16 (Suc k) (unat var))) s"
  using assms
proof (induction k arbitrary: m var s)
  case 0
  then have m: "m = 1" by (metis power_0 unat_1 word_unat_eq_iff)
  then have "unat (divu var m) = unat var" by (simp add: unat_divu)
  moreover have "drop_bit 4 m = 0" using m by simp
  ultimately show ?case using m "0.prems"
    by (subst hex_loop_64.simps) (simp add: fixed_digits_last hex_char_def)
next
  case (Suc k)
  have m: "m \<noteq> 0" using Suc.prems(1) by auto
  have q: "unat (divu var m) = unat var div 16 ^ Suc k" using m Suc.prems(1) by (simp add: unat_divu)
  have r: "unat (remu var m) = unat var mod 16 ^ Suc k" using m Suc.prems(1) by (simp add: unat_remu)
  have "unat (drop_bit 4 m) = 16 ^ k" using Suc.prems(1) by (simp add: unat_drop_bit_4)
  moreover have "unat (remu var m) < 16 ^ Suc k" unfolding r by (rule mod_less_divisor) simp
  ultimately show ?case using m q
    by (subst hex_loop_64.simps) (simp add: Suc.IH r fixed_digits_Suc [OF Suc.prems(2)] hex_char_def [abs_def])
qed

lemma hex_loop_32_64: "hex_loop_32 var m s = hex_loop_64 (ucast var) m s"
proof (induction var m s rule: hex_loop_32.induct)
  case (1 var m s)
  have "unat (remu (ucast var :: u64) m) \<le> unat (ucast var :: u64)"
    by (cases "m = 0") (simp add: remu_def, simp add: unat_remu)
  also have "\<dots> < 4294967296" using unat_u32_bound [of var] by (simp only: unat_ucast_u32)
  finally have "ucast (ucast (remu (ucast var :: u64) m) :: u32) = remu (ucast var :: u64) m"
    by (rule ucast_u32_u64)
  with 1 show ?case by (subst hex_loop_32.simps, subst hex_loop_64.simps) simp
qed

lemma print_str_emits: "print_str str s = emits (map of_char str) s"
  by (induction str arbitrary: s) simp_all

lemma print_h64_digits: "print_h64 var s = emits (map hex_char (fixed_digits 16 16 (unat var))) s"
proof -
  have "unat (push_bit 60 1 :: u64) = 16 ^ 15" by (simp add: push_bit_of_1)
  moreover have "unat var < 16 ^ Suc 15" using unat_u64_bound [of var] by simp
  ultimately have "print_h64 var s = emits (map hex_char (fixed_digits 16 (Suc 15) (unat var))) s"
    unfolding print_h64_def by (rule hex_loop_64_digits)
  then show ?thesis by simp
qed

lemma print_h32_digits: "print_h32 var s = emits (map hex_char (fixed_digits 16 8 (unat var))) s"
proof -
  have "unat (push_bit 28 1 :: u64) = 16 ^ 7" by (simp add: push_bit_of_1)
  moreover have "unat (ucast var :: u64) < 16 ^ Suc 7"
    using unat_u32_bound [of var] by (simp add: unat_ucast_u32)
  ultimately have "print_h32 var s =
      emits (map hex_char (fixed_digits 16 (Suc 7) (unat (ucast var :: u64)))) s"
    unfolding print_h32_def hex_loop_32_64 by (rule hex_loop_64_digits)
  then show ?thesis by (simp add: unat_ucast_u32)
qed

text \<open>The bytes of one line of \<open>__print_mem\<close>.\<close>

definition mem_line :: "string \<Rightarrow> u64 \<Rightarrow> u8 list" where
  "mem_line msg m = map of_char msg @ map of_char '': '' @ map digit_char (dec_digits (unat m))
     @ map of_char '' : '' @ map hex_char (fixed_digits 16 16 (unat m)) @ [0x0A]"

lemma print_mem_line: "print_mem msg m s = emits (mem_line msg m) s"
  by (simp add: print_mem_def mem_line_def print_str_emits print_u64_digits print_h64_digits Let_def
    del: fixed_digits_0 list.map upt.simps)

lemmas print_bytes = print_str_emits print_u64_digits print_i32_decimal print_h64_digits
  print_h32_digits print_mem_line

section \<open>Stopping the machine\<close>

lemma emit_only [simp]: "output_only s (emit c s)"
proof -
  have e: "output_only s (if console_send_cnt s = 1024 then console_send s else s)" by simp
  let ?s = "if console_send_cnt s = 1024 then console_send s else s"
  have "output_only u (u\<lparr>console_send_buffer := b, console_send_cnt := n\<rparr>)" for u :: "'a io_state_scheme" and b n
    by (simp add: output_only_def)
  then have "output_only ?s ((console_send ?s)\<lparr>console_send_buffer := b, console_send_cnt := n\<rparr>)" for b n
    by (rule output_only_trans [OF console_send_only])
  with e have "output_only s ((console_send ?s)\<lparr>console_send_buffer := b, console_send_cnt := n\<rparr>)" for b n
    by (rule output_only_trans)
  with e show ?thesis by (simp add: emit_def putc_def Let_def)
qed

lemma emits_only [simp]: "output_only s (emits cs s)"
proof (induction cs arbitrary: s)
  case (Cons c cs)
  show ?case using output_only_trans [OF emit_only Cons.IH] by simp
qed simp

function mem_print_loop :: "u64 \<Rightarrow> 'a io_state_scheme \<Rightarrow> 'a io_state_scheme" where
  "mem_print_loop i s =
     (if i < n_mem_blocks s
      then mem_print_loop (i + 1)
             (if mem_index s i \<noteq> 0 then print_str '' '' (print_i32 (mem_index s i) s) else s)
      else s)"
  by pat_completeness auto
termination
proof (relation "measure (\<lambda>(i, s). unat (n_mem_blocks s) - unat i)", goal_cases)
  case (2 i s)
  let ?t = "print_str '' '' (print_i32 (mem_index s i) s)"
  have "output_only s ?t" unfolding print_bytes by (metis emits_only output_only_trans)
  then have "mem_state.truncate ?t = mem_state.truncate s" by (rule output_onlyD)
  then have "n_mem_blocks ?t = n_mem_blocks s" by (simp add: mem_state.truncate_def)
  with 2 show ?case by (auto simp: unat_inc word_less_nat_alt intro!: diff_less_mono2)
qed simp

declare mem_print_loop.simps [simp del]

definition mem_print :: "'a io_state_scheme \<Rightarrow> 'a io_state_scheme" where
  "mem_print s = print_str (line []) (mem_print_loop 0 s)"

definition stop :: "'a io_state_scheme \<Rightarrow> 'a io_state_scheme" where
  "stop s = (console_send s)\<lparr>dev_test := Some 0x5555\<rparr>"

text \<open>The body of \<open>__panic\<close>. The write of \<open>__stop\<close> switches the machine off, so callers of \<open>__panic\<close> do not
  continue: they are modelled as ending in \<open>Panic msg\<close>, and \<open>panic msg\<close> is then applied to the state
  they end in.\<close>

definition panic :: "string \<Rightarrow> 'a io_state_scheme \<Rightarrow> 'a io_state_scheme" where
  "panic msg s =
     (let s = console_send s;
          s = mem_print s;
          s = print_str (line ''KERNEL PANIC!'') s;
          s = print_str msg s
      in stop s)"

text \<open>What the index dump consists of.\<close>

definition index_dump :: "u64 \<Rightarrow> 'a mem_state_scheme \<Rightarrow> u8 list" where
  "index_dump i s = concat (map (\<lambda>j. if mem_index s (of_nat j) = 0 then []
     else decimal (sint (mem_index s (of_nat j))) @ [0x20]) [unat i..<unat (n_mem_blocks s)])"

lemma output_only_index:
  assumes "output_only s t"
  shows "mem_index t = mem_index s" and "n_mem_blocks t = n_mem_blocks s"
  using output_onlyD(2) [OF assms] by (simp_all add: mem_state.truncate_def)

lemma index_dump_cong: "output_only s t \<Longrightarrow> index_dump i t = index_dump i s"
  by (simp only: index_dump_def output_only_index [of s t])

lemma mem_print_loop_dump: "mem_print_loop i s = emits (index_dump i s) s"
proof (induction i s rule: mem_print_loop.induct)
  case (1 i s)
  show ?case
  proof (cases "i < n_mem_blocks s")
    case True
    let ?e = "if mem_index s i = 0 then [] else decimal (sint (mem_index s i)) @ [0x20]"
    have t: "(if mem_index s i \<noteq> 0 then print_str '' '' (print_i32 (mem_index s i) s) else s) = emits ?e s"
      by (simp add: print_bytes)
    have "mem_print_loop i s = mem_print_loop (i + 1) (emits ?e s)"
      using True by (subst mem_print_loop.simps) (simp only: t if_True)
    also have "\<dots> = emits (index_dump (i + 1) (emits ?e s)) (emits ?e s)"
      using "1.IH" [OF True] by (simp only: t)
    also have "index_dump (i + 1) (emits ?e s) = index_dump (i + 1) s"
      by (rule index_dump_cong) simp
    also have "emits (index_dump (i + 1) s) (emits ?e s) = emits (?e @ index_dump (i + 1) s) s"
      by simp
    also have "?e @ index_dump (i + 1) s = index_dump i s"
      using True unat_inc [OF True]
      by (simp add: index_dump_def word_less_nat_alt upt_conv_Cons)
    finally show ?thesis .
  next
    case False
    then show ?thesis
      by (subst mem_print_loop.simps) (simp add: index_dump_def word_less_nat_alt)
  qed
qed

lemma mem_print_dump: "mem_print s = emits (index_dump 0 s @ [0x0A]) s"
  by (simp add: mem_print_def mem_print_loop_dump print_bytes line_def)

section \<open>A device that is ready\<close>

definition ready :: "'a io_state_scheme \<Rightarrow> bool" where
  "ready s \<longleftrightarrow> (\<forall>n \<ge> dev_status_reads s. dev_status s n AND CONSOLE_STATUS_SEND \<noteq> 0)"

lemma console_send_loop_ready:
  assumes "ready s" and "b \<le> console_send_cnt s"
  shows "fst (console_send_loop b s) = console_send_cnt s \<and> ready (snd (console_send_loop b s))"
  using assms
proof (induction b s rule: console_send_loop.induct)
  case (1 b s)
  let ?t = "snd (read_status s)"
  have st: "fst (read_status s) AND CONSOLE_STATUS_SEND \<noteq> 0"
    using "1.prems"(1) by (simp add: ready_def read_status_def)
  show ?case
  proof (cases "b < console_send_cnt s")
    case False
    then have "console_send_loop b s = (b, ?t)"
      by (subst console_send_loop.simps) (auto simp: split_beta read_status_def)
    with "1.prems" False show ?thesis by (auto simp: read_status_def ready_def)
  next
    case True
    let ?u = "write_tx (console_send_buffer ?t (unat b)) ?t"
    have c: "fst (read_status s) AND CONSOLE_STATUS_SEND \<noteq> 0 \<and> b < console_send_cnt ?t"
      using st True by (simp add: read_status_def)
    have e: "console_send_loop b s = console_send_loop (b + 1) ?u"
      using c by (subst console_send_loop.simps) (auto simp: split_beta)
    have "ready ?u" using "1.prems"(1) by (simp add: ready_def read_status_def write_tx_def)
    moreover have "b + 1 \<le> console_send_cnt ?u"
      using True unat_inc [OF True]
      by (simp add: write_tx_def read_status_def word_le_nat_alt word_less_nat_alt)
    ultimately have "fst (console_send_loop (b + 1) ?u) = console_send_cnt ?u \<and> ready (snd (console_send_loop (b + 1) ?u))"
      by (rule "1.IH" [OF refl prod.collapse c])
    then show ?thesis unfolding e by (simp add: write_tx_def read_status_def)
  qed
qed

lemma console_send_ready:
  assumes "ready s"
  shows "console_send_cnt (console_send s) = 0" and "ready (console_send s)"
    and "dev_tx (console_send s) = output_of s"
proof -
  let ?t = "snd (console_send_loop 0 s)"
  have l: "fst (console_send_loop 0 s) = console_send_cnt s" "ready ?t"
    using console_send_loop_ready [OF assms, of 0] by simp_all
  have "console_send_cnt ?t = console_send_cnt s"
    using console_send_loop_result [of 0 s] by auto
  with l show c: "console_send_cnt (console_send s) = 0" and "ready (console_send s)"
    by (simp_all add: console_send_def split_beta Let_def ready_def)
  have "output_of (console_send s) = output_of s" by simp
  with c show "dev_tx (console_send s) = output_of s"
    by (simp add: output_of_def pending_output_def)
qed

lemma emit_ready:
  assumes "ready s" and "console_send_cnt s \<le> 1024"
  shows "output_of (emit c s) = output_of s @ [c]" and "ready (emit c s)"
    and "console_send_cnt (emit c s) \<le> 1024"
proof -
  let ?s = "if console_send_cnt s = 1024 then console_send s else s"
  have r: "ready ?s" "console_send_cnt ?s \<noteq> 1024" using assms console_send_ready [OF assms(1)] by auto
  have e: "putc c s = (0, (console_send ?s)\<lparr>
      console_send_buffer := (console_send_buffer (console_send ?s))(unat (console_send_cnt (console_send ?s)) := c),
      console_send_cnt := console_send_cnt (console_send ?s) + 1\<rparr>)"
    using r(2) by (simp add: putc_def Let_def split: if_splits)
  then show "ready (emit c s)"
    using console_send_ready(2) [OF r(1)] by (simp add: emit_def ready_def)
  have "fst (putc c s) \<noteq> CONSOLE_SEND_BUFFER_FULL"
    unfolding e by (simp add: CONSOLE_SEND_BUFFER_FULL_def)
  then obtain t where "putc c s = (0, t)" "output_of t = output_of s @ [c]" "console_send_cnt t \<le> 1024"
    by - (rule putc_cases [OF assms(2), of c]; simp)
  then show "output_of (emit c s) = output_of s @ [c]" "console_send_cnt (emit c s) \<le> 1024"
    by (simp_all add: emit_def)
qed

lemma emits_ready:
  assumes "ready s" and "console_send_cnt s \<le> 1024"
  shows "output_of (emits cs s) = output_of s @ cs \<and> ready (emits cs s) \<and> console_send_cnt (emits cs s) \<le> 1024"
  using assms by (induction cs arbitrary: s) (simp_all add: emit_ready)

section \<open>Properties\<close>

text \<open>C35. The numbers that the kernel prints agree with reference definitions, for every argument:
  \<open>__print_u64\<close> prints the decimal digits without leading zeros, \<open>__print_i32\<close> the signed decimal
  value, also of the smallest number, whose negation is not representable, and \<open>__print_h64\<close> and
  \<open>__print_h32\<close> the sixteen and eight hexadecimal digits, most significant first.\<close>

theorem print_numbers:
  "print_u64 x s = emits (map digit_char (dec_digits (unat x))) s \<and>
   print_i32 i s = emits (decimal (sint i)) s \<and>
   print_h64 x s = emits (map hex_char (fixed_digits 16 16 (unat x))) s \<and>
   print_h32 y s = emits (map hex_char (fixed_digits 16 8 (unat y))) s"
  by (simp only: print_u64_digits print_i32_decimal print_h64_digits print_h32_digits simp_thms)

text \<open>\<open>__panic\<close> reports before it stops: with a device that is ready to send, everything that was
  still buffered, the non-zero entries of the allocator's index and the message have all reached the
  device when the machine is switched off.\<close>

lemma panic_reports:
  assumes "ready s"
  shows "dev_tx (panic msg s) =
      output_of s @ index_dump 0 s @ [0x0A] @ map of_char (line ''KERNEL PANIC!'') @ map of_char msg
    \<and> dev_test (panic msg s) = Some 0x5555"
proof -
  let ?d = "index_dump 0 s @ [0x0A] @ map of_char (line ''KERNEL PANIC!'') @ map of_char msg"
  have d: "index_dump 0 (console_send s) = index_dump 0 s" by (rule index_dump_cong) simp
  have p: "panic msg s = stop (emits ?d (console_send s))"
    unfolding panic_def Let_def mem_print_dump print_str_emits d by simp
  have "ready (emits ?d (console_send s))" "output_of (emits ?d (console_send s)) = output_of s @ ?d"
    using emits_ready [OF console_send_ready(2) [OF assms], of ?d] console_send_ready(1) [OF assms] by simp_all
  with console_send_ready(3) [OF this(1)] show ?thesis unfolding p stop_def by simp
qed

lemma panic_reports_witness:
  "dev_test (panic ''X'' (stuck_console\<lparr>dev_status := \<lambda>_. 0x20, console_send_cnt := 2\<rparr>)) = Some 0x5555"
  using panic_reports [of "stuck_console\<lparr>dev_status := \<lambda>_. 0x20, console_send_cnt := 2\<rparr>" "''X''"]
  by (simp add: ready_def)

end
