(* ===== verification/Lists.thy ===== *)
theory Lists
  imports Prelude
begin

text \<open>
  The intrusive doubly linked rings of \<open>h/list.h\<close> and \<open>src/list.c\<close>. All list nodes of the kernel live
  in one store from node addresses to \<open>list_t\<close> structures, so that inserting into one ring and another
  structure sharing a node are seen by each other. \<open>ring\<close> relates a store to the sequence of nodes,
  \<open>queue\<close> does so for a ring with a head pointer that is null when the ring is empty.
\<close>

section \<open>Nodes\<close>

record list_t =
  list_next :: u64
  list_prev :: u64

type_synonym nodes = "u64 \<Rightarrow> list_t"

definition set_next :: "u64 \<Rightarrow> u64 \<Rightarrow> nodes \<Rightarrow> nodes" where
  "set_next p q ns = ns(p := (ns p)\<lparr>list_next := q\<rparr>)"

definition set_prev :: "u64 \<Rightarrow> u64 \<Rightarrow> nodes \<Rightarrow> nodes" where
  "set_prev p q ns = ns(p := (ns p)\<lparr>list_prev := q\<rparr>)"

lemma set_next_simps [simp]:
  "list_next (set_next p q ns r) = (if r = p then q else list_next (ns r))"
  "list_prev (set_next p q ns r) = list_prev (ns r)"
  by (simp_all add: set_next_def)

lemma set_prev_simps [simp]:
  "list_prev (set_prev p q ns r) = (if r = p then q else list_prev (ns r))"
  "list_next (set_prev p q ns r) = list_next (ns r)"
  by (simp_all add: set_prev_def)

text \<open>\<open>list_insert\<close> of \<open>src/list.c\<close>: four writes, in this order.\<close>

definition list_insert :: "u64 \<Rightarrow> u64 \<Rightarrow> nodes \<Rightarrow> nodes" where
  "list_insert head new_node ns =
     (let ns = set_prev new_node (list_prev (ns head)) ns;
          ns = set_next new_node head ns;
          ns = set_next (list_prev (ns head)) new_node ns;
          ns = set_prev head new_node ns
      in ns)"

text \<open>The two idioms that the scheduler, the semaphores and the console write out at each place:
  a node linked to itself, and a node taken out of its ring.\<close>

definition self_link :: "u64 \<Rightarrow> nodes \<Rightarrow> nodes" where
  "self_link p ns = set_prev p p (set_next p p ns)"

definition list_unlink :: "u64 \<Rightarrow> nodes \<Rightarrow> nodes" where
  "list_unlink p ns =
     (let ns = set_next (list_prev (ns p)) (list_next (ns p)) ns;
          ns = set_prev (list_next (ns p)) (list_prev (ns p)) ns
      in ns)"

section \<open>Rings\<close>

fun links :: "nodes \<Rightarrow> u64 list \<Rightarrow> bool" where
  "links ns (a # b # xs) = (list_next (ns a) = b \<and> list_prev (ns b) = a \<and> links ns (b # xs))"
| "links ns _ = True"

definition ring :: "nodes \<Rightarrow> u64 list \<Rightarrow> bool" where
  "ring ns xs \<longleftrightarrow> xs \<noteq> [] \<and> distinct xs \<and> links ns (xs @ [hd xs])"

lemma links_snoc_append: "links ns (xs @ a # ys) \<longleftrightarrow> links ns (xs @ [a]) \<and> links ns (a # ys)"
proof (induction xs)
  case (Cons x xs)
  then show ?case by (cases xs) auto
qed simp

lemma links_snoc:
  "links ns (xs @ [n]) \<longleftrightarrow>
     links ns xs \<and> (xs \<noteq> [] \<longrightarrow> list_next (ns (last xs)) = n \<and> list_prev (ns n) = last xs)"
proof (cases xs rule: rev_cases)
  case (snoc ys a)
  then show ?thesis using links_snoc_append [of ns ys a "[n]"] by simp
qed simp

lemma links_cong:
  assumes "\<And>a. a \<in> set (butlast xs) \<Longrightarrow> list_next (ms a) = list_next (ns a)"
    and "\<And>b. b \<in> set (tl xs) \<Longrightarrow> list_prev (ms b) = list_prev (ns b)"
  shows "links ms xs = links ns xs"
  using assms
proof (induction ns xs rule: links.induct)
  case (1 ns a b xs)
  have "links ms (b # xs) = links ns (b # xs)"
    using "1.prems" by (intro "1.IH") (auto dest: list.set_sel(2))
  then show ?case using "1.prems"(1) [of a] "1.prems"(2) [of b] by simp
qed simp_all

lemma ring_cong:
  assumes "\<And>a. a \<in> set xs \<Longrightarrow> ms a = ns a"
  shows "ring ms xs = ring ns xs"
proof -
  have "links ms (xs @ [hd xs]) = links ns (xs @ [hd xs])" if "xs \<noteq> []"
    using that assms by (intro links_cong) (auto simp: tl_append dest: list.set_sel(2) split: list.splits)
  then show ?thesis by (auto simp: ring_def)
qed

lemma ring_rotate:
  assumes "ring ns (xs @ ys)"
  shows "ring ns (ys @ xs)"
proof (cases "xs = [] \<or> ys = []")
  case False
  then obtain x xs' y ys' where s: "xs = x # xs'" "ys = y # ys'" by (meson neq_Nil_conv)
  have l: "links ns ((x # xs') @ y # (ys' @ [x]))" using assms s by (simp add: ring_def)
  have "links ns (x # xs' @ [y])" "links ns ((y # ys') @ [x])"
    using l links_snoc_append [of ns "x # xs'" y "ys' @ [x]"] by simp_all
  then have "links ns ((y # ys') @ x # (xs' @ [y]))"
    using links_snoc_append [of ns "y # ys'" x "xs' @ [y]"] by simp
  then show ?thesis using assms s by (auto simp: ring_def)
qed (use assms in auto)

lemma ring_ends:
  assumes "ring ns xs"
  shows "list_prev (ns (hd xs)) = last xs" and "list_next (ns (last xs)) = hd xs"
proof -
  obtain ys a where xs: "xs = ys @ [a]"
    using assms by (metis ring_def append_butlast_last_id)
  then have "links ns (ys @ a # [hd xs])" using assms by (simp add: ring_def)
  then have "links ns [a, hd xs]" by (subst (asm) links_snoc_append) simp
  then show "list_prev (ns (hd xs)) = last xs" "list_next (ns (last xs)) = hd xs"
    using xs by simp_all
qed

lemma ring_links: "ring ns xs \<Longrightarrow> links ns xs"
proof -
  assume r: "ring ns xs"
  then obtain ys a where xs: "xs = ys @ [a]" by (metis ring_def append_butlast_last_id)
  then have "links ns (ys @ a # [hd xs])" using r by (simp add: ring_def)
  then show "links ns xs" using xs by (subst (asm) links_snoc_append) simp
qed

lemma ringI:
  assumes "xs \<noteq> []" and "distinct xs" and "links ns xs"
    and "list_prev (ns (hd xs)) = last xs" and "list_next (ns (last xs)) = hd xs"
  shows "ring ns xs"
proof -
  obtain ys a where xs: "xs = ys @ [a]" using assms(1) by (metis append_butlast_last_id)
  have "links ns (ys @ a # [hd xs])"
    using assms xs by (subst links_snoc_append) simp
  then show ?thesis using assms xs by (simp add: ring_def)
qed

lemma ring_next:
  assumes "ring ns (xs @ a # b # ys)"
  shows "list_next (ns a) = b" and "list_prev (ns b) = a"
proof -
  have "links ns (xs @ a # (b # ys))" using ring_links [OF assms] by simp
  then have "links ns (a # b # ys)" by (subst (asm) links_snoc_append) simp
  then show "list_next (ns a) = b" "list_prev (ns b) = a" by simp_all
qed

lemma ring_singleton: "ring ns [a] \<longleftrightarrow> list_next (ns a) = a \<and> list_prev (ns a) = a"
  by (auto simp: ring_def)

lemma ring_self_link: "ring (self_link a ns) [a]"
  by (simp add: ring_singleton self_link_def)

section \<open>Insertion and removal\<close>

lemma list_insert_other:
  assumes "p \<noteq> new_node" and "p \<noteq> head" and "p \<noteq> list_prev (ns head)"
  shows "list_insert head new_node ns p = ns p"
  using assms by (auto simp: list_insert_def Let_def set_next_def set_prev_def)

lemma list_insert_links:
  assumes "new_node \<noteq> head"
  shows "list_next (list_insert head new_node ns p) =
      (if p = list_prev (ns head) then new_node else if p = new_node then head else list_next (ns p))"
    and "list_prev (list_insert head new_node ns p) =
      (if p = head then new_node else if p = new_node then list_prev (ns head) else list_prev (ns p))"
  using assms by (auto simp: list_insert_def Let_def)

text \<open>Inserting before the head appends at the end of the ring.\<close>

lemma ring_insert:
  assumes r: "ring ns xs" and n: "n \<notin> set xs"
  shows "ring (list_insert (hd xs) n ns) (xs @ [n])"
proof -
  let ?ms = "list_insert (hd xs) n ns"
  have ne: "xs \<noteq> []" and d: "distinct xs" using r by (simp_all add: ring_def)
  then have nh: "n \<noteq> hd xs" using n hd_in_set by metis
  have ends: "list_prev (ns (hd xs)) = last xs" by (rule ring_ends [OF r])
  note l = list_insert_links [OF nh, of ns, unfolded ends]
  have "links ?ms xs = links ns xs"
  proof (rule links_cong)
    fix a assume a: "a \<in> set (butlast xs)"
    then have "a \<noteq> last xs" using d ne
      by (metis append_butlast_last_id distinct_append disjoint_iff list.set_intros(1))
    then show "list_next (?ms a) = list_next (ns a)" using a n by (auto simp: l dest: in_set_butlastD)
  next
    fix b assume b: "b \<in> set (tl xs)"
    then have "b \<noteq> hd xs" using d ne by (cases xs) auto
    then show "list_prev (?ms b) = list_prev (ns b)" using b n by (auto simp: l dest: list.set_sel(2) [OF ne])
  qed
  then have x: "links ?ms xs" using ring_links [OF r] by simp
  have "n \<noteq> last xs" using n ne last_in_set by metis
  have "links ?ms (xs @ [n])"
    using x nh \<open>n \<noteq> last xs\<close> by (simp add: links_snoc l)
  then show ?thesis
    using d n ne nh \<open>n \<noteq> last xs\<close> by (intro ringI) (simp_all add: l)
qed

text \<open>Inserting before an inner node.\<close>

lemma ring_insert_before:
  assumes r: "ring ns (xs @ y # ys)" and n: "n \<notin> set (xs @ y # ys)"
  shows "ring (list_insert y n ns) (xs @ n # y # ys)"
proof -
  have "ring ns ((y # ys) @ xs)" by (rule ring_rotate) (use r in simp)
  then have "ring (list_insert (hd ((y # ys) @ xs)) n ns) (((y # ys) @ xs) @ [n])"
    by (rule ring_insert) (use n in auto)
  then have "ring (list_insert y n ns) ((y # ys) @ (xs @ [n]))" by simp
  then have "ring (list_insert y n ns) ((xs @ [n]) @ (y # ys))" by (rule ring_rotate)
  then show ?thesis by simp
qed

lemma list_unlink_links:
  assumes "list_prev (ns x) \<noteq> x"
  shows "list_next (list_unlink x ns p) = (if p = list_prev (ns x) then list_next (ns x) else list_next (ns p))"
    and "list_prev (list_unlink x ns p) = (if p = list_next (ns x) then list_prev (ns x) else list_prev (ns p))"
  using assms by (auto simp: list_unlink_def Let_def)

lemma ring_unlink_head:
  assumes r: "ring ns (x # xs)" and ne: "xs \<noteq> []"
  shows "ring (list_unlink x ns) xs"
proof -
  let ?ms = "list_unlink x ns"
  have d: "distinct xs" "x \<notin> set xs" using r by (simp_all add: ring_def)
  have p: "list_prev (ns x) = last xs" using ring_ends(1) [OF r] ne by simp
  have q: "list_next (ns x) = hd xs"
    using ring_next(1) [of ns "[]" x "hd xs" "tl xs"] r ne by simp
  have "last xs \<noteq> x" using d ne last_in_set by metis
  then have l: "list_next (?ms b) = (if b = last xs then hd xs else list_next (ns b))"
    "list_prev (?ms b) = (if b = hd xs then last xs else list_prev (ns b))" for b
    using list_unlink_links [of ns x] p q by simp_all
  have "links ?ms xs = links ns xs"
  proof (rule links_cong)
    fix a assume "a \<in> set (butlast xs)"
    then have "a \<noteq> last xs" using d ne
      by (metis append_butlast_last_id distinct_append disjoint_iff list.set_intros(1))
    then show "list_next (?ms a) = list_next (ns a)" by (simp add: l)
  next
    fix b assume "b \<in> set (tl xs)"
    then have "b \<noteq> hd xs" using d ne by (cases xs) auto
    then show "list_prev (?ms b) = list_prev (ns b)" by (simp add: l)
  qed
  moreover have "links ns xs" using ring_links [OF r] ne by (cases xs) auto
  ultimately show ?thesis using d ne by (intro ringI) (simp_all add: l)
qed

text \<open>Unlinking any node of a ring of at least two.\<close>

lemma ring_unlink:
  assumes r: "ring ns (xs @ x # ys)" and ne: "xs @ ys \<noteq> []"
  shows "ring (list_unlink x ns) (xs @ ys)"
proof -
  have "ring ns ((x # ys) @ xs)" by (rule ring_rotate) (use r in simp)
  then have "ring (list_unlink x ns) (ys @ xs)" using ne by (intro ring_unlink_head) auto
  then show ?thesis by (rule ring_rotate)
qed

text \<open>Neither operation touches a node outside the ring.\<close>

lemma ring_prev_in: "ring ns xs \<Longrightarrow> x \<in> set xs \<Longrightarrow> list_prev (ns x) \<in> set xs"
  and ring_next_in: "ring ns xs \<Longrightarrow> x \<in> set xs \<Longrightarrow> list_next (ns x) \<in> set xs"
proof -
  assume r: "ring ns xs" and x: "x \<in> set xs"
  from x obtain ys zs where xs: "xs = ys @ x # zs" by (meson split_list)
  have rot: "ring ns ((x # zs) @ ys)" by (rule ring_rotate) (use r xs in simp)
  from ring_ends(1) [OF rot] have "list_prev (ns x) \<in> set ((x # zs) @ ys)"
    using last_in_set [of "(x # zs) @ ys"] by simp
  then show "list_prev (ns x) \<in> set xs" using xs by auto
  have rot': "ring ns ((zs @ ys) @ [x])" by (rule ring_rotate [of ns "[x]"]) (use rot in simp)
  from ring_ends(2) [OF rot'] have "list_next (ns x) \<in> set ((zs @ ys) @ [x])"
    using hd_in_set [of "(zs @ ys) @ [x]"] by simp
  then show "list_next (ns x) \<in> set xs" using xs by auto
qed

lemma ring_insert_frame:
  assumes "ring ns xs" and "y \<in> set xs" and "p \<notin> set xs" and "p \<noteq> n"
  shows "list_insert y n ns p = ns p"
  using assms ring_prev_in [OF assms(1,2)] by (intro list_insert_other) auto

lemma ring_unlink_frame:
  assumes "ring ns xs" and "x \<in> set xs" and "p \<notin> set xs"
  shows "list_unlink x ns p = ns p"
proof -
  have "list_prev (ns x) \<in> set xs" "list_next (ns x) \<in> set xs"
    using ring_prev_in ring_next_in assms(1,2) by auto
  with assms(3) have "p \<noteq> list_prev (ns x)" "p \<noteq> list_next (ns x)" "p \<noteq> x" using assms(2) by auto
  then show ?thesis
    by (auto simp: list_unlink_def Let_def set_next_def set_prev_def)
qed

section \<open>Queues: a ring and its head pointer\<close>

definition queue :: "nodes \<Rightarrow> u64 \<Rightarrow> u64 list \<Rightarrow> bool" where
  "queue ns head xs \<longleftrightarrow>
     (if xs = [] then head = 0 else ring ns xs \<and> head = hd xs \<and> 0 \<notin> set xs)"

text \<open>What \<open>__scheduler_push\<close>, \<open>__sem_push\<close> and \<open>__waiting_push\<close> do with their head pointer and the node,
  and what \<open>__scheduler_next\<close>, \<open>__sem_next\<close> and \<open>__waiting_pop\<close> do once the ring is not empty. Both return
  the new head pointer.\<close>

definition ring_push :: "u64 \<Rightarrow> u64 \<Rightarrow> nodes \<Rightarrow> u64 \<times> nodes" where
  "ring_push head p ns =
     (if head = 0 then (p, self_link p ns) else (head, list_insert head p ns))"

definition ring_pop :: "u64 \<Rightarrow> nodes \<Rightarrow> u64 \<times> nodes" where
  "ring_pop head ns =
     (if list_next (ns head) = head then (0, ns)
      else (let ns = list_unlink head ns in (list_next (ns head), ns)))"

lemma queue_empty [simp]: "queue ns head [] \<longleftrightarrow> head = 0"
  by (simp add: queue_def)

lemma queue_Cons:
  "queue ns head (x # xs) \<longleftrightarrow> ring ns (x # xs) \<and> head = x \<and> 0 \<notin> set (x # xs)"
  by (simp add: queue_def)

lemma queue_distinct: "queue ns head xs \<Longrightarrow> distinct xs"
  by (auto simp: queue_def ring_def split: if_splits)

lemma queue_null: "queue ns head xs \<Longrightarrow> head = 0 \<longleftrightarrow> xs = []"
  by (auto simp: queue_def split: if_splits) (metis hd_in_set)

lemma queue_cong:
  assumes "\<And>a. a \<in> set xs \<Longrightarrow> ms a = ns a"
  shows "queue ms head xs = queue ns head xs"
  using ring_cong [OF assms] by (auto simp: queue_def)

lemma queue_push:
  assumes q: "queue ns head xs" and p: "p \<notin> set xs" "p \<noteq> 0"
  shows "queue (snd (ring_push head p ns)) (fst (ring_push head p ns)) (xs @ [p])"
proof (cases "xs = []")
  case True
  with q p show ?thesis by (simp add: queue_def ring_push_def ring_self_link)
next
  case False
  with q have "ring ns xs" "head = hd xs" "0 \<notin> set xs" "head \<noteq> 0"
    by (auto simp: queue_def) (metis hd_in_set)
  with ring_insert [of ns xs p] p False show ?thesis by (simp add: queue_def ring_push_def)
qed

lemma queue_pop:
  assumes q: "queue ns head (x # xs)"
  shows "head = x" and "queue (snd (ring_pop head ns)) (fst (ring_pop head ns)) xs"
proof -
  from q have r: "ring ns (x # xs)" and h: "head = x" and nz: "0 \<notin> set (x # xs)"
    by (simp_all add: queue_Cons)
  show "head = x" by (rule h)
  show "queue (snd (ring_pop head ns)) (fst (ring_pop head ns)) xs"
  proof (cases xs)
    case Nil
    with r h show ?thesis by (simp add: ring_pop_def ring_singleton)
  next
    case (Cons y ys)
    have nx: "list_next (ns x) = y" using ring_next(1) [of ns "[]" x y ys] r Cons by simp
    have d: "x \<noteq> y" using r Cons by (simp add: ring_def)
    have "list_prev (ns x) \<noteq> x" using ring_ends(1) [OF r] r Cons last_in_set [of xs]
      by (auto simp: ring_def)
    then have "list_next (list_unlink x ns x) = y" using nx by (simp add: list_unlink_links)
    with ring_unlink_head [OF r] nx d h nz Cons show ?thesis
      by (simp add: ring_pop_def queue_def Let_def)
  qed
qed

lemma ring_push_frame:
  assumes "queue ns head xs" and "q \<notin> set xs" and "q \<noteq> p"
  shows "snd (ring_push head p ns) q = ns q"
proof (cases "xs = []")
  case True
  with assms show ?thesis by (simp add: ring_push_def self_link_def set_next_def set_prev_def)
next
  case False
  with assms have "ring ns xs" "head \<in> set xs" by (auto simp: queue_def)
  from ring_insert_frame [OF this assms(2,3)] assms(3) show ?thesis
    by (auto simp: ring_push_def self_link_def set_next_def set_prev_def)
qed

lemma ring_pop_frame:
  assumes "queue ns head xs" and "xs \<noteq> []" and "q \<notin> set xs"
  shows "snd (ring_pop head ns) q = ns q"
proof -
  have "ring ns xs" "head \<in> set xs" using assms(1,2) by (auto simp: queue_def)
  from ring_unlink_frame [OF this assms(3)] show ?thesis by (simp add: ring_pop_def Let_def)
qed

section \<open>The interface of a queue of threads\<close>

text \<open>The list node of a thread lies 40 bytes into its structure; \<open>container_of\<close> goes back from the node
  to the thread.\<close>

definition thread_node :: "u64 \<Rightarrow> u64" where
  "thread_node t = t + 40"

definition node_thread :: "u64 \<Rightarrow> u64" where
  "node_thread p = p - 40"

lemma node_thread_node [simp]: "node_thread (thread_node t) = t"
  and thread_node_thread [simp]: "thread_node (node_thread p) = p"
  by (simp_all add: thread_node_def node_thread_def)

lemma thread_node_eq [simp]: "thread_node t = thread_node u \<longleftrightarrow> t = u"
  by (simp add: thread_node_def)

lemma inj_thread_node: "inj thread_node"
  by (simp add: inj_def)

lemma thread_node_mem [simp]: "thread_node t \<in> thread_node ` A \<longleftrightarrow> t \<in> A"
  by (rule inj_image_mem_iff [OF inj_thread_node])

definition thread_queue_at :: "nodes \<Rightarrow> u64 \<Rightarrow> u64 list \<Rightarrow> bool" where
  "thread_queue_at ns head ts \<longleftrightarrow> queue ns head (map thread_node ts)"

lemma thread_queue_distinct: "thread_queue_at ns head ts \<Longrightarrow> distinct ts"
  by (auto simp: thread_queue_at_def distinct_map dest: queue_distinct)

lemma thread_queue_push:
  assumes "thread_queue_at ns head ts" and "t \<notin> set ts" and "thread_node t \<noteq> 0"
  shows "thread_queue_at (snd (ring_push head (thread_node t) ns))
    (fst (ring_push head (thread_node t) ns)) (ts @ [t])"
  using queue_push [of ns head "map thread_node ts" "thread_node t"] assms
  by (simp add: thread_queue_at_def image_iff)

lemma thread_queue_pop:
  assumes "thread_queue_at ns head (t # ts)"
  shows "node_thread head = t" and "thread_queue_at (snd (ring_pop head ns)) (fst (ring_pop head ns)) ts"
  using queue_pop [of ns head "thread_node t" "map thread_node ts"] assms
  by (simp_all add: thread_queue_at_def)

text \<open>
  \<open>thread_queue\<close> is the contract shared by the ready queue, the waiting queue of a semaphore and the
  queue of threads waiting for input: a first-in first-out queue without repetitions. \<open>holds s ts\<close>
  says that the queue of state \<open>s\<close> is the list \<open>ts\<close>, first to leave first.
\<close>

fun pop_many :: "('s \<Rightarrow> u64 \<times> 's) \<Rightarrow> nat \<Rightarrow> 's \<Rightarrow> u64 list \<times> 's" where
  "pop_many pop 0 s = ([], s)"
| "pop_many pop (Suc n) s =
     (let (t, s) = pop s; (ts, s) = pop_many pop n s in (t # ts, s))"

locale thread_queue =
  fixes push :: "u64 \<Rightarrow> 's \<Rightarrow> 's"
    and pop :: "'s \<Rightarrow> u64 \<times> 's"
    and holds :: "'s \<Rightarrow> u64 list \<Rightarrow> bool"
  assumes push_last: "holds s ts \<Longrightarrow> t \<notin> set ts \<Longrightarrow> thread_node t \<noteq> 0 \<Longrightarrow> holds (push t s) (ts @ [t])"
    and pop_first: "holds s (t # ts) \<Longrightarrow> \<exists>u. pop s = (t, u) \<and> holds u ts"
    and held_distinct: "holds s ts \<Longrightarrow> distinct ts"
    and held_valid: "holds s ts \<Longrightarrow> t \<in> set ts \<Longrightarrow> thread_node t \<noteq> 0"
begin

lemma push_all:
  assumes "holds s ts" and "distinct (ts @ us)" and "\<forall>u \<in> set us. thread_node u \<noteq> 0"
  shows "holds (fold push us s) (ts @ us)"
  using assms
proof (induction us arbitrary: s ts)
  case (Cons u us)
  then have "holds (push u s) (ts @ [u])" by (intro push_last) auto
  from Cons.IH [OF this] Cons.prems show ?case by simp
qed simp

lemma pop_all:
  assumes "holds s (ts @ us)"
  obtains u where "pop_many pop (length ts) s = (ts, u)" and "holds u us"
  using assms
proof (induction ts arbitrary: s thesis)
  case (Cons t ts)
  obtain v where v: "pop s = (t, v)" "holds v (ts @ us)"
    using pop_first [of s t "ts @ us"] Cons.prems(2) by auto
  show ?case
    by (rule Cons.IH [OF _ v(2)], rule Cons.prems(1)) (simp_all add: v(1))
qed simp

text \<open>Threads leave in the order in which they came.\<close>

lemma fifo:
  assumes "holds s ts" and "distinct (ts @ us)" and "\<forall>u \<in> set us. thread_node u \<noteq> 0"
  obtains v where "pop_many pop (length ts + length us) (fold push us s) = (ts @ us, v)" and "holds v []"
proof -
  have "holds (fold push us s) ((ts @ us) @ [])" using push_all [OF assms] by simp
  then show thesis by (rule pop_all) (use that in simp)
qed

text \<open>Taking the first thread and putting it back rotates the queue.\<close>

lemma rotate:
  assumes "holds s (t # ts)"
  obtains u where "pop s = (t, u)" and "holds (push t u) (ts @ [t])"
proof -
  obtain u where u: "pop s = (t, u)" "holds u ts" using pop_first [OF assms] by blast
  have "t \<notin> set ts" "thread_node t \<noteq> 0"
    using held_distinct [OF assms] held_valid [OF assms] by simp_all
  with u show thesis by (intro that push_last)
qed

end

end
