(* ===== verification/Mem_Layout.thy ===== *)
theory Mem_Layout
  imports Mem
begin

text \<open>
  The abstract view of the allocator: the index describes a list of runs, each an integer whose
  absolute value is its size in blocks and whose sign says whether it is allocated. First fit and
  release with coalescing are functions on such lists; \<open>mem_rep\<close> relates a list to the words.
\<close>

section \<open>Cells and runs\<close>

definition cell :: "'a mem_state_scheme \<Rightarrow> int \<Rightarrow> int" where
  "cell s j = sint (mem_index s (word_of_int j))"

lemma cell_uint: "cell s (uint w) = sint (mem_index s w)"
  by (simp add: cell_def)

lemma cell_set_index [simp]:
  assumes "0 \<le> j" and "j < 18446744073709551616"
  shows "cell (set_index i v s) j = (if j = uint i then sint v else cell s j)"
proof -
  have "(word_of_int j :: u64) = i \<longleftrightarrow> j = uint i"
    using assms uint_word_of_int [of j, where 'a = 64] by (auto simp: mod_pos_pos_trivial)
  then show ?thesis by (auto simp: cell_def set_index_def)
qed

lemma set_index_frame [simp]:
  "n_mem_blocks (set_index i v s) = n_mem_blocks s"
  "mem_index_len_in_blocks (set_index i v s) = mem_index_len_in_blocks s"
  "HEAP_START_ADDR (set_index i v s) = HEAP_START_ADDR s"
  "HEAP_END_ADDR (set_index i v s) = HEAP_END_ADDR s"
  "mem_state.more (set_index i v s) = mem_state.more s"
  by (simp_all add: set_index_def)

definition extent :: "int list \<Rightarrow> int" where
  "extent rs = sum_list (map abs rs)"

lemma extent_simps [simp]:
  "extent [] = 0" "extent (r # rs) = \<bar>r\<bar> + extent rs" "extent (rs @ qs) = extent rs + extent qs"
  by (simp_all add: extent_def)

lemma extent_nonneg: "0 \<le> extent rs"
  by (induction rs) simp_all

text \<open>\<open>run_at c i r\<close>: the cells of a run \<open>r\<close> that starts at block \<open>i\<close>.\<close>

definition run_at :: "(int \<Rightarrow> int) \<Rightarrow> int \<Rightarrow> int \<Rightarrow> bool" where
  "run_at c i r \<longleftrightarrow> r \<noteq> 0 \<and> c i = r \<and> c (i + \<bar>r\<bar> - 1) = r \<and>
     (\<forall>j \<in> {i<..<i + \<bar>r\<bar> - 1}. c j = 0)"

fun layout :: "(int \<Rightarrow> int) \<Rightarrow> int \<Rightarrow> int list \<Rightarrow> bool" where
  "layout c i [] = True"
| "layout c i (r # rs) = (run_at c i r \<and> layout c (i + \<bar>r\<bar>) rs)"

lemma layout_append [simp]:
  "layout c i (rs @ qs) \<longleftrightarrow> layout c i rs \<and> layout c (i + extent rs) qs"
  by (induction rs arbitrary: i) (simp_all add: add.assoc)

lemma run_at_cong:
  assumes "run_at c i r" and "\<And>j. i \<le> j \<Longrightarrow> j < i + \<bar>r\<bar> \<Longrightarrow> d j = c j"
  shows "run_at d i r"
  using assms unfolding run_at_def by auto

lemma layout_cong:
  assumes "layout c i rs" and "\<And>j. i \<le> j \<Longrightarrow> j < i + extent rs \<Longrightarrow> d j = c j"
  shows "layout d i rs"
  using assms
proof (induction rs arbitrary: i)
  case (Cons r rs)
  have "run_at d i r"
  proof (rule run_at_cong)
    show "run_at c i r" using Cons.prems(1) by simp
  next
    fix j assume "i \<le> j" "j < i + \<bar>r\<bar>"
    then show "d j = c j"
      using Cons.prems(2) [of j] extent_nonneg [of rs] by simp
  qed
  moreover have "layout d (i + \<bar>r\<bar>) rs"
    using Cons.prems by (intro Cons.IH) auto
  ultimately show ?case by simp
qed simp

lemma run_at_nonzero: "run_at c i r \<Longrightarrow> r \<noteq> 0"
  by (simp add: run_at_def)

lemma layout_nonzero: "layout c i rs \<Longrightarrow> r \<in> set rs \<Longrightarrow> r \<noteq> 0"
  by (induction rs arbitrary: i) (auto dest: run_at_nonzero)

lemma extent_eq_0: "layout c i rs \<Longrightarrow> extent rs = 0 \<longleftrightarrow> rs = []"
proof (cases rs)
  case (Cons r qs)
  assume "layout c i rs"
  with Cons have "r \<noteq> 0" by (auto dest: run_at_nonzero)
  then have "0 < \<bar>r\<bar> + extent qs" using extent_nonneg [of qs] by linarith
  with Cons show ?thesis by simp
qed simp

text \<open>No two neighbouring runs are free.\<close>

fun coalesced :: "int list \<Rightarrow> bool" where
  "coalesced (r # q # rs) = (\<not> (r < 0 \<and> q < 0) \<and> coalesced (q # rs))"
| "coalesced _ = True"

lemma coalesced_append:
  "coalesced (rs @ qs) \<longleftrightarrow>
     coalesced rs \<and> coalesced qs \<and> (rs = [] \<or> qs = [] \<or> \<not> (last rs < 0 \<and> hd qs < 0))"
  by (induction rs rule: coalesced.induct) (cases qs; auto)+

lemma coalesced_Cons: "coalesced (r # rs) \<longleftrightarrow> coalesced rs \<and> (rs = [] \<or> \<not> (r < 0 \<and> hd rs < 0))"
  by (cases rs) auto

section \<open>The representation relation\<close>

definition heap_shape :: "'a mem_state_scheme \<Rightarrow> bool" where
  "heap_shape s \<longleftrightarrow> 0 < uint (n_mem_blocks s) \<and> uint (n_mem_blocks s) < 2147483648 \<and> 0 < uint (HEAP_START_ADDR s) \<and>
     uint (HEAP_START_ADDR s) + 64 * uint (n_mem_blocks s) \<le> uint (HEAP_END_ADDR s) \<and>
     uint (HEAP_END_ADDR s) < uint (HEAP_START_ADDR s) + 64 * uint (n_mem_blocks s) + 64"

definition mem_lay :: "'a mem_state_scheme \<Rightarrow> int list \<Rightarrow> bool" where
  "mem_lay s rs \<longleftrightarrow> heap_shape s \<and> layout (cell s) 0 rs \<and> extent rs = uint (n_mem_blocks s)"

definition mem_rep :: "'a mem_state_scheme \<Rightarrow> int list \<Rightarrow> bool" where
  "mem_rep s rs \<longleftrightarrow> mem_lay s rs \<and> coalesced rs"

lemma mem_rep_lay: "mem_rep s rs \<Longrightarrow> mem_lay s rs"
  and mem_rep_coalesced: "mem_rep s rs \<Longrightarrow> coalesced rs"
  by (simp_all add: mem_rep_def)

text \<open>The address of block \<open>j\<close>.\<close>

definition block_addr :: "'a mem_state_scheme \<Rightarrow> int \<Rightarrow> u64" where
  "block_addr s j = HEAP_START_ADDR s + word_of_int j * MEM_BLOCK_SIZE"

lemma uint_block_addr:
  assumes "heap_shape s" and "0 \<le> j" and "j \<le> uint (n_mem_blocks s)"
  shows "uint (block_addr s j) = uint (HEAP_START_ADDR s) + 64 * j"
proof -
  have b: "uint (HEAP_START_ADDR s) + 64 * j < 18446744073709551616"
    using assms uint_u64_bounds [of "HEAP_END_ADDR s"] unfolding heap_shape_def by linarith
  have "uint (HEAP_START_ADDR s) \<ge> 0" by simp
  with b assms(2) have j: "j * 64 < 18446744073709551616" by linarith
  have "(word_of_int j * MEM_BLOCK_SIZE :: u64) = word_of_int j * word_of_int 64"
    by simp
  also have "\<dots> = word_of_int (j * 64)" by (rule wi_hom_mult)
  finally have "uint (word_of_int j * MEM_BLOCK_SIZE :: u64) = (j * 64) mod 2 ^ 64"
    by (simp only: uint_word_of_int len_of_numeral_defs) simp
  also have "\<dots> = j * 64" using j assms(2) by (intro mod_pos_pos_trivial) simp_all
  finally have "uint (word_of_int j * MEM_BLOCK_SIZE :: u64) = j * 64" .
  then show ?thesis
    unfolding block_addr_def using b by (subst uint_add_bounded) simp_all
qed

lemma uint_of_block:
  assumes "0 \<le> j" and "j < 18446744073709551616"
  shows "uint (word_of_int j :: u64) = j"
  using assms by (simp add: uint_word_of_int mod_pos_pos_trivial)

section \<open>First fit and release on lists of runs\<close>

fun first_fit :: "int \<Rightarrow> int \<Rightarrow> int list \<Rightarrow> (int \<times> int list) option" where
  "first_fit k i [] = None"
| "first_fit k i (r # rs) =
     (if r < 0 \<and> k < - r then Some (i, k # (r + k) # rs)
      else if r < 0 \<and> k = - r then Some (i, k # rs)
      else map_option (\<lambda>(j, qs). (j, r # qs)) (first_fit k (i + \<bar>r\<bar>) rs))"

definition release :: "int list \<Rightarrow> int \<Rightarrow> int list \<Rightarrow> int list" where
  "release ps r qs =
     (let (ps, a) = (if ps \<noteq> [] \<and> last ps < 0 then (butlast ps, - last ps) else (ps, 0));
          (b, qs) = (if qs \<noteq> [] \<and> hd qs < 0 then (- hd qs, tl qs) else (0, qs))
      in ps @ (- (a + r + b)) # qs)"

end
