(* ===== verification/Mem_Correct.thy ===== *)
theory Mem_Correct
  imports Mem_Layout
begin

text \<open>
  The allocator of \<open>src/mem.c\<close> implements first fit and release with coalescing on lists of runs.
\<close>

section \<open>Replacing runs\<close>

lemma layout_replace:
  assumes l: "layout c i (ps @ old @ qs)"
    and e: "extent new = extent old"
    and n: "layout d (i + extent ps) new"
    and same: "\<And>j. i \<le> j \<Longrightarrow> j < i + extent (ps @ old @ qs) \<Longrightarrow>
      j < i + extent ps \<or> i + extent ps + extent old \<le> j \<Longrightarrow> d j = c j"
  shows "layout d i (ps @ new @ qs)"
proof -
  note nn = extent_nonneg [of ps] extent_nonneg [of old] extent_nonneg [of qs]
  have "layout d i ps"
  proof (rule layout_cong)
    show "layout c i ps" using l by simp
    show "d j = c j" if "i \<le> j" "j < i + extent ps" for j
      using that nn by (intro same) simp_all
  qed
  moreover have "layout d (i + extent ps + extent old) qs"
  proof (rule layout_cong)
    show "layout c (i + extent ps + extent old) qs" using l by (simp add: add.assoc)
    show "d j = c j" if "i + extent ps + extent old \<le> j" "j < i + extent ps + extent old + extent qs" for j
      using that nn by (intro same) simp_all
  qed
  ultimately show ?thesis using n e by simp
qed

definition same_heap :: "'a mem_state_scheme \<Rightarrow> 'a mem_state_scheme \<Rightarrow> bool" where
  "same_heap s t \<longleftrightarrow> (\<exists>ix. t = s\<lparr>mem_index := ix\<rparr>)"

lemma same_heap_refl [simp]: "same_heap s s"
  unfolding same_heap_def by (rule exI [of _ "mem_index s"]) simp

lemma same_heap_trans: "same_heap s t \<Longrightarrow> same_heap t u \<Longrightarrow> same_heap s u"
  by (auto simp: same_heap_def)

lemma same_heap_set_index [simp]: "same_heap s (set_index i v t) \<longleftrightarrow> same_heap s t"
proof
  assume "same_heap s (set_index i v t)"
  then obtain ix where "set_index i v t = s\<lparr>mem_index := ix\<rparr>" by (auto simp: same_heap_def)
  then have "(set_index i v t)\<lparr>mem_index := mem_index t\<rparr> = s\<lparr>mem_index := ix\<rparr>\<lparr>mem_index := mem_index t\<rparr>"
    by simp
  then have "t = s\<lparr>mem_index := mem_index t\<rparr>" by (simp add: set_index_def)
  then show "same_heap s t" unfolding same_heap_def by blast
qed (auto simp: same_heap_def set_index_def)

lemma same_heap_fields:
  assumes "same_heap s t"
  shows "n_mem_blocks t = n_mem_blocks s" "HEAP_START_ADDR t = HEAP_START_ADDR s"
    "HEAP_END_ADDR t = HEAP_END_ADDR s" "mem_state.more t = mem_state.more s"
    "mem_index_len_in_blocks t = mem_index_len_in_blocks s"
  using assms by (auto simp: same_heap_def)

lemma same_heap_shape: "same_heap s t \<Longrightarrow> heap_shape t \<longleftrightarrow> heap_shape s"
  by (simp add: heap_shape_def same_heap_fields)

lemma same_heap_block_addr: "same_heap s t \<Longrightarrow> block_addr t j = block_addr s j"
  by (simp add: block_addr_def same_heap_fields)

lemma mem_lay_replace:
  assumes r: "mem_lay s (ps @ old @ qs)" and t: "same_heap s t"
    and e: "extent new = extent old"
    and n: "layout (cell t) (extent ps) new"
    and same: "\<And>j. 0 \<le> j \<Longrightarrow> j < uint (n_mem_blocks s) \<Longrightarrow>
      j < extent ps \<or> extent ps + extent old \<le> j \<Longrightarrow> cell t j = cell s j"
  shows "mem_lay t (ps @ new @ qs)"
proof -
  from r have l: "layout (cell s) 0 (ps @ old @ qs)" and x: "extent (ps @ old @ qs) = uint (n_mem_blocks s)"
    by (simp_all add: mem_lay_def)
  have "layout (cell t) 0 (ps @ new @ qs)"
    by (rule layout_replace [OF l e]) (use n x in \<open>auto intro: same\<close>)
  then show ?thesis
    using r t e by (simp add: mem_lay_def same_heap_shape same_heap_fields)
qed

lemma mem_rep_replace:
  assumes "mem_rep s (ps @ old @ qs)" and "same_heap s t"
    and "extent new = extent old"
    and "layout (cell t) (extent ps) new"
    and "\<And>j. 0 \<le> j \<Longrightarrow> j < uint (n_mem_blocks s) \<Longrightarrow>
      j < extent ps \<or> extent ps + extent old \<le> j \<Longrightarrow> cell t j = cell s j"
    and "coalesced (ps @ new @ qs)"
  shows "mem_rep t (ps @ new @ qs)"
  using mem_lay_replace [OF mem_rep_lay [OF assms(1)] assms(2-5)] assms(6) by (simp add: mem_rep_def)

lemma mem_lay_bounds:
  assumes "mem_lay s (ps @ r # qs)"
  shows "0 \<le> extent ps" "extent ps + \<bar>r\<bar> \<le> uint (n_mem_blocks s)"
    "uint (n_mem_blocks s) < 2147483648" "r \<noteq> 0"
proof -
  have "extent ps + (\<bar>r\<bar> + extent qs) = uint (n_mem_blocks s)"
    using assms by (simp add: mem_lay_def)
  then show "extent ps + \<bar>r\<bar> \<le> uint (n_mem_blocks s)" using extent_nonneg [of qs] by linarith
  show "uint (n_mem_blocks s) < 2147483648" using assms by (simp add: mem_lay_def heap_shape_def)
  show "r \<noteq> 0" using assms by (auto simp: mem_lay_def dest: run_at_nonzero)
qed (rule extent_nonneg)

lemma mem_lay_run:
  assumes "mem_lay s (ps @ r # qs)"
  shows "run_at (cell s) (extent ps) r"
  using assms by (simp add: mem_lay_def)

lemmas mem_rep_bounds = mem_lay_bounds [OF mem_rep_lay]
lemmas mem_rep_run = mem_lay_run [OF mem_rep_lay]

section \<open>The writes of an allocation\<close>

lemma carve_rep:
  assumes r: "mem_rep s (ps @ r # qs)" and neg: "r < 0"
    and i: "uint i = extent ps" and f: "uint f = - r" and k: "0 < uint k" "uint k < - r"
  shows "mem_rep (carve i f k s) (ps @ uint k # (r + uint k) # qs)"
    and "same_heap s (carve i f k s)"
    and "cell (carve i f k s) (uint (n_mem_blocks s)) = cell s (uint (n_mem_blocks s))"
proof -
  note b = mem_rep_bounds [OF r]
  let ?e = "extent ps" and ?t = "carve i f k s"
  have ar: "\<bar>r\<bar> = - r" using neg by simp
  have 1: "uint (i + f - 1) = ?e - r - 1" "uint (i + k) = ?e + uint k"
    "uint (i + k - 1) = ?e + uint k - 1"
    using b neg i f k by (simp_all add: word_ints)
  have 2: "uint (f - k) = - r - uint k" using f k by (simp add: word_ints)
  have 3: "sint (u64_to_i32 (- (f - k))) = r + uint k" "sint (u64_to_i32 k) = uint k"
    using 2 b k ar by (simp_all add: sint_trunc_minus_u64 sint_trunc_u64 del: minus_diff_eq)
  have cells: "cell ?t j = (if j = ?e \<or> j = ?e + uint k - 1 then uint k
      else if j = ?e + uint k \<or> j = ?e - r - 1 then r + uint k else cell s j)"
    if "0 \<le> j" "j < 18446744073709551616" for j
    using that 1 3 i by (simp add: carve_def Let_def del: minus_diff_eq)
  show sh: "same_heap s ?t" by (simp add: carve_def Let_def)
  show "cell ?t (uint (n_mem_blocks s)) = cell s (uint (n_mem_blocks s))"
    using b k ar by (subst cells) auto
  have run: "run_at (cell s) ?e r" by (rule mem_rep_run [OF r])
  have "mem_rep ?t (ps @ [uint k, r + uint k] @ qs)"
  proof (rule mem_rep_replace [of s ps "[r]" qs])
    show "layout (cell ?t) ?e [uint k, r + uint k]"
      using run b k ar by (auto simp: run_at_def cells)
    show "coalesced (ps @ [uint k, r + uint k] @ qs)"
      using r neg k by (auto dest!: mem_rep_coalesced simp: coalesced_append coalesced_Cons)
    show "cell ?t j = cell s j"
      if "0 \<le> j" "j < uint (n_mem_blocks s)" "j < ?e \<or> ?e + extent [r] \<le> j" for j
      using that b k ar by (subst cells) auto
  qed (use r sh neg k in \<open>simp_all\<close>)
  then show "mem_rep ?t (ps @ uint k # (r + uint k) # qs)" by simp
qed

lemma take_whole_rep:
  assumes r: "mem_rep s (ps @ r # qs)" and neg: "r < 0"
    and i: "uint i = extent ps" and k: "uint k = - r"
  shows "mem_rep (take_whole i k s) (ps @ uint k # qs)"
    and "same_heap s (take_whole i k s)"
    and "cell (take_whole i k s) (uint (n_mem_blocks s)) = cell s (uint (n_mem_blocks s))"
proof -
  note b = mem_rep_bounds [OF r]
  let ?e = "extent ps" and ?t = "take_whole i k s"
  have ar: "\<bar>r\<bar> = - r" using neg by simp
  have 1: "uint (i + k - 1) = ?e - r - 1" "sint (u64_to_i32 k) = - r"
    using b neg i k by (simp_all add: word_ints)
  have cells: "cell ?t j = (if j = ?e \<or> j = ?e - r - 1 then - r else cell s j)"
    if "0 \<le> j" "j < 18446744073709551616" for j
    using that 1 i by (simp add: take_whole_def Let_def)
  show sh: "same_heap s ?t" by (simp add: take_whole_def Let_def)
  show "cell ?t (uint (n_mem_blocks s)) = cell s (uint (n_mem_blocks s))"
    using b k ar by (subst cells) auto
  have run: "run_at (cell s) ?e r" by (rule mem_rep_run [OF r])
  have "mem_rep ?t (ps @ [- r] @ qs)"
  proof (rule mem_rep_replace [of s ps "[r]" qs])
    show "layout (cell ?t) ?e [- r]"
      using run b k ar by (auto simp: run_at_def cells)
    show "coalesced (ps @ [- r] @ qs)"
      using r neg k by (auto dest!: mem_rep_coalesced simp: coalesced_append coalesced_Cons)
    show "cell ?t j = cell s j"
      if "0 \<le> j" "j < uint (n_mem_blocks s)" "j < ?e \<or> ?e + extent [r] \<le> j" for j
      using that b k ar by (subst cells) auto
  qed (use r sh neg k in \<open>simp_all\<close>)
  then show "mem_rep ?t (ps @ uint k # qs)" using k by simp
qed

section \<open>The writes of a release\<close>

lemma free_alone_lay:
  assumes r: "mem_lay s (ps @ r # qs)" and pos: "0 < r"
    and i: "uint e = extent ps" and sz: "sint sz = r"
  shows "mem_lay (free_alone e sz s) (ps @ - r # qs)"
    and "same_heap s (free_alone e sz s)"
    and "cell (free_alone e sz s) (uint (n_mem_blocks s)) = cell s (uint (n_mem_blocks s))"
proof -
  note b = mem_lay_bounds [OF r]
  let ?e = "extent ps" and ?t = "free_alone e sz s"
  have 1: "uint (e + i32_to_u64 sz - 1) = ?e + r - 1" "sint (- sz) = - r"
    using b pos i sz by (simp_all add: word_ints)
  have cells: "cell ?t j = (if j = ?e \<or> j = ?e + r - 1 then - r else cell s j)"
    if "0 \<le> j" "j < 18446744073709551616" for j
    using that 1 i by (simp add: free_alone_def Let_def)
  show sh: "same_heap s ?t" by (simp add: free_alone_def Let_def)
  show "cell ?t (uint (n_mem_blocks s)) = cell s (uint (n_mem_blocks s))"
    using b pos by (subst cells) auto
  have run: "run_at (cell s) ?e r" by (rule mem_lay_run [OF r])
  have "mem_lay ?t (ps @ [- r] @ qs)"
  proof (rule mem_lay_replace [of s ps "[r]" qs])
    show "layout (cell ?t) ?e [- r]"
      using run b pos by (auto simp: run_at_def cells)
    show "cell ?t j = cell s j"
      if "0 \<le> j" "j < uint (n_mem_blocks s)" "j < ?e \<or> ?e + extent [r] \<le> j" for j
      using that b pos by (subst cells) auto
  qed (use r sh pos in \<open>simp_all\<close>)
  then show "mem_lay ?t (ps @ - r # qs)" by simp
qed

text \<open>Two neighbouring runs become one free run when its ends are written and the two cells at the
  old border are cleared.\<close>

lemma run_at_joined:
  assumes x: "run_at c i x" and y: "run_at c (i + m) y" and m: "\<bar>x\<bar> = m" and l: "\<bar>y\<bar> = l"
    and d: "\<And>j. i \<le> j \<Longrightarrow> j < i + m + l \<Longrightarrow>
      d j = (if j = i \<or> j = i + m + l - 1 then - (m + l)
             else if j = i + m - 1 \<or> j = i + m then 0 else c j)"
  shows "run_at d i (- (m + l))"
proof -
  have p: "0 < m" "0 < l" using run_at_nonzero [OF x] run_at_nonzero [OF y] m l by linarith+
  have "d j = 0" if "i < j" "j < i + m + l - 1" for j
  proof -
    consider "j < i + m - 1" | "j = i + m - 1 \<or> j = i + m" | "i + m < j" by linarith
    then show ?thesis
    proof cases
      case 1 then show ?thesis using d [of j] that x m by (simp add: run_at_def)
    next
      case 2 then show ?thesis using d [of j] that p by auto
    next
      case 3 then show ?thesis using d [of j] that y l p by (simp add: run_at_def)
    qed
  qed
  moreover have "\<bar>- (m + l)\<bar> = m + l" using p by simp
  ultimately show ?thesis using d [of i] d [of "i + m + l - 1"] p by (simp add: run_at_def ac_simps)
qed

lemma join_prev_lay:
  assumes r: "mem_lay s (ps @ a # r # qs)" and neg: "a < 0" and pos: "0 < r"
    and i: "uint e = extent ps - a" and sz: "sint sz = r"
    and j: "join_prev e sz s = (e', sz', t)"
  shows "mem_lay t (ps @ (a - r) # qs)" and "uint e' = extent ps" and "sint sz' = r - a"
    and "same_heap s t"
    and "cell t (uint (n_mem_blocks s)) = cell s (uint (n_mem_blocks s))"
proof -
  note b = mem_lay_bounds [OF r]
  have r': "mem_lay s ((ps @ [a]) @ r # qs)" using r by simp
  note b' = mem_lay_bounds [OF r'] and run' = mem_lay_run [OF r']
  have run: "run_at (cell s) (extent ps) a" by (rule mem_lay_run [OF r])
  have aa: "\<bar>a\<bar> = - a" using neg by simp
  have e1: "uint (e - 1) = extent ps - a - 1"
    using i neg b by (subst uint_sub_bounded) simp_all
  have prev: "sint (mem_index s (e - 1)) = a"
    using run aa by (simp add: run_at_def cell_uint [symmetric] e1)
  have js: "sint (sz - mem_index s (e - 1)) = r - a" "sint (- (sz - mem_index s (e - 1))) = a - r"
    using b b' aa pos neg sz prev by (simp_all add: sint_sub_i32 sint_minus_i32 del: minus_diff_eq)
  have pi: "uint (e + i32_to_u64 (mem_index s (e - 1))) = extent ps"
    using b i prev by (subst uint_add_scast) (simp_all add: prev)
  have last: "uint (e + i32_to_u64 (mem_index s (e - 1)) + i32_to_u64 (sz - mem_index s (e - 1)) - 1) =
      extent ps + r - a - 1"
    using b' aa pos neg js pi by (subst uint_last_bounded) (simp_all add: uint_scast_nonneg)
  have t: "t = set_index (e + i32_to_u64 (mem_index s (e - 1)) + i32_to_u64 (sz - mem_index s (e - 1)) - 1)
        (- (sz - mem_index s (e - 1)))
      (set_index (e + i32_to_u64 (mem_index s (e - 1))) (- (sz - mem_index s (e - 1)))
        (set_index (e - 1) 0 (set_index e 0 s)))"
    and e': "e' = e + i32_to_u64 (mem_index s (e - 1))" and sz': "sz' = sz - mem_index s (e - 1)"
    using j unfolding join_prev_def Let_def prod.inject by blast+
  show "uint e' = extent ps" "sint sz' = r - a" using pi js by (simp_all add: e' sz')
  have cells: "cell t j = (if j = extent ps \<or> j = extent ps + r - a - 1 then a - r
      else if j = extent ps - a - 1 \<or> j = extent ps - a then 0 else cell s j)"
    if "0 \<le> j" "j < 18446744073709551616" for j
    using that i e1 pi last js by (simp add: t del: minus_diff_eq)
  show sh: "same_heap s t" by (simp add: t)
  show "cell t (uint (n_mem_blocks s)) = cell s (uint (n_mem_blocks s))"
    using b' aa pos neg by (subst cells) auto
  have "mem_lay t (ps @ [a - r] @ qs)"
  proof (rule mem_lay_replace [of s ps "[a, r]" qs])
    have "run_at (cell t) (extent ps) (- (- a + r))"
      by (rule run_at_joined [OF run, of "- a" r]) (use run' b b' aa pos neg in \<open>simp_all add: cells\<close>)
    then show "layout (cell t) (extent ps) [a - r]" by simp
    show "cell t j = cell s j"
      if "0 \<le> j" "j < uint (n_mem_blocks s)" "j < extent ps \<or> extent ps + extent [a, r] \<le> j" for j
      using that b' aa pos neg by (subst cells) auto
  qed (use r sh pos neg in \<open>simp_all\<close>)
  then show "mem_lay t (ps @ (a - r) # qs)" by simp
qed

lemma join_next_lay:
  assumes r: "mem_lay s (ps @ x # q # qs)" and neg: "q < 0" and m: "\<bar>x\<bar> = m"
    and i: "uint e = extent ps" and sz: "sint sz = m"
  shows "mem_lay (join_next e sz s) (ps @ (q - m) # qs)" and "same_heap s (join_next e sz s)"
    and "cell (join_next e sz s) (uint (n_mem_blocks s)) = cell s (uint (n_mem_blocks s))"
proof -
  let ?t = "join_next e sz s"
  have r': "mem_lay s ((ps @ [x]) @ q # qs)" using r by simp
  have aq: "\<bar>q\<bar> = - q" using neg by simp
  have x: "0 < m" using mem_lay_bounds(4) [OF r] m by linarith
  have b: "0 \<le> extent ps" "extent ps + m - q \<le> uint (n_mem_blocks s)"
      "uint (n_mem_blocks s) < 2147483648"
    using mem_lay_bounds [OF r'] m aq extent_nonneg [of ps] by simp_all
  have run': "run_at (cell s) (extent ps + m) q" using mem_lay_run [OF r'] m by simp
  have e1: "uint (e + i32_to_u64 sz) = extent ps + m"
    "uint (e + i32_to_u64 sz - 1) = extent ps + m - 1"
    using i sz b x neg by (simp_all add: word_ints)
  have nxt: "sint (mem_index s (e + i32_to_u64 sz)) = q"
    using run' by (simp add: run_at_def cell_uint [symmetric] e1)
  have js: "sint (sz - mem_index s (e + i32_to_u64 sz)) = m - q"
      "sint (- (sz - mem_index s (e + i32_to_u64 sz))) = q - m"
    using b neg x sz nxt by (simp_all add: sint_sub_i32 sint_minus_i32 del: minus_diff_eq)
  have last: "uint (e + i32_to_u64 (sz - mem_index s (e + i32_to_u64 sz)) - 1) = extent ps + m - q - 1"
    using b x neg js i by (subst uint_last_bounded) (simp_all add: uint_scast_nonneg)
  have cells: "cell ?t j = (if j = extent ps \<or> j = extent ps + m - q - 1 then q - m
      else if j = extent ps + m - 1 \<or> j = extent ps + m then 0 else cell s j)"
    if "0 \<le> j" "j < 18446744073709551616" for j
    using that i e1 last js by (simp add: join_next_def Let_def del: minus_diff_eq)
  show sh: "same_heap s ?t" by (simp add: join_next_def Let_def)
  show "cell ?t (uint (n_mem_blocks s)) = cell s (uint (n_mem_blocks s))"
    using b x neg by (subst cells) simp_all
  have "mem_lay ?t (ps @ [q - m] @ qs)"
  proof (rule mem_lay_replace [of s ps "[x, q]" qs])
    have "run_at (cell ?t) (extent ps) (- (m + - q))"
      by (rule run_at_joined [OF mem_lay_run [OF r] run' m aq]) (use b x neg in \<open>simp_all add: cells\<close>)
    then show "layout (cell ?t) (extent ps) [q - m]" by simp
    show "cell ?t j = cell s j"
      if "0 \<le> j" "j < uint (n_mem_blocks s)" "j < extent ps \<or> extent ps + extent [x, q] \<le> j" for j
      using that b aq neg x m by (subst cells) auto
  qed (use r sh x neg m in \<open>simp_all\<close>)
  then show "mem_lay ?t (ps @ (q - m) # qs)" by simp
qed

section \<open>Release\<close>

lemma block_index:
  assumes sh: "heap_shape s" and j: "0 \<le> j" "j < uint (n_mem_blocks s)"
  shows "uint ((block_addr s j - HEAP_START_ADDR s) div MEM_BLOCK_SIZE) = j"
    and "(block_addr s j - HEAP_START_ADDR s) mod MEM_BLOCK_SIZE = 0"
    and "\<not> block_addr s j < HEAP_START_ADDR s" and "\<not> HEAP_END_ADDR s \<le> block_addr s j"
proof -
  have u: "uint (block_addr s j) = uint (HEAP_START_ADDR s) + 64 * j"
    using j by (intro uint_block_addr sh) simp_all
  with j have d: "uint (block_addr s j - HEAP_START_ADDR s) = 64 * j"
    by (subst uint_sub_bounded) simp_all
  then show "uint ((block_addr s j - HEAP_START_ADDR s) div MEM_BLOCK_SIZE) = j"
    by (simp add: uint_div)
  have "uint ((block_addr s j - HEAP_START_ADDR s) mod MEM_BLOCK_SIZE) = 0"
    using d by (simp add: uint_mod)
  then show "(block_addr s j - HEAP_START_ADDR s) mod MEM_BLOCK_SIZE = 0" by (simp add: uint_0_iff)
  show "\<not> block_addr s j < HEAP_START_ADDR s" using u j by (simp add: word_less_def)
  show "\<not> HEAP_END_ADDR s \<le> block_addr s j"
    using u j sh by (simp add: word_le_def heap_shape_def)
qed

text \<open>The cell before a run is the last cell of the run before it, the cell after it the first cell
  of the next one.\<close>

lemma prev_cell:
  assumes "mem_lay s (ps @ r # qs)" and "ps \<noteq> []"
  shows "cell s (extent ps - 1) = last ps" and "0 < extent ps"
proof -
  obtain ps' a where ps: "ps = ps' @ [a]" using assms(2) by (metis append_butlast_last_id)
  have l: "mem_lay s (ps' @ a # r # qs)" using assms(1) ps by simp
  from mem_lay_run [OF l] ps show "cell s (extent ps - 1) = last ps" by (simp add: run_at_def)
  show "0 < extent ps" using mem_lay_bounds(1,4) [OF l] ps by simp
qed

lemma next_cell:
  assumes "mem_lay s (ps @ r # qs)"
  shows "extent ps + \<bar>r\<bar> < uint (n_mem_blocks s) \<longleftrightarrow> qs \<noteq> []"
    and "qs \<noteq> [] \<Longrightarrow> cell s (extent ps + \<bar>r\<bar>) = hd qs"
proof -
  have l: "layout (cell s) (extent ps + \<bar>r\<bar>) qs" and x: "extent ps + \<bar>r\<bar> + extent qs = uint (n_mem_blocks s)"
    using assms by (simp_all add: mem_lay_def add.assoc)
  show "extent ps + \<bar>r\<bar> < uint (n_mem_blocks s) \<longleftrightarrow> qs \<noteq> []"
    using extent_eq_0 [OF l] extent_nonneg [of qs] x by linarith
  show "cell s (extent ps + \<bar>r\<bar>) = hd qs" if "qs \<noteq> []"
    using l that by (cases qs) (simp_all add: run_at_def)
qed

lemma release_coalesced:
  assumes "coalesced (ps @ r # qs)" and "0 < r"
  shows "coalesced (release ps r qs)"
proof -
  have "coalesced ps" "coalesced qs" using assms by (auto simp: coalesced_append coalesced_Cons)
  moreover have "\<not> (ps' \<noteq> [] \<and> last ps' < 0)" if "ps = ps' @ [a]" "a < 0" for ps' a
    using \<open>coalesced ps\<close> that by (auto simp: coalesced_append)
  ultimately show ?thesis
    by (cases ps rule: rev_cases; cases qs)
       (auto simp: release_def coalesced_append coalesced_Cons split: if_splits)
qed

lemma mem_free_lay:
  assumes r: "mem_lay s (ps @ r # qs)" and pos: "0 < r"
  shows "\<exists>t. mem_free (block_addr s (extent ps)) s = (0, t) \<and> mem_lay t (release ps r qs) \<and>
    same_heap s t \<and> cell t (uint (n_mem_blocks s)) = cell s (uint (n_mem_blocks s))"
proof -
  note b = mem_lay_bounds [OF r]
  have sh: "heap_shape s" using r by (simp add: mem_lay_def)
  let ?p = "block_addr s (extent ps)"
  define e where "e = (?p - HEAP_START_ADDR s) div MEM_BLOCK_SIZE"
  define sz where "sz = mem_index s e"
  have e: "uint e = extent ps"
    using block_index(1) [OF sh, of "extent ps"] b by (simp add: e_def)
  have "extent ps < uint (n_mem_blocks s)" using b by linarith
  note guards = block_index(2-4) [OF sh b(1) this]
  have run: "run_at (cell s) (extent ps) r" by (rule mem_lay_run [OF r])
  have sz: "sint sz = r" using run by (simp add: sz_def run_at_def cell_uint [symmetric] e)
  have lastu: "uint (e + i32_to_u64 sz - 1) = extent ps + r - 1"
    using b pos e sz by (simp add: word_ints)
  have "sint (mem_index s (e + i32_to_u64 sz - 1)) = sint sz"
    using run pos sz by (simp add: run_at_def cell_uint [symmetric] lastu)
  then have ends: "mem_index s (e + i32_to_u64 sz - 1) = sz" by (rule signed_word_eqI)
  have nextu: "uint (e + i32_to_u64 sz) = extent ps + r"
    using b pos e sz by (simp add: word_ints)
  define pf where "pf \<longleftrightarrow> 0 < e \<and> mem_index s (e - 1) <s 0"
  define nf where "nf \<longleftrightarrow> e + i32_to_u64 sz < n_mem_blocks s \<and> mem_index s (e + i32_to_u64 sz) <s 0"
  have pf: "pf \<longleftrightarrow> ps \<noteq> [] \<and> last ps < 0"
  proof (cases "ps = []")
    case True
    then show ?thesis using e by (simp add: pf_def uint_0_iff)
  next
    case False
    then have "0 < uint e" "uint (e - 1) = extent ps - 1"
      using prev_cell(2) [OF r] e by (simp_all add: uint_sub_bounded)
    then show ?thesis
      using prev_cell(1) [OF r False] False
      by (simp add: pf_def slt_0_iff cell_uint [symmetric] word_less_def)
  qed
  have nf: "nf \<longleftrightarrow> qs \<noteq> [] \<and> hd qs < 0"
    using next_cell [OF r] pos nextu
    by (auto simp: nf_def slt_0_iff cell_uint [symmetric] word_less_def)
  have free: "mem_free ?p s =
      (let s = (if \<not> pf \<and> \<not> nf then free_alone e sz s else s);
           (e, sz, s) = (if pf then join_prev e sz s else (e, sz, s));
           s = (if nf then join_next e sz s else s)
       in (0, s))"
    unfolding mem_free_def e_def [symmetric] Let_def sz_def [symmetric] pf_def [symmetric] nf_def [symmetric]
    using guards sz pos ends by (simp add: sle_0_iff)
  show ?thesis
  proof (cases pf)
    case False
    show ?thesis
    proof (cases nf)
      case False
      with \<open>\<not> pf\<close> have "release ps r qs = ps @ - r # qs" using pf nf by (auto simp: release_def)
      with free_alone_lay [OF r pos e sz] \<open>\<not> pf\<close> \<open>\<not> nf\<close> show ?thesis by (simp add: free)
    next
      case True
      then obtain q qs' where qs: "qs = q # qs'" "q < 0" using nf by (cases qs) auto
      have "mem_lay s (ps @ r # q # qs')" using r qs by simp
      note j = join_next_lay [OF this qs(2) _ e, of r sz]
      have "release ps r qs = ps @ (q - r) # qs'" using qs pf \<open>\<not> pf\<close> by (auto simp: release_def)
      with j pos sz \<open>\<not> pf\<close> True show ?thesis by (simp add: free)
    qed
  next
    case True
    then obtain ps' a where ps: "ps = ps' @ [a]" "a < 0"
      using pf by (metis append_butlast_last_id)
    obtain e' sz' t where jp: "join_prev e sz s = (e', sz', t)" by (metis prod_cases3)
    have "mem_lay s (ps' @ a # r # qs)" using r ps by simp
    note j = join_prev_lay [OF this ps(2) pos _ sz jp]
    have "uint e = extent ps' - a" using e ps by simp
    note j = j [OF this]
    show ?thesis
    proof (cases nf)
      case False
      have "release ps r qs = ps' @ (a - r) # qs" using ps nf False by (auto simp: release_def)
      with j jp True False show ?thesis by (simp add: free)
    next
      case nf': True
      then obtain q qs' where qs: "qs = q # qs'" "q < 0" using nf by (cases qs) auto
      have "mem_lay t (ps' @ (a - r) # q # qs')" using j(1) qs by simp
      note k = join_next_lay [OF this qs(2) _ j(2), of "r - a" sz']
      have "release ps r qs = ps' @ (q - (r - a)) # qs'" using qs ps by (simp add: release_def)
      moreover have "n_mem_blocks t = n_mem_blocks s" by (rule same_heap_fields(1) [OF j(4)])
      ultimately show ?thesis
        using k j(3-5) jp True nf' ps(2) pos by (auto simp: free intro: same_heap_trans)
    qed
  qed
qed

section \<open>Allocation\<close>

text \<open>The second half of the body of the allocation loop, at the run the index now points to.\<close>

definition scan_half :: "u64 \<Rightarrow> u64 \<Rightarrow> 'a mem_state_scheme \<Rightarrow> (u64, 'a mem_state_scheme) res option" where
  "scan_half k i s =
     (if mem_index s i <s 0 then
        (let f = i32_to_u64 (- mem_index s i) in
         if k < f then Some (Inr (HEAP_START_ADDR s + i * MEM_BLOCK_SIZE, carve i f k s))
         else if f = k then Some (Inr (HEAP_START_ADDR s + i * MEM_BLOCK_SIZE, take_whole i k s))
         else if mem_index s (i + f) = 0 then Some (Inl (index_corrupted, s))
         else mem_alloc_loop k (i + f) s)
      else if mem_index s i = 0 then Some (Inl (index_corrupted, s))
      else mem_alloc_loop k i s)"

lemma mem_alloc_loop_unfold:
  "mem_alloc_loop k i s =
     (if i < n_mem_blocks s
      then scan_half k (if 0 <s mem_index s i then i + i32_to_u64 (mem_index s i) else i) s
      else Some (Inr (0, s)))"
  by (subst mem_alloc_loop.simps) (simp add: scan_half_def Let_def)

text \<open>What the scan returns when no run fits depends on the entry one past the end of the index.\<close>

definition no_fit_result :: "'a mem_state_scheme \<Rightarrow> (u64, 'a mem_state_scheme) res" where
  "no_fit_result s =
     (if cell s (uint (n_mem_blocks s)) = 0 then Inl (index_corrupted, s) else Inr (0, s))"

definition scan_spec :: "u64 \<Rightarrow> int list \<Rightarrow> int list \<Rightarrow> 'a mem_state_scheme \<Rightarrow>
    (u64, 'a mem_state_scheme) res option \<Rightarrow> bool" where
  "scan_spec k ps qs s m \<longleftrightarrow>
     (case first_fit (uint k) (extent ps) qs of
        None \<Rightarrow> 0 \<le> cell s (uint (n_mem_blocks s)) \<longrightarrow> m = Some (no_fit_result s)
      | Some (j, rs) \<Rightarrow> \<exists>t. m = Some (Inr (block_addr s j, t)) \<and> mem_rep t (ps @ rs) \<and> same_heap s t \<and>
          cell t (uint (n_mem_blocks s)) = cell s (uint (n_mem_blocks s)))"

lemma scan_half_spec:
  assumes "mem_rep s (ps @ qs)" and "uint i = extent ps" and "0 < uint k"
  shows "scan_spec k ps qs s (scan_half k i s)"
  using assms
proof (induction "length qs" arbitrary: ps qs i rule: less_induct)
  case less
  note rep = \<open>mem_rep s (ps @ qs)\<close> and i = \<open>uint i = extent ps\<close> and k = \<open>0 < uint k\<close>
  have addr: "HEAP_START_ADDR s + i * 64 = block_addr s (extent ps)"
    by (simp add: block_addr_def i [symmetric])
  show ?case
  proof (cases qs)
    case Nil
    then have "uint i = uint (n_mem_blocks s)" using rep i by (simp add: mem_rep_def mem_lay_def)
    then have "i = n_mem_blocks s" by (rule word_uint_eqI)
    then show ?thesis
      using Nil by (simp add: scan_spec_def scan_half_def no_fit_result_def cell_uint sign_tests
          mem_alloc_loop_unfold)
  next
    case (Cons r rs)
    have rep': "mem_rep s (ps @ r # rs)" and rep2: "mem_rep s ((ps @ [r]) @ rs)"
      using rep Cons by simp_all
    note b = mem_rep_bounds [OF rep']
    have ir: "sint (mem_index s i) = r"
      using mem_rep_run [OF rep'] by (simp add: run_at_def cell_uint [symmetric] i)
    have less_n: "i < n_mem_blocks s" using b i by (simp add: word_less_def)
    show ?thesis
    proof (cases "0 < r")
      case True
      have "uint (i + i32_to_u64 (mem_index s i)) = extent (ps @ [r])"
        using b i ir True by (subst uint_add_scast) simp_all
      then have "scan_spec k (ps @ [r]) rs s (scan_half k (i + i32_to_u64 (mem_index s i)) s)"
        using Cons by (intro less.hyps [OF _ rep2 _ k]) simp_all
      moreover have "scan_half k i s = scan_half k (i + i32_to_u64 (mem_index s i)) s"
        using True ir less_n mem_alloc_loop_unfold [of k i s]
        by (simp add: scan_half_def [of k i] sign_tests)
      ultimately show ?thesis
        using Cons True by (auto simp: scan_spec_def split: option.splits)
    next
      case False
      then have neg: "r < 0" using b(4) by simp
      define f where "f = i32_to_u64 (- mem_index s i)"
      have f: "uint f = - r"
        using b neg ir by (simp add: f_def sint_minus_i32 uint_scast_nonneg)
      have half: "scan_half k i s =
         (if k < f then Some (Inr (block_addr s (extent ps), carve i f k s))
          else if f = k then Some (Inr (block_addr s (extent ps), take_whole i k s))
          else if mem_index s (i + f) = 0 then Some (Inl (index_corrupted, s))
          else mem_alloc_loop k (i + f) s)"
        using neg ir by (simp add: scan_half_def f_def [symmetric] sign_tests addr Let_def)
      have inext: "uint (i + f) = extent (ps @ [r])"
        using b neg i f by (simp add: word_ints)
      consider "uint k < - r" | "uint k = - r" | "- r < uint k" by linarith
      then show ?thesis
      proof cases
        case 1
        with f have "k < f" by (simp add: word_less_def)
        with carve_rep [OF rep' neg i f k 1] 1 neg Cons show ?thesis
          by (simp add: scan_spec_def half)
      next
        case 2
        with f have "f = k" by (metis word_uint_eqI)
        with take_whole_rep [OF rep' neg i 2] 2 neg Cons show ?thesis
          by (simp add: scan_spec_def half)
      next
        case 3
        with f have big: "\<not> k < f" "f \<noteq> k" by (auto simp: word_less_def)
        show ?thesis
        proof (cases rs)
          case Nil
          then have "uint (i + f) = uint (n_mem_blocks s)"
            using rep' inext by (simp add: mem_rep_def mem_lay_def)
          then have "i + f = n_mem_blocks s" by (rule word_uint_eqI)
          then show ?thesis
            using Cons Nil neg 3 big
            by (simp add: half scan_spec_def no_fit_result_def cell_uint eq_0_iff_sint
                mem_alloc_loop_unfold)
        next
          case Cons': (Cons q rs')
          have rep3: "mem_rep s ((ps @ [r]) @ q # rs')" and rep4: "mem_rep s ((ps @ [r, q]) @ rs')"
            using rep' Cons' by simp_all
          have iq: "sint (mem_index s (i + f)) = q"
            using mem_rep_run [OF rep3] by (simp add: run_at_def cell_uint [symmetric] inext)
          have q: "0 < q"
            using mem_rep_coalesced [OF rep'] Cons' neg mem_rep_bounds(4) [OF rep3]
            by (auto simp: coalesced_append)
          note b' = mem_rep_bounds [OF rep3]
          have "i + f < n_mem_blocks s" using b' inext by (simp add: word_less_def)
          then have l: "mem_alloc_loop k (i + f) s =
              scan_half k (i + f + i32_to_u64 (mem_index s (i + f))) s"
            using iq q by (simp add: mem_alloc_loop_unfold sign_tests)
          have "uint (i + f + i32_to_u64 (mem_index s (i + f))) = extent (ps @ [r, q])"
            using b' inext iq q by (subst uint_add_scast) simp_all
          then have "scan_spec k (ps @ [r, q]) rs' s (scan_half k (i + f + i32_to_u64 (mem_index s (i + f))) s)"
            using Cons Cons' by (intro less.hyps [OF _ rep4 _ k]) simp_all
          then have "scan_spec k (ps @ [r, q]) rs' s (scan_half k i s)"
            using big q iq by (simp add: half l eq_0_iff_sint)
          moreover have "first_fit (uint k) (extent ps) qs =
              map_option (\<lambda>(j, ss). (j, r # q # ss)) (first_fit (uint k) (extent (ps @ [r, q])) rs')"
            using Cons Cons' neg 3 q
            by (cases "first_fit (uint k) (extent (ps @ [r, q])) rs'") (auto simp: algebra_simps)
          ultimately show ?thesis
            by (auto simp: scan_spec_def split: option.splits)
        qed
      qed
    qed
  qed
qed

end
