(* ===== verification/Heap_Props.thy ===== *)
theory Heap_Props
  imports Mem_Correct
begin

text \<open>
  The contract of the allocator. The properties of \<open>__mem_init\<close>, \<open>__mem_alloc\<close> and \<open>__mem_free\<close>
  stand here, together with the interface \<open>block_heap\<close> through which the components that allocate
  use the allocator, and its interpretation on the model of \<open>src/mem.c\<close>.
\<close>

section \<open>Live blocks\<close>

fun live_at :: "int \<Rightarrow> int list \<Rightarrow> (int \<times> int) set" where
  "live_at i [] = {}"
| "live_at i (r # rs) = (if 0 < r then {(i, r)} else {}) \<union> live_at (i + \<bar>r\<bar>) rs"

lemma live_at_append [simp]: "live_at i (rs @ qs) = live_at i rs \<union> live_at (i + extent rs) qs"
  by (induction rs arbitrary: i) (auto simp: add.assoc)

lemma live_at_bounds: "(a, m) \<in> live_at i rs \<Longrightarrow> i \<le> a \<and> 0 < m \<and> a + m \<le> i + extent rs"
proof (induction rs arbitrary: i)
  case (Cons r rs)
  show ?case
  proof (cases "(a, m) \<in> live_at (i + \<bar>r\<bar>) rs")
    case True
    from Cons.IH [OF this] show ?thesis by (auto simp: algebra_simps)
  next
    case False
    with Cons.prems have "0 < r \<and> a = i \<and> m = r" by (auto split: if_splits)
    then show ?thesis using extent_nonneg [of rs] by simp
  qed
qed simp

lemma live_at_split:
  assumes "(a, m) \<in> live_at i rs"
  obtains ps qs where "rs = ps @ m # qs" and "a = i + extent ps" and "0 < m"
  using assms
proof (induction rs arbitrary: i thesis)
  case (Cons r rs)
  show ?case
  proof (cases "(a, m) \<in> live_at (i + \<bar>r\<bar>) rs")
    case True
    show ?thesis
    proof (rule Cons.IH [OF _ True])
      fix ps qs assume "rs = ps @ m # qs" "a = i + \<bar>r\<bar> + extent ps" "0 < m"
      then show ?thesis by (intro Cons.prems(1) [of "r # ps" qs]) simp_all
    qed
  next
    case False
    with Cons.prems have "0 < r \<and> a = i \<and> m = r" by (auto split: if_splits)
    then show ?thesis by (intro Cons.prems(1) [of "[]" rs]) simp_all
  qed
qed simp

lemma first_fit_split:
  assumes "first_fit k i rs = Some (j, qs)"
  obtains ps r ss where "rs = ps @ r # ss" and "r < 0" and "k \<le> - r" and "j = i + extent ps"
    and "qs = ps @ (if k < - r then k # (r + k) # ss else k # ss)"
  using assms
proof (induction rs arbitrary: i qs thesis)
  case (Cons r rs)
  show ?case
  proof (cases "r < 0 \<and> k \<le> - r")
    case True
    with Cons.prems(2) show ?thesis
      by (intro Cons.prems(1) [of "[]" r rs]) (auto split: if_splits)
  next
    case False
    with Cons.prems(2) obtain qs' where f: "first_fit k (i + \<bar>r\<bar>) rs = Some (j, qs')" and qs: "qs = r # qs'"
      by (auto split: if_splits)
    show ?thesis
      by (rule Cons.IH [OF _ f], rule Cons.prems(1) [of "r # _"]) (use qs in simp_all)
  qed
qed simp

lemma first_fit_live:
  assumes f: "first_fit k 0 rs = Some (j, qs)" and k: "0 < k"
  shows "live_at 0 qs = insert (j, k) (live_at 0 rs)"
    and "(a, m) \<in> live_at 0 rs \<Longrightarrow> a + m \<le> j \<or> j + k \<le> a"
    and "0 \<le> j" and "j + k \<le> extent rs"
proof -
  from f obtain ps r ss where s: "rs = ps @ r # ss" "r < 0" "k \<le> - r" "j = 0 + extent ps"
      "qs = ps @ (if k < - r then k # (r + k) # ss else k # ss)"
    by (rule first_fit_split)
  have "\<bar>r\<bar> = - r" using s(2) by simp
  with s k show "live_at 0 qs = insert (j, k) (live_at 0 rs)" by (auto simp: algebra_simps)
  show "a + m \<le> j \<or> j + k \<le> a" if "(a, m) \<in> live_at 0 rs"
    using that s \<open>\<bar>r\<bar> = - r\<close> live_at_bounds [of a m 0 ps] live_at_bounds [of a m "extent ps - r" ss] by auto
  show "0 \<le> j" using s extent_nonneg [of ps] by simp
  show "j + k \<le> extent rs" using s \<open>\<bar>r\<bar> = - r\<close> extent_nonneg [of ss] by simp
qed

lemma release_live:
  assumes "0 < r"
  shows "live_at 0 (release ps r qs) = live_at 0 (ps @ r # qs) - {(extent ps, r)}"
    and "extent (release ps r qs) = extent (ps @ r # qs)"
proof -
  have out: "(extent ps, r) \<notin> live_at 0 ps" "(extent ps, r) \<notin> live_at (extent ps + r) qs"
    using live_at_bounds [of "extent ps" r 0 ps] live_at_bounds [of "extent ps" r "extent ps + r" qs] assms
    by auto
  show "live_at 0 (release ps r qs) = live_at 0 (ps @ r # qs) - {(extent ps, r)}"
    using assms out
    by (cases ps rule: rev_cases; cases qs) (auto simp: release_def algebra_simps split: if_splits)
  show "extent (release ps r qs) = extent (ps @ r # qs)"
    using assms by (cases ps rule: rev_cases; cases qs) (auto simp: release_def)
qed

text \<open>Releasing what first fit took gives the list back.\<close>

lemma release_first_fit:
  assumes f: "first_fit k 0 rs = Some (j, qs)" and k: "0 < k" and c: "coalesced rs"
  obtains ps ss where "qs = ps @ k # ss" and "j = extent ps" and "release ps k ss = rs"
proof -
  from f obtain ps r ss where s: "rs = ps @ r # ss" "r < 0" "k \<le> - r" "j = 0 + extent ps"
      "qs = ps @ (if k < - r then k # (r + k) # ss else k # ss)"
    by (rule first_fit_split)
  have "\<not> (ps \<noteq> [] \<and> last ps < 0)" "\<not> (ss \<noteq> [] \<and> hd ss < 0)"
    using c s by (auto simp: coalesced_append coalesced_Cons)
  with s k show thesis
    by (intro that [of ps "if k < - r then (r + k) # ss else ss"]) (auto simp: release_def)
qed

section \<open>Initialisation\<close>

lemma mem_zero_loop_cells:
  assumes "0 \<le> j" and "j < 18446744073709551616"
  shows "cell (mem_zero_loop i s) j =
      (if uint i \<le> j \<and> j < uint (n_mem_blocks s) then 0 else cell s j)"
    and "same_heap s (mem_zero_loop i s)"
proof (induction i s rule: mem_zero_loop.induct)
  case (1 i s)
  show "cell (mem_zero_loop i s) j =
      (if uint i \<le> j \<and> j < uint (n_mem_blocks s) then 0 else cell s j)"
  proof (cases "i < n_mem_blocks s")
    case True
    then have "uint (i + 1) = uint i + 1"
      using uint_u64_bounds(2) [of "n_mem_blocks s"] by (simp add: word_less_def uint_add_bounded)
    then show ?thesis
      using 1(1) [OF True] True assms by (auto simp: mem_zero_loop.simps [of i s] word_less_def)
  next
    case False
    then show ?thesis by (auto simp: mem_zero_loop.simps [of i s] word_less_def)
  qed
  have "same_heap s (set_index i 0 s)" by simp
  from same_heap_trans [OF this 1(2)] show "same_heap s (mem_zero_loop i s)"
    by (auto simp: mem_zero_loop.simps [of i s])
qed

lemma mem_zero_same: "same_heap s (mem_zero_loop i s)"
  using mem_zero_loop_cells(2) [of 0] by simp

definition heap_blocks :: "'a mem_state_scheme \<Rightarrow> int" where
  "heap_blocks s = (uint (HEAP_END_ADDR s) - uint (HEAP_START_ADDR s)) div 64"

definition index_blocks :: "int \<Rightarrow> int" where
  "index_blocks n = (4 * n + 63) div 64"

lemma mem_init_layout:
  assumes "0 < uint (HEAP_START_ADDR s)" and "HEAP_START_ADDR s \<le> HEAP_END_ADDR s"
    and "2 \<le> heap_blocks s" and "heap_blocks s < 2147483648"
  shows "mem_rep (mem_init s)
     [index_blocks (heap_blocks s), - (heap_blocks s - index_blocks (heap_blocks s))]"
    and "uint (n_mem_blocks (mem_init s)) = heap_blocks s"
    and "heap_blocks s \<le> j \<Longrightarrow> j < 18446744073709551616 \<Longrightarrow> cell (mem_init s) j = cell s j"
proof -
  define n where "n = heap_blocks s"
  define l where "l = index_blocks n"
  define nw where "nw = (HEAP_END_ADDR s - HEAP_START_ADDR s) div (64 :: u64)"
  define lw where "lw = (4 * nw + 64 - 1) div (64 :: u64)"
  have n: "2 \<le> n" "n < 2147483648" using assms by (simp_all add: n_def)
  have "uint (HEAP_START_ADDR s) \<le> uint (HEAP_END_ADDR s)" using assms(2) by (simp add: word_le_def)
  then have nw: "uint nw = n"
    by (simp add: nw_def n_def heap_blocks_def uint_div uint_sub_bounded)
  have l: "1 \<le> l" "l < n" unfolding l_def index_blocks_def using n by linarith+
  have "uint (4 * nw) = 4 * n" using nw n by (simp add: uint_word_ariths)
  then have "uint (4 * nw + 63) = 4 * n + 63" using n by (subst uint_add_bounded) simp_all
  then have lw: "uint lw = l"
    by (simp add: lw_def l_def index_blocks_def uint_div_64 add.commute)
  let ?s0 = "s\<lparr>n_mem_blocks := nw, mem_index_len_in_blocks := lw\<rparr>"
  let ?z = "mem_zero_loop 0 ?s0"
  have init: "mem_init s = set_index (nw - 1) (u64_to_i32 (- (nw - lw)))
      (set_index lw (u64_to_i32 (- (nw - lw)))
        (set_index (lw - 1) (u64_to_i32 lw) (set_index 0 (u64_to_i32 lw) ?z)))"
    by (simp add: mem_init_def Let_def nw_def lw_def del: minus_diff_eq)
  have f: "n_mem_blocks ?z = nw" "HEAP_START_ADDR ?z = HEAP_START_ADDR s" "HEAP_END_ADDR ?z = HEAP_END_ADDR s"
    using same_heap_fields [OF mem_zero_same [of ?s0 0]] by simp_all
  have u: "uint (nw - 1) = n - 1" "uint (lw - 1) = l - 1" "uint (nw - lw) = n - l"
    using nw lw n l by (simp_all add: uint_sub_bounded)
  have v: "sint (u64_to_i32 (- (nw - lw))) = l - n" "sint (u64_to_i32 lw) = l"
    using u lw l n by (simp_all add: sint_trunc_minus_u64 sint_trunc_u64 del: minus_diff_eq)
  have cells: "cell (mem_init s) j = (if j = n - 1 \<or> j = l then l - n
      else if j = l - 1 \<or> j = 0 then l else if j < n then 0 else cell s j)"
    if "0 \<le> j" "j < 18446744073709551616" for j
    using that u v lw nw mem_zero_loop_cells(1) [OF that, of 0 ?s0]
    by (simp add: init cell_def [of ?s0] cell_def [of s] del: minus_diff_eq)
  have "heap_shape (mem_init s)"
  proof -
    let ?a = "uint (HEAP_START_ADDR s)" and ?b = "uint (HEAP_END_ADDR s)"
    have "?a + 64 * n \<le> ?b" "?b < ?a + 64 * n + 64"
      using \<open>?a \<le> ?b\<close> unfolding n_def heap_blocks_def by linarith+
    then show ?thesis using assms(1) n nw f by (simp add: heap_shape_def init)
  qed
  moreover have "run_at (cell (mem_init s)) 0 l" "run_at (cell (mem_init s)) l (l - n)"
    using n l by (simp_all add: run_at_def cells)
  ultimately show "mem_rep (mem_init s)
     [index_blocks (heap_blocks s), - (heap_blocks s - index_blocks (heap_blocks s))]"
    using l n nw f by (simp add: mem_rep_def mem_lay_def init n_def [symmetric] l_def [symmetric])
  show "uint (n_mem_blocks (mem_init s)) = heap_blocks s" using nw f by (simp add: init n_def)
  show "cell (mem_init s) j = cell s j" if "heap_blocks s \<le> j" "j < 18446744073709551616"
    using that n l by (simp add: cells n_def [symmetric])
qed

section \<open>Allocation\<close>

lemma mem_rep_nonempty: "mem_rep s rs \<Longrightarrow> rs \<noteq> []"
  by (auto simp: mem_rep_def mem_lay_def heap_shape_def)

lemma mem_alloc_spec:
  assumes rep: "mem_rep s rs" and k: "0 < uint k"
  shows "scan_spec k [] rs s (Some (mem_alloc k s))"
proof -
  obtain r qs where rs: "rs = r # qs" using mem_rep_nonempty [OF rep] by (cases rs) auto
  have rep1: "mem_rep s ([] @ r # qs)" and rep2: "mem_rep s ([r] @ qs)" using rep rs by simp_all
  have m: "sint (mem_index s 0) = r"
    using mem_rep_run [OF rep1] by (simp add: run_at_def cell_def)
  have "0 < n_mem_blocks s" using rep by (simp add: mem_rep_def mem_lay_def heap_shape_def word_less_def)
  then have loop: "mem_alloc_loop k 0 s =
      scan_half k (if 0 < r then i32_to_u64 (mem_index s 0) else 0) s"
    using m by (simp add: mem_alloc_loop_unfold [of k 0] sgt_0_iff)
  have "scan_spec k [] rs s (mem_alloc_loop k 0 s)"
  proof (cases "0 < r")
    case True
    have "scan_spec k [r] qs s (scan_half k (i32_to_u64 (mem_index s 0)) s)"
      using True m by (intro scan_half_spec [OF rep2 _ k]) (simp add: uint_scast_nonneg)
    with True show ?thesis by (auto simp: loop rs scan_spec_def split: option.splits)
  next
    case False
    have "scan_spec k [] rs s (scan_half k 0 s)"
      using rep by (intro scan_half_spec k) simp_all
    with False show ?thesis by (simp add: loop)
  qed
  then show ?thesis
    by (auto simp: mem_alloc_def scan_spec_def split: option.splits)
qed

lemma mem_alloc_Some:
  assumes "mem_rep s rs" and "0 < uint k" and "first_fit (uint k) 0 rs = Some (j, qs)"
  obtains t where "mem_alloc k s = Inr (block_addr s j, t)" and "mem_rep t qs" and "same_heap s t"
    and "cell t (uint (n_mem_blocks s)) = cell s (uint (n_mem_blocks s))"
  using mem_alloc_spec [OF assms(1,2)] assms(3) by (auto simp: scan_spec_def)

lemma mem_alloc_None:
  assumes "mem_rep s rs" and "0 < uint k" and "first_fit (uint k) 0 rs = None"
    and "0 \<le> cell s (uint (n_mem_blocks s))"
  shows "mem_alloc k s = no_fit_result s"
  using mem_alloc_spec [OF assms(1,2)] assms(3,4) by (simp add: scan_spec_def)

lemma mem_free_rep:
  assumes r: "mem_rep s (ps @ r # qs)" and pos: "0 < r"
  obtains t where "mem_free (block_addr s (extent ps)) s = (0, t)" and "mem_rep t (release ps r qs)"
    and "same_heap s t" and "cell t (uint (n_mem_blocks s)) = cell s (uint (n_mem_blocks s))"
  using mem_free_lay [OF mem_rep_lay [OF r] pos] release_coalesced [OF mem_rep_coalesced [OF r] pos]
  by (auto simp: mem_rep_def)

section \<open>The interface of the allocator\<close>

text \<open>
  \<open>block_heap\<close> is what the rest of the kernel may rely on: a call that returns a non-null pointer
  returns a block that overlaps no owned block and is owned from then on, a call that returns null
  changes nothing, and an owned block can be given back. \<open>owned s L\<close> says that exactly the blocks
  (address, number of 64-byte units) in \<open>L\<close> are allocated.
\<close>

definition apart :: "u64 \<Rightarrow> int \<Rightarrow> u64 \<Rightarrow> int \<Rightarrow> bool" where
  "apart p k q m \<longleftrightarrow> uint p + 64 * k \<le> uint q \<or> uint q + 64 * m \<le> uint p"

locale block_heap =
  fixes alloc :: "u64 \<Rightarrow> 's \<Rightarrow> (u64, 's) res"
    and free :: "u64 \<Rightarrow> 's \<Rightarrow> i32 \<times> 's"
    and owned :: "'s \<Rightarrow> (u64 \<times> int) set \<Rightarrow> bool"
  assumes alloc_fresh: "owned s L \<Longrightarrow> 0 < uint k \<Longrightarrow> alloc k s = Inr (p, t) \<Longrightarrow> p \<noteq> 0 \<Longrightarrow>
      owned t (insert (p, uint k) L) \<and> (\<forall>(q, m) \<in> L. apart p (uint k) q m)"
    and alloc_null: "owned s L \<Longrightarrow> 0 < uint k \<Longrightarrow> alloc k s = Inr (0, t) \<Longrightarrow> t = s"
    and alloc_fault: "owned s L \<Longrightarrow> 0 < uint k \<Longrightarrow> alloc k s = Inl e \<Longrightarrow> e = (index_corrupted, s)"
    and free_owned: "owned s L \<Longrightarrow> (p, m) \<in> L \<Longrightarrow> \<exists>t. free p s = (0, t) \<and> owned t (L - {(p, m)})"
    and owned_block: "owned s L \<Longrightarrow> (p, m) \<in> L \<Longrightarrow> p \<noteq> 0 \<and> 0 < m"
begin

lemma apart_self: "0 < m \<Longrightarrow> 0 < k \<Longrightarrow> \<not> apart p k p m"
  by (simp add: apart_def)

lemma alloc_not_owned:
  assumes "owned s L" and "0 < uint k" and "alloc k s = Inr (p, t)" and "p \<noteq> 0"
  shows "(p, m) \<notin> L"
proof
  assume m: "(p, m) \<in> L"
  then have "apart p (uint k) p m" using alloc_fresh [OF assms] by auto
  with apart_self [OF _ assms(2)] owned_block [OF assms(1) m] show False by blast
qed

lemma alloc_free:
  assumes "owned s L" and "0 < uint k" and "alloc k s = Inr (p, t)" and "p \<noteq> 0"
  obtains u where "free p t = (0, u)" and "owned u L"
proof -
  have "owned t (insert (p, uint k) L)" using alloc_fresh [OF assms] by blast
  then obtain u where "free p t = (0, u)" "owned u (insert (p, uint k) L - {(p, uint k)})"
    using free_owned by blast
  with alloc_not_owned [OF assms] show thesis by (intro that) simp_all
qed

lemma alloc_twice:
  assumes "owned s L" and "0 < uint k" and "alloc k s = Inr (p, t)" and "p \<noteq> 0"
    and "0 < uint l" and "alloc l t = Inr (q, u)" and "q \<noteq> 0"
  shows "owned u (insert (q, uint l) (insert (p, uint k) L))" and "apart q (uint l) p (uint k)"
proof -
  have o: "owned t (insert (p, uint k) L)" using alloc_fresh [OF assms(1-4)] by blast
  from alloc_fresh [OF o assms(5-7)]
  show "owned u (insert (q, uint l) (insert (p, uint k) L))" "apart q (uint l) p (uint k)" by auto
qed

end

definition owns :: "'a mem_state_scheme \<Rightarrow> (u64 \<times> int) set \<Rightarrow> bool" where
  "owns s L \<longleftrightarrow> (\<exists>rs. mem_rep s rs \<and> 0 \<le> cell s (uint (n_mem_blocks s)) \<and>
     L = (\<lambda>(j, k). (block_addr s j, k)) ` live_at 0 rs)"

lemma live_addr:
  assumes "mem_rep s rs" and "(j, m) \<in> live_at 0 rs"
  shows "uint (block_addr s j) = uint (HEAP_START_ADDR s) + 64 * j" and "0 < m"
proof -
  have "heap_shape s" "extent rs = uint (n_mem_blocks s)" using assms by (simp_all add: mem_rep_def mem_lay_def)
  with live_at_bounds [OF assms(2)]
  show "uint (block_addr s j) = uint (HEAP_START_ADDR s) + 64 * j" "0 < m"
    by (auto intro: uint_block_addr)
qed

lemma mem_alloc_cases:
  assumes rep: "mem_rep s rs" and c: "0 \<le> cell s (uint (n_mem_blocks s))" and k: "0 < uint k"
    and a: "mem_alloc k s = Inr (p, t)"
  shows "p = 0 \<and> t = s \<and> first_fit (uint k) 0 rs = None \<or>
    (\<exists>j qs. first_fit (uint k) 0 rs = Some (j, qs) \<and> p = block_addr s j \<and> p \<noteq> 0 \<and>
      uint p = uint (HEAP_START_ADDR s) + 64 * j \<and> mem_rep t qs \<and> same_heap s t \<and>
      0 \<le> cell t (uint (n_mem_blocks t)))"
proof (cases "first_fit (uint k) 0 rs")
  case None
  with mem_alloc_None [OF rep k None c] a show ?thesis
    by (auto simp: no_fit_result_def split: if_splits)
next
  case (Some jq)
  then obtain j qs where f: "first_fit (uint k) 0 rs = Some (j, qs)" by (cases jq) auto
  obtain t' where t': "mem_alloc k s = Inr (block_addr s j, t')" "mem_rep t' qs" "same_heap s t'"
      "cell t' (uint (n_mem_blocks s)) = cell s (uint (n_mem_blocks s))"
    by (rule mem_alloc_Some [OF rep k f])
  have "(j, uint k) \<in> live_at 0 qs" using first_fit_live(1) [OF f k] by simp
  then have u: "uint (block_addr t' j) = uint (HEAP_START_ADDR t') + 64 * j" "0 \<le> j"
    using live_addr(1) [OF t'(2)] live_at_bounds by blast+
  have sh: "0 < uint (HEAP_START_ADDR s)" using rep by (simp add: mem_rep_def mem_lay_def heap_shape_def)
  then have "uint (block_addr s j) \<noteq> 0"
    using u t'(3) by (simp add: same_heap_block_addr same_heap_fields)
  then have "block_addr s j \<noteq> 0" by auto
  with f t' u a c show ?thesis
    by (auto simp: same_heap_block_addr same_heap_fields)
qed

interpretation mem_heap: block_heap mem_alloc mem_free owns
proof unfold_locales
  fix s t :: "'a mem_state_scheme" and L and k p :: u64
  assume "owns s L" and k: "0 < uint k" and a: "mem_alloc k s = Inr (p, t)" and p: "p \<noteq> 0"
  then obtain rs where rs: "mem_rep s rs" "0 \<le> cell s (uint (n_mem_blocks s))"
      "L = (\<lambda>(j, k). (block_addr s j, k)) ` live_at 0 rs" by (auto simp: owns_def)
  from mem_alloc_cases [OF rs(1,2) k a] p obtain j qs where
    f: "first_fit (uint k) 0 rs = Some (j, qs)" "p = block_addr s j"
      "uint p = uint (HEAP_START_ADDR s) + 64 * j" "mem_rep t qs" "same_heap s t"
      "0 \<le> cell t (uint (n_mem_blocks t))" by blast
  have "owns t (insert (p, uint k) L)"
    unfolding owns_def using f rs(3) first_fit_live(1) [OF f(1) k]
    by (intro exI [of _ qs]) (simp add: same_heap_block_addr)
  moreover have "apart p (uint k) (block_addr s a) m" if "(a, m) \<in> live_at 0 rs" for a m
    using first_fit_live(2) [OF f(1) k that] live_addr(1) [OF rs(1) that] f(3)
    by (auto simp: apart_def)
  ultimately show "owns t (insert (p, uint k) L) \<and> (\<forall>(q, m)\<in>L. apart p (uint k) q m)"
    using rs(3) by auto
next
  fix s t :: "'a mem_state_scheme" and L and k :: u64
  assume "owns s L" and k: "0 < uint k" and a: "mem_alloc k s = Inr (0, t)"
  then show "t = s" using mem_alloc_cases [OF _ _ k a] by (auto simp: owns_def)
next
  fix s :: "'a mem_state_scheme" and L and k :: u64 and e
  assume "owns s L" and k: "0 < uint k" and a: "mem_alloc k s = Inl e"
  then obtain rs where rs: "mem_rep s rs" "0 \<le> cell s (uint (n_mem_blocks s))" by (auto simp: owns_def)
  show "e = (index_corrupted, s)"
  proof (cases "first_fit (uint k) 0 rs")
    case None
    with mem_alloc_None [OF rs(1) k None rs(2)] a show ?thesis
      by (auto simp: no_fit_result_def split: if_splits)
  next
    case (Some jq)
    then obtain j qs where "first_fit (uint k) 0 rs = Some (j, qs)" by (cases jq) auto
    with mem_alloc_Some [OF rs(1) k] a show ?thesis by (metis Inl_Inr_False)
  qed
next
  fix s :: "'a mem_state_scheme" and L and p :: u64 and m
  assume "owns s L" and pm: "(p, m) \<in> L"
  then obtain rs where rs: "mem_rep s rs" "0 \<le> cell s (uint (n_mem_blocks s))"
      "L = (\<lambda>(j, k). (block_addr s j, k)) ` live_at 0 rs" by (auto simp: owns_def)
  from pm rs(3) obtain j where j: "(j, m) \<in> live_at 0 rs" "p = block_addr s j" by auto
  then obtain ps qs where sp: "rs = ps @ m # qs" "j = extent ps" "0 < m"
    using live_at_split by (metis add_0)
  obtain t where t: "mem_free p s = (0, t)" "mem_rep t (release ps m qs)" "same_heap s t"
      "cell t (uint (n_mem_blocks s)) = cell s (uint (n_mem_blocks s))"
    using mem_free_rep [of s ps m qs] rs(1) sp j(2) by auto
  have "inj_on (\<lambda>(j, k). (block_addr s j, k)) (live_at 0 rs)"
    using live_addr(1) [OF rs(1)] by (intro inj_onI) (clarsimp, metis add_left_cancel mult_left_cancel zero_neq_numeral)
  then have "(\<lambda>(j, k). (block_addr s j, k)) ` (live_at 0 rs - {(j, m)}) = L - {(p, m)}"
    using j by (simp add: rs(3) inj_on_image_set_diff [where C = "live_at 0 rs"])
  then have "owns t (L - {(p, m)})"
    unfolding owns_def using t rs(2) sp release_live(1) [OF sp(3)]
    by (intro exI [of _ "release ps m qs"]) (simp add: same_heap_block_addr same_heap_fields)
  with t(1) show "\<exists>t. mem_free p s = (0, t) \<and> owns t (L - {(p, m)})" by blast
next
  fix s :: "'a mem_state_scheme" and L and p :: u64 and m
  assume "owns s L" and "(p, m) \<in> L"
  then obtain rs j where "mem_rep s rs" "(j, m) \<in> live_at 0 rs" "p = block_addr s j"
    by (auto simp: owns_def)
  moreover from this(1) have "0 < uint (HEAP_START_ADDR s)"
    by (simp add: mem_rep_def mem_lay_def heap_shape_def)
  ultimately show "p \<noteq> 0 \<and> 0 < m"
    using live_addr [of s rs j m] live_at_bounds [of j m 0 rs] by auto
qed

section \<open>The loop ends\<close>

lemma mem_alloc_loop_returns:
  assumes n: "uint (n_mem_blocks s) \<le> 2 ^ 58" and k: "uint k < 2 ^ 63"
  shows "\<exists>r. mem_alloc_loop k i s = Some r"
proof (induction "nat (uint (n_mem_blocks s) - uint i)" arbitrary: i rule: less_induct)
  case less
  show ?case
  proof (cases "i < n_mem_blocks s")
    case True
    define j where "j = (if 0 <s mem_index s i then i + i32_to_u64 (mem_index s i) else i)"
    have ui: "uint i < uint (n_mem_blocks s)" using True by (simp add: word_less_def)
    have x: "sint (mem_index s i) < 2147483648" by (rule sint_i32_bounds)
    have uj: "uint j = uint i + (if 0 < sint (mem_index s i) then sint (mem_index s i) else 0)"
      using ui x n by (auto simp: j_def sgt_0_iff uint_add_scast)
    have step: "mem_alloc_loop k i s = scan_half k j s"
      using True by (simp add: mem_alloc_loop_unfold [of k i] j_def)
    define f where "f = i32_to_u64 (- mem_index s j)"
    show ?thesis
    proof (cases "mem_index s j <s 0")
      case False
      show ?thesis
      proof (cases "mem_index s j = 0")
        case True
        then show ?thesis using False by (simp add: step scan_half_def)
      next
        case nz: False
        have "0 < sint (mem_index s i)"
        proof (rule ccontr)
          assume "\<not> ?thesis"
          then have "j = i" by (simp add: j_def sgt_0_iff)
          with False nz \<open>\<not> ?thesis\<close> show False by (simp add: sign_tests)
        qed
        then have "uint i < uint j" using uj by simp
        then have "\<exists>r. mem_alloc_loop k j s = Some r" using ui by (intro less) simp
        with False nz show ?thesis by (simp add: step scan_half_def)
      qed
    next
      case True
      show ?thesis
      proof (cases "k < f \<or> f = k \<or> mem_index s (j + f) = 0")
        case True
        with \<open>mem_index s j <s 0\<close> show ?thesis by (auto simp: step scan_half_def f_def [symmetric] Let_def)
      next
        case False
        have "- 2147483648 < sint (mem_index s j)"
        proof (rule ccontr)
          assume "\<not> ?thesis"
          then have "sint (mem_index s j) = - 2147483648" using sint_i32_bounds [of "mem_index s j"] by simp
          then have "mem_index s j = word_of_int (- 2147483648)" by (metis word_of_int_sint)
          then have "f = 18446744071562067968" by (simp add: f_def)
          with k False show False by (simp add: word_less_def)
        qed
        then have "uint f = - sint (mem_index s j)" "0 < uint f"
          using True sint_i32_bounds [of "mem_index s j"]
          by (simp_all add: f_def sign_tests sint_minus_i32 uint_scast_nonneg)
        moreover have "uint (j + f) = uint j + uint f"
          using calculation ui uj x n sint_i32_bounds(1) [of "mem_index s j"]
          by (subst uint_add_bounded) (auto split: if_splits)
        ultimately have "uint i < uint (j + f)" using uj by (auto split: if_splits)
        then have "\<exists>r. mem_alloc_loop k (j + f) s = Some r" using ui by (intro less) simp
        with False True show ?thesis by (auto simp: step scan_half_def f_def [symmetric] Let_def)
      qed
    qed
  qed (simp add: mem_alloc_loop_unfold)
qed

section \<open>A request for no blocks\<close>

text \<open>A scan that starts at allocated runs passes over them.\<close>

lemma scan_used:
  assumes "layout (cell s) (uint i) ps" and "\<forall>r \<in> set ps. 0 < r"
    and "uint i + extent ps < uint (n_mem_blocks s)" and "uint (n_mem_blocks s) < 2147483648"
  shows "scan_half k i s = scan_half k (i + word_of_int (extent ps)) s"
  using assms
proof (induction ps arbitrary: i)
  case (Cons r ps)
  have r: "sint (mem_index s i) = r" "0 < r"
    using Cons.prems(1,2) by (simp_all add: run_at_def cell_uint)
  have bnd: "uint i + r + extent ps < uint (n_mem_blocks s)" using Cons.prems(3) r(2) by simp
  then have "i < n_mem_blocks s"
    using r(2) extent_nonneg [of ps] by (simp add: word_less_def)
  then have 1: "scan_half k i s = scan_half k (i + i32_to_u64 (mem_index s i)) s"
    using r by (simp add: scan_half_def [of k i] sign_tests mem_alloc_loop_unfold)
  have u: "uint (i + i32_to_u64 (mem_index s i)) = uint i + r"
    using r bnd Cons.prems(4) extent_nonneg [of ps] by (subst uint_add_scast) simp_all
  have "scan_half k (i + i32_to_u64 (mem_index s i)) s =
      scan_half k (i + i32_to_u64 (mem_index s i) + word_of_int (extent ps)) s"
    using Cons.prems r(2) bnd by (intro Cons.IH) (simp_all add: u)
  moreover have "i + i32_to_u64 (mem_index s i) + word_of_int (extent ps) = i + word_of_int (extent (r # ps))"
    using r by (simp add: scast_eq wi_hom_add [symmetric] add.assoc)
  ultimately show ?case using 1 by simp
qed simp

lemma loop_scan: "i < n_mem_blocks s \<Longrightarrow> mem_alloc_loop k i s = scan_half k i s"
  by (cases "0 <s mem_index s i")
     (auto simp: mem_alloc_loop_unfold [of k i] scan_half_def [of k i] sign_tests)

lemma alloc_scan_used:
  assumes "layout (cell s) 0 ps" and "\<forall>r \<in> set ps. 0 < r"
    and "extent ps < uint (n_mem_blocks s)" and "uint (n_mem_blocks s) < 2147483648"
  shows "mem_alloc_loop k 0 s = scan_half k (word_of_int (extent ps)) s"
proof -
  have "0 < n_mem_blocks s" using assms(3) extent_nonneg [of ps] by (simp add: word_less_def)
  then show ?thesis using scan_used [of s 0 ps k] assms by (simp add: loop_scan)
qed

lemma carve_zero_cells:
  assumes i: "0 < uint i" "uint i + uint f < 2147483648" and f: "0 < uint f"
    and j: "0 \<le> j" "j < 18446744073709551616"
  shows "cell (carve i f 0 s) j = (if j = uint i \<or> j = uint i - 1 then 0
      else if j = uint i + uint f - 1 then - uint f else cell s j)"
proof -
  have "uint (i + f - 1) = uint i + uint f - 1" using i f by (simp add: uint_last_bounded)
  moreover have "uint (i - 1) = uint i - 1" using i by (simp add: uint_sub_bounded)
  moreover have "sint (u64_to_i32 (- f)) = - uint f" using i by (simp add: sint_trunc_minus_u64)
  ultimately show ?thesis using j by (simp add: carve_def Let_def)
qed

text \<open>Allocating 0 blocks erases the border of the first free run; every later request panics.\<close>

lemma alloc_zero:
  assumes rep: "mem_rep s (ps @ r # qs)" and used: "ps \<noteq> []" "\<forall>x \<in> set ps. 0 < x" and r: "r < 0"
  obtains t where "mem_alloc 0 s = Inr (block_addr s (extent ps), t)"
    and "\<And>k. mem_alloc k t = Inl (index_corrupted, t)"
proof -
  note b = mem_rep_bounds [OF rep]
  let ?e = "extent ps"
  define i :: u64 where "i = word_of_int ?e"
  define f where "f = i32_to_u64 (- mem_index s i)"
  define t where "t = carve i f 0 s"
  have i: "uint i = ?e" using b r by (simp add: i_def uint_of_block)
  have e: "0 < ?e" using prev_cell(2) [OF mem_rep_lay [OF rep] used(1)] .
  have ir: "sint (mem_index s i) = r"
    using mem_rep_run [OF rep] by (simp add: run_at_def cell_uint [symmetric] i)
  have f: "uint f = - r"
    using b r ir by (simp add: f_def sint_minus_i32 uint_scast_nonneg)
  have l: "layout (cell s) 0 ps" using rep by (simp add: mem_rep_def mem_lay_def)
  have "mem_alloc_loop 0 0 s = scan_half 0 i s"
    unfolding i_def using b r used(2) by (intro alloc_scan_used l) simp_all
  also have "\<dots> = Some (Inr (HEAP_START_ADDR s + i * MEM_BLOCK_SIZE, t))"
    using ir r f by (simp add: scan_half_def f_def [symmetric] t_def slt_0_iff word_less_def Let_def)
  finally have res: "mem_alloc 0 s = Inr (block_addr s ?e, t)"
    by (simp add: mem_alloc_def block_addr_def i_def)
  have cells: "cell t j = (if j = ?e \<or> j = ?e - 1 then 0 else if j = ?e - r - 1 then r else cell s j)"
    if "0 \<le> j" "j < 18446744073709551616" for j
    unfolding t_def using carve_zero_cells [of i f j s] that b r e i f by simp
  have nt: "n_mem_blocks t = n_mem_blocks s" by (simp add: t_def carve_def Let_def)
  obtain ps' a where ps: "ps = ps' @ [a]" using used(1) by (metis append_butlast_last_id)
  have a: "0 < a" using used(2) ps by simp
  have e': "?e = extent ps' + a" using a ps by simp
  have "layout (cell t) 0 ps'"
  proof (rule layout_cong)
    show "layout (cell s) 0 ps'" using l ps by simp
    show "cell t j = cell s j" if "0 \<le> j" "j < 0 + extent ps'" for j
      using that cells [of j] b r a by (simp add: e')
  qed
  then have loop: "mem_alloc_loop k 0 t = scan_half k (word_of_int (extent ps')) t" for k
    using b r a used(2) by (intro alloc_scan_used) (simp_all add: nt ps)
  have zero: "mem_index t i = 0" using cells [of ?e] b r by (simp add: eq_0_iff_sint cell_uint [symmetric] i)
  have stop: "scan_half k i t = Some (Inl (index_corrupted, t))" for k
    using zero by (simp add: scan_half_def)
  have "scan_half k (word_of_int (extent ps')) t = Some (Inl (index_corrupted, t))" for k
  proof (cases "a = 1")
    case True
    then have "cell t (extent ps') = 0" using cells [of "extent ps'"] b r extent_nonneg [of ps'] by (simp add: e')
    then show ?thesis by (simp add: scan_half_def cell_def sign_tests)
  next
    case False
    have "cell s (extent ps') = a" using l ps by (simp add: run_at_def)
    then have ca: "sint (mem_index t (word_of_int (extent ps'))) = a"
      using cells [of "extent ps'"] b r a False extent_nonneg [of ps'] by (simp add: e' cell_def)
    have "(word_of_int (extent ps') :: u64) < n_mem_blocks t"
      using b r a extent_nonneg [of ps'] by (simp add: word_less_def uint_of_block nt e')
    moreover have "word_of_int (extent ps') + i32_to_u64 (mem_index t (word_of_int (extent ps'))) = i"
      by (simp only: scast_eq ca i_def e' wi_hom_add)
    ultimately have "scan_half k (word_of_int (extent ps')) t = scan_half k i t"
      using ca a by (simp add: loop_scan [symmetric] mem_alloc_loop_unfold [of k "word_of_int (extent ps')"] sgt_0_iff)
    then show ?thesis by (simp add: stop)
  qed
  then have "mem_alloc k t = Inl (index_corrupted, t)" for k
    by (simp add: mem_alloc_def loop)
  with res show thesis by (rule that)
qed

section \<open>A concrete heap\<close>

text \<open>Four blocks at address 4096, as \<open>__mem_init\<close> leaves them.\<close>

definition raw_heap :: mem_state where
  "raw_heap = \<lparr>mem_index = (\<lambda>_. 0), n_mem_blocks = 0, mem_index_len_in_blocks = 0,
     HEAP_START_ADDR = 4096, HEAP_END_ADDR = 4352\<rparr>"

definition small_heap :: mem_state where
  "small_heap = mem_init raw_heap"

lemma raw_heap_blocks: "heap_blocks raw_heap = 4" "index_blocks 4 = 1"
  by (simp_all add: heap_blocks_def raw_heap_def index_blocks_def)

lemma raw_heap_bounds:
  "0 < uint (HEAP_START_ADDR raw_heap)" "HEAP_START_ADDR raw_heap \<le> HEAP_END_ADDR raw_heap"
  by (simp_all add: raw_heap_def)

lemma small_heap_rep: "mem_rep small_heap [1, -3]"
  using mem_init_layout(1) [OF raw_heap_bounds] by (simp add: small_heap_def raw_heap_blocks)

lemma mem_init_same_platform:
  "HEAP_START_ADDR (mem_init s) = HEAP_START_ADDR s" "HEAP_END_ADDR (mem_init s) = HEAP_END_ADDR s"
  "n_mem_blocks (mem_init s) = (HEAP_END_ADDR s - HEAP_START_ADDR s) div 64"
  by (simp_all add: mem_init_def Let_def same_heap_fields [OF mem_zero_same])

lemma small_heap_fields:
  "n_mem_blocks small_heap = 4" "HEAP_START_ADDR small_heap = 4096" "HEAP_END_ADDR small_heap = 4352"
  by (simp_all add: small_heap_def mem_init_same_platform raw_heap_def)

lemma small_heap_sentinel: "cell small_heap 4 = 0"
  by (simp add: small_heap_def mem_init_def Let_def raw_heap_def cell_def mem_zero_loop.simps set_index_def)

lemma small_heap_owns: "owns small_heap {(4096, 1)}"
  unfolding owns_def
  by (rule exI [of _ "[1, -3]"])
     (simp add: small_heap_rep small_heap_fields small_heap_sentinel block_addr_def)

text \<open>The index, and two allocations of two blocks each.\<close>

definition paired_heap :: mem_state where
  "paired_heap = \<lparr>mem_index = (\<lambda>_. 2)(0 := 1), n_mem_blocks = 5, mem_index_len_in_blocks = 1,
     HEAP_START_ADDR = 4096, HEAP_END_ADDR = 4416\<rparr>"

section \<open>Properties of the allocator\<close>

text \<open>C24. \<open>__mem_init\<close> establishes the representation: for every heap that starts at a non-null
  address and has between 2 and \<open>2\<^sup>3\<^sup>1 - 1\<close> blocks, the index afterwards describes exactly two runs,
  the allocated blocks of the index itself, and one free run with all remaining blocks.\<close>

theorem mem_init_rep:
  assumes "0 < uint (HEAP_START_ADDR s)" and "HEAP_START_ADDR s \<le> HEAP_END_ADDR s"
    and "2 \<le> heap_blocks s" and "heap_blocks s < 2147483648"
  shows "mem_rep (mem_init s)
     [index_blocks (heap_blocks s), - (heap_blocks s - index_blocks (heap_blocks s))]"
  using assms by (rule mem_init_layout(1))

theorem mem_init_rep_witness: "mem_rep (mem_init raw_heap) [1, -3]"
  using mem_init_rep [OF raw_heap_bounds] by (simp add: raw_heap_blocks)

text \<open>C11. \<open>__mem_alloc\<close> implements first fit: when a free run of at least the requested size exists,
  the call returns the address of the first such run, its index afterwards describes the run list
  in which the first \<open>nblocks\<close> blocks of that run are allocated (the whole run when it fits exactly),
  and nothing but the index is written.\<close>

theorem mem_alloc_first_fit:
  assumes "mem_rep s rs" and "0 < uint k" and "first_fit (uint k) 0 rs = Some (j, qs)"
  shows "\<exists>t. mem_alloc k s = Inr (block_addr s j, t) \<and> mem_rep t qs \<and> same_heap s t"
  by (rule mem_alloc_Some [OF assms]) blast

theorem mem_alloc_first_fit_witness:
  "\<exists>t. mem_alloc 2 small_heap = Inr (block_addr small_heap 1, t) \<and> mem_rep t [1, 2, -1] \<and>
     same_heap small_heap t"
  by (rule mem_alloc_first_fit [OF small_heap_rep]) simp_all

text \<open>The out-of-memory path of \<open>__mem_alloc\<close>: when no free run is large enough, what the call
  does is decided by the entry one past the end of the index, which the scan reads. If it is 0 the
  kernel panics with ``Memory index corrupted!'' although the index is intact; only if it is positive
  does the call return the null pointer.\<close>

lemma mem_alloc_no_fit:
  assumes "mem_rep s rs" and "0 < uint k" and "first_fit (uint k) 0 rs = None"
  shows "(cell s (uint (n_mem_blocks s)) = 0 \<longrightarrow> mem_alloc k s = Inl (index_corrupted, s)) \<and>
    (0 < cell s (uint (n_mem_blocks s)) \<longrightarrow> mem_alloc k s = Inr (0, s))"
  using mem_alloc_None [OF assms] by (auto simp: no_fit_result_def)

lemma mem_alloc_no_fit_witness: "mem_alloc 4 small_heap = Inl (index_corrupted, small_heap)"
  using mem_alloc_no_fit [OF small_heap_rep, of 4] by (simp add: small_heap_fields small_heap_sentinel)

text \<open>C12. \<open>__mem_free\<close> on the address of an allocated run returns 0 and turns the run into a free one,
  merged with the free runs on either side of it, so that the index again describes a list without
  neighbouring free runs; nothing but the index is written.\<close>

theorem mem_free_releases:
  assumes "mem_rep s (ps @ r # qs)" and "0 < r"
  shows "\<exists>t. mem_free (block_addr s (extent ps)) s = (0, t) \<and> mem_rep t (release ps r qs) \<and>
    same_heap s t"
  by (rule mem_free_rep [OF assms]) blast

theorem mem_free_releases_witness:
  "\<exists>t. mem_free (block_addr small_heap 0) small_heap = (0, t) \<and> mem_rep t [-4] \<and> same_heap small_heap t"
  using mem_free_releases [of small_heap "[]" 1 "[-3]"] small_heap_rep by (simp add: release_def)

lemma mem_free_guard:
  assumes rep: "mem_rep s rs" and j: "0 \<le> j" "j < uint (n_mem_blocks s)" and c: "cell s j \<le> 0"
  shows "mem_free (block_addr s j) s = (FREE_NOT_ALLOCED, s)"
proof -
  have sh: "heap_shape s" using rep by (simp add: mem_rep_def mem_lay_def)
  have "mem_index s ((block_addr s j - HEAP_START_ADDR s) div MEM_BLOCK_SIZE) \<le>s 0"
    using c by (simp only: sle_0_iff cell_uint [symmetric] block_index(1) [OF sh j])
  with block_index(2-4) [OF sh j] show ?thesis by (simp add: mem_free_def)
qed

text \<open>C39. The rejecting branches of \<open>__mem_free\<close>, none of which changes the state: a pointer outside the
  heap gives -1, a pointer into the heap that is not block aligned gives -2, and a block-aligned pointer
  to any block of a free run, or to an inner block of an allocated run, gives -3.\<close>

theorem mem_free_rejects:
  assumes "mem_rep s (ps @ r # qs)"
  shows "(p < HEAP_START_ADDR s \<or> HEAP_END_ADDR s \<le> p \<longrightarrow> mem_free p s = (-1, s)) \<and>
    (HEAP_START_ADDR s \<le> p \<and> p < HEAP_END_ADDR s \<and> (p - HEAP_START_ADDR s) mod 64 \<noteq> 0 \<longrightarrow>
       mem_free p s = (-2, s)) \<and>
    (r < 0 \<and> extent ps \<le> j \<and> j < extent ps - r \<longrightarrow> mem_free (block_addr s j) s = (-3, s)) \<and>
    (0 < r \<and> extent ps < j \<and> j < extent ps + r - 1 \<longrightarrow> mem_free (block_addr s j) s = (-3, s))"
proof (intro conjI impI)
  note b = mem_rep_bounds [OF assms] and run = mem_rep_run [OF assms]
  show "mem_free (block_addr s j) s = (-3, s)" if "r < 0 \<and> extent ps \<le> j \<and> j < extent ps - r"
  proof -
    note h = that
    consider "j = extent ps" | "j = extent ps - r - 1" | "extent ps < j" "j < extent ps - r - 1"
      using h by linarith
    then have "cell s j \<le> 0" using run that by cases (simp_all add: run_at_def)
    then show ?thesis using mem_free_guard [OF assms] that b by (simp add: FREE_NOT_ALLOCED_def)
  qed
  show "mem_free (block_addr s j) s = (-3, s)" if "0 < r \<and> extent ps < j \<and> j < extent ps + r - 1"
  proof -
    have "cell s j = 0" using run that by (simp add: run_at_def)
    then show ?thesis using mem_free_guard [OF assms] that b by (simp add: FREE_NOT_ALLOCED_def)
  qed
qed (auto simp: mem_free_def Let_def FREE_OUT_OF_HEAP_def FREE_NOT_BLOCK_ALLIGNED_def dest: leD)

theorem mem_free_rejects_witness:
  "mem_free 0 small_heap = (-1, small_heap) \<and> mem_free 4097 small_heap = (-2, small_heap) \<and>
   mem_free (block_addr small_heap 2) small_heap = (-3, small_heap)"
  using mem_free_rejects [of small_heap "[1]" "-3" "[]" 0 0] mem_free_rejects [of small_heap "[1]" "-3" "[]" 4097 0]
    mem_free_rejects [of small_heap "[1]" "-3" "[]" 0 2] small_heap_rep
  by (simp add: small_heap_fields)

text \<open>C26. Allocation and release are inverse: freeing the block that \<open>__mem_alloc\<close> just returned gives
  back exactly the run list from before the allocation. The word behind the index, which both functions read
  when they come to the end of the heap, must not be negative.\<close>

theorem alloc_free_roundtrip:
  assumes "mem_rep s rs" and "0 < uint k" and "0 \<le> cell s (uint (n_mem_blocks s))"
    and "mem_alloc k s = Inr (p, t)" and "p \<noteq> 0"
  shows "\<exists>u. mem_free p t = (0, u) \<and> mem_rep u rs"
proof -
  from mem_alloc_cases [OF assms(1,3,2,4)] assms(5) obtain j qs where
    f: "first_fit (uint k) 0 rs = Some (j, qs)" and p: "p = block_addr t j" and t: "mem_rep t qs"
    by (auto simp: same_heap_block_addr)
  obtain ps ss where qs: "qs = ps @ uint k # ss" "j = extent ps" "release ps (uint k) ss = rs"
    by (rule release_first_fit [OF f assms(2) mem_rep_coalesced [OF assms(1)]])
  show ?thesis
    by (rule mem_free_rep [of t ps "uint k" ss]) (use t qs p assms(2) in auto)
qed

theorem alloc_free_roundtrip_witness:
  "\<exists>p t u. mem_alloc 2 small_heap = Inr (p, t) \<and> p \<noteq> 0 \<and> mem_free p t = (0, u) \<and> mem_rep u [1, -3]"
proof -
  obtain t where t: "mem_alloc 2 small_heap = Inr (block_addr small_heap 1, t)"
    by (rule mem_alloc_Some [OF small_heap_rep, of 2]) simp_all
  have nz: "block_addr small_heap 1 \<noteq> 0" by (simp add: block_addr_def small_heap_fields)
  have "\<exists>u. mem_free (block_addr small_heap 1) t = (0, u) \<and> mem_rep u [1, -3]"
    by (rule alloc_free_roundtrip [OF small_heap_rep _ _ t nz])
       (simp_all add: small_heap_fields small_heap_sentinel)
  with t nz show ?thesis by blast
qed

text \<open>C25. The block that \<open>__mem_alloc\<close> returns overlaps no block allocated before (as byte ranges), and
  afterwards exactly the old blocks and the new one are allocated.\<close>

theorem mem_alloc_disjoint:
  assumes "owns s L" and "0 < uint k" and "mem_alloc k s = Inr (p, t)" and "p \<noteq> 0"
  shows "owns t (insert (p, uint k) L) \<and> (\<forall>(q, m) \<in> L. apart p (uint k) q m)"
  using assms by (rule mem_heap.alloc_fresh)

theorem mem_alloc_disjoint_witness:
  "\<exists>t. mem_alloc 2 small_heap = Inr (4160, t) \<and> owns t {(4160, 2), (4096, 1)} \<and> apart 4160 2 4096 1"
proof -
  obtain t where "mem_alloc 2 small_heap = Inr (block_addr small_heap 1, t)"
    by (rule mem_alloc_Some [OF small_heap_rep, of 2]) simp_all
  then have t: "mem_alloc 2 small_heap = Inr (4160, t)" by (simp add: block_addr_def small_heap_fields)
  with mem_alloc_disjoint [OF small_heap_owns _ t] show ?thesis by simp
qed

text \<open>C40. The allocation loop ends for every content of the index, corrupted or not, whenever the heap
  has at most \<open>2\<^sup>5\<^sup>8\<close> blocks (a 64-bit address space holds no more) and the request is below \<open>2\<^sup>6\<^sup>3\<close>.\<close>

theorem mem_alloc_terminates:
  assumes "uint (n_mem_blocks s) \<le> 2 ^ 58" and "uint k < 2 ^ 63"
  shows "\<exists>r. mem_alloc_loop k i s = Some r"
  using assms by (rule mem_alloc_loop_returns)

theorem mem_alloc_terminates_witness: "\<exists>r. mem_alloc_loop 5 0 small_heap = Some r"
  by (rule mem_alloc_terminates) (simp_all add: small_heap_fields)

text \<open>A request for 0 blocks destroys the index: it returns a non-null pointer to the first free run,
  and every allocation after it, of whatever size, panics.\<close>

lemma mem_alloc_zero_corrupts:
  assumes "mem_rep s (ps @ r # qs)" and "ps \<noteq> []" and "\<forall>x \<in> set ps. 0 < x" and "r < 0"
  shows "\<exists>t. mem_alloc 0 s = Inr (block_addr s (extent ps), t) \<and>
    (\<forall>k. mem_alloc k t = Inl (index_corrupted, t))"
  by (rule alloc_zero [OF assms]) blast

lemma mem_alloc_zero_corrupts_witness:
  "\<exists>t. mem_alloc 0 small_heap = Inr (block_addr small_heap 1, t) \<and>
    (\<forall>k. mem_alloc k t = Inl (index_corrupted, t))"
  using mem_alloc_zero_corrupts [of small_heap "[1]" "-3" "[]"] small_heap_rep by simp

lemma free_inner:
  assumes rep: "mem_rep s (ps @ 2 # 2 # qs)"
  obtains t where "mem_free (block_addr s (extent ps + 1)) s = (0, t)" and "same_heap s t"
    and "cell t (extent ps) = 2" and "cell t (extent ps + 1) = -2" and "cell t (extent ps + 2) = -2"
proof -
  let ?a = "extent ps"
  have rep': "mem_rep s ((ps @ [2]) @ 2 # qs)" using rep by simp
  have sh: "heap_shape s" using rep by (simp add: mem_rep_def mem_lay_def)
  have b: "0 \<le> ?a" "?a + 4 \<le> uint (n_mem_blocks s)" "uint (n_mem_blocks s) < 2147483648"
    using mem_rep_bounds [OF rep'] extent_nonneg [of ps] by simp_all
  have c: "cell s ?a = 2" "cell s (?a + 1) = 2" "cell s (?a + 2) = 2" "cell s (?a + 3) = 2"
    using mem_rep_run [OF rep] mem_rep_run [OF rep'] by (simp_all add: run_at_def add.commute)
  define e where "e = (block_addr s (?a + 1) - HEAP_START_ADDR s) div MEM_BLOCK_SIZE"
  have j: "0 \<le> ?a + 1" "?a + 1 < uint (n_mem_blocks s)" using b by simp_all
  note guards = block_index(2-4) [OF sh j]
  have e: "uint e = ?a + 1" using block_index(1) [OF sh j] by (simp add: e_def)
  have m: "sint (mem_index s e) = 2" using c e by (simp add: cell_uint [symmetric])
  then have mw: "mem_index s e = 2" using signed_word_eqI [of "mem_index s e" 2] by simp
  have u: "uint (e + 2) = ?a + 3" "uint (e + 2 - 1) = ?a + 2" "uint (e - 1) = ?a"
    using b e by (simp_all add: uint_add_bounded uint_last_bounded uint_sub_bounded)
  have m2: "sint (mem_index s (e + 2 - 1)) = 2" "sint (mem_index s (e - 1)) = 2"
      "sint (mem_index s (e + 2)) = 2"
    using c by (simp_all only: cell_uint [symmetric] u)
  then have mw2: "mem_index s (e + 2 - 1) = 2"
    using signed_word_eqI [of "mem_index s (e + 2 - 1)" 2] by simp
  have "mem_free (block_addr s (?a + 1)) s = (0, free_alone e 2 s)"
    unfolding mem_free_def e_def [symmetric] using guards mw m2 mw2
    by (simp add: Let_def sle_0_iff slt_0_iff)
  moreover have "cell (free_alone e 2 s) i = (if i = ?a + 1 \<or> i = ?a + 2 then -2 else cell s i)"
    if "0 \<le> i" "i < 18446744073709551616" for i
    using that e u by (simp add: free_alone_def Let_def)
  moreover have "same_heap s (free_alone e 2 s)" by (simp add: free_alone_def Let_def)
  ultimately show thesis using that c b by simp
qed

text \<open>The check for pointers that are not the start of an allocation is incomplete: with two
  neighbouring allocations of two blocks each, freeing the second block of the first one is accepted.
  It marks the end of the first allocation and the start of the second one as free, so that the owner
  of the second can no longer release it.\<close>

lemma mem_free_accepts_inner_pointer:
  assumes "mem_rep s (ps @ 2 # 2 # qs)"
  shows "\<exists>t. mem_free (block_addr s (extent ps + 1)) s = (0, t) \<and>
    cell t (extent ps) = 2 \<and> cell t (extent ps + 1) = -2 \<and> cell t (extent ps + 2) = -2 \<and>
    mem_free (block_addr s (extent ps + 2)) t = (FREE_NOT_ALLOCED, t)"
proof -
  obtain t where t: "mem_free (block_addr s (extent ps + 1)) s = (0, t)" "same_heap s t"
    "cell t (extent ps) = 2" "cell t (extent ps + 1) = -2" "cell t (extent ps + 2) = -2"
    by (rule free_inner [OF assms])
  have sh: "heap_shape t"
    using assms t(2) by (simp add: mem_rep_def mem_lay_def same_heap_shape)
  have j: "0 \<le> extent ps + 2" "extent ps + 2 < uint (n_mem_blocks t)"
    using mem_rep_bounds [of s "ps @ [2]" 2 qs] assms t(2) extent_nonneg [of ps]
    by (simp_all add: same_heap_fields)
  have "mem_index t ((block_addr t (extent ps + 2) - HEAP_START_ADDR t) div MEM_BLOCK_SIZE) \<le>s 0"
    by (simp only: sle_0_iff cell_uint [symmetric] block_index(1) [OF sh j] t(5))
  with block_index(2-4) [OF sh j] have "mem_free (block_addr t (extent ps + 2)) t = (FREE_NOT_ALLOCED, t)"
    by (simp add: mem_free_def)
  with t show ?thesis by (simp add: same_heap_block_addr)
qed

lemma mem_free_accepts_inner_pointer_witness:
  "mem_rep paired_heap ([1] @ 2 # 2 # []) \<and>
   (\<exists>t. mem_free (block_addr paired_heap 2) paired_heap = (0, t) \<and> cell t 3 = -2)"
proof -
  have "mem_rep paired_heap ([1] @ 2 # 2 # [])"
    by (simp add: paired_heap_def mem_rep_def mem_lay_def heap_shape_def run_at_def cell_def)
  with mem_free_accepts_inner_pointer [OF this] show ?thesis by auto
qed

text \<open>Any block-aligned pointer to an allocated run is accepted, also the one to the allocator's own
  index: after \<open>__mem_init\<close>, freeing the start of the heap returns 0 and makes every block free, and
  the next one-block allocation hands out the memory the index lies in.\<close>

lemma mem_free_releases_index:
  assumes "0 < uint (HEAP_START_ADDR s)" and "HEAP_START_ADDR s \<le> HEAP_END_ADDR s"
    and "2 \<le> heap_blocks s" and "heap_blocks s < 2147483648"
  shows "\<exists>t u. mem_free (HEAP_START_ADDR s) (mem_init s) = (0, t) \<and> mem_rep t [- heap_blocks s] \<and>
    mem_alloc 1 t = Inr (HEAP_START_ADDR s, u)"
proof -
  let ?n = "heap_blocks s" and ?s = "mem_init s"
  let ?l = "index_blocks ?n"
  have l: "0 < ?l" "?l < ?n" unfolding index_blocks_def using assms(3) by linarith+
  have rep: "mem_rep ?s ([] @ ?l # [- (?n - ?l)])" using mem_init_layout(1) [OF assms] by simp
  obtain t where t: "mem_free (block_addr ?s (extent [])) ?s = (0, t)"
    "mem_rep t (release [] ?l [- (?n - ?l)])" "same_heap ?s t"
    by (rule mem_free_rep [OF rep l(1)])
  have r: "mem_rep t [- ?n]" using t(2) l by (simp add: release_def)
  have "first_fit (uint (1 :: u64)) 0 [- ?n] = Some (0, [1, 1 - ?n])" using assms(3) by simp
  then obtain u where "mem_alloc 1 t = Inr (block_addr t 0, u)"
    by (rule mem_alloc_Some [OF r, of 1, rotated]) simp_all
  with t(1) r t(3) show ?thesis
    by (auto simp: block_addr_def same_heap_fields mem_init_same_platform)
qed

lemma mem_free_releases_index_witness:
  "\<exists>t u. mem_free 4096 small_heap = (0, t) \<and> mem_rep t [-4] \<and> mem_alloc 1 t = Inr (4096, u)"
proof -
  have "HEAP_START_ADDR raw_heap = 4096" by (simp add: raw_heap_def)
  with mem_free_releases_index [OF raw_heap_bounds] show ?thesis
    by (simp add: raw_heap_blocks small_heap_def)
qed

end
