(* ===== verification/Kernel_State.thy ===== *)
theory Kernel_State
  imports Print Lists Heap_Props
begin

text \<open>
  The state of the kernel above the allocator and the console: the structures that \<open>h/thread.h\<close>,
  \<open>h/scheduler.h\<close>, \<open>h/semaphore.h\<close> and \<open>h/kernel.h\<close> declare, the globals of \<open>scheduler.c\<close>,
  \<open>semaphore.c\<close> and \<open>main.c\<close>, and the control registers that the inline assembly reads and writes.

  Structures of one type live in one store from addresses to records, so pointers to the same structure
  are seen to alias. The list nodes embedded in threads and sleeping threads are in the common store
  \<open>list_nodes\<close>, at the address of the embedded field. Different types do not overlap: the code never
  reads a structure as another type.
\<close>

section \<open>Structures\<close>

record thread_t =
  thr_sp :: u64
  thr_bp :: u64
  thr_sstatus :: u64
  thr_sepc :: u64
  thr_time_left :: u64

record sleeping_thread_t =
  slp_thread :: u64
  slp_semaphore :: u64
  slp_delta :: u64

record sem_t =
  sem_val :: i32
  sem_init :: i32
  sem_waiting :: u64

record scheduler_t =
  user_thread_count :: u64
  ready_threads :: u64
  sleeping_threads :: u64
  thread_current :: u64
  sch_kernel_main :: u64

text \<open>The saved registers \<open>x0\<close> to \<open>x31\<close>, also used for the register file itself.\<close>

record context_t =
  x_zero :: u64  x_ra :: u64  x_sp :: u64  x_gp :: u64
  x_tp :: u64  x_t0 :: u64  x_t1 :: u64  x_t2 :: u64
  x_s0 :: u64  x_s1 :: u64  x_a0 :: u64  x_a1 :: u64
  x_a2 :: u64  x_a3 :: u64  x_a4 :: u64  x_a5 :: u64
  x_a6 :: u64  x_a7 :: u64  x_s2 :: u64  x_s3 :: u64
  x_s4 :: u64  x_s5 :: u64  x_s6 :: u64  x_s7 :: u64
  x_s8 :: u64  x_s9 :: u64  x_s10 :: u64  x_s11 :: u64
  x_t3 :: u64  x_t4 :: u64  x_t5 :: u64  x_t6 :: u64

section \<open>The kernel\<close>

text \<open>
  \<open>words\<close> is the memory that the kernel writes through the handles passed by its callers. The symbols of
  the functions whose addresses the code takes, and the values that the interrupt controller's
  \<open>plic_claim\<close> returns, are fields that no operation writes.
\<close>

record kernel = io_state +
  list_nodes :: nodes
  threads :: "u64 \<Rightarrow> thread_t"
  contexts :: "u64 \<Rightarrow> context_t"
  sleeping :: "u64 \<Rightarrow> sleeping_thread_t"
  sems :: "u64 \<Rightarrow> sem_t"
  words :: "u64 \<Rightarrow> u64"
  scheduler :: u64
  sched :: scheduler_t
  first_semaphore :: u64
  semaphores :: "u64 list"
  sem_cnt :: u64
  kernel_main :: u64
  user_main_addr :: u64
  system_stack :: u64
  csr_sscratch :: u64
  csr_sepc :: u64
  csr_sstatus :: u64
  csr_scause :: u64
  csr_stvec :: u64
  csr_sip :: u64
  reg_gp :: u64
  reg_tp :: u64
  thread_wrapper_addr :: u64
  irq_wrap_addr :: u64
  userMain_addr :: u64
  plic_irqs :: "nat \<Rightarrow> i32"
  plic_claims :: nat
  plic_completed :: "i32 list"

text \<open>Assignments through pointers.\<close>

definition upd_thread :: "u64 \<Rightarrow> (thread_t \<Rightarrow> thread_t) \<Rightarrow> kernel \<Rightarrow> kernel" where
  "upd_thread t f s = s\<lparr>threads := (threads s)(t := f (threads s t))\<rparr>"

definition upd_context :: "u64 \<Rightarrow> (context_t \<Rightarrow> context_t) \<Rightarrow> kernel \<Rightarrow> kernel" where
  "upd_context p f s = s\<lparr>contexts := (contexts s)(p := f (contexts s p))\<rparr>"

definition upd_sleeper :: "u64 \<Rightarrow> (sleeping_thread_t \<Rightarrow> sleeping_thread_t) \<Rightarrow> kernel \<Rightarrow> kernel" where
  "upd_sleeper p f s = s\<lparr>sleeping := (sleeping s)(p := f (sleeping s p))\<rparr>"

definition upd_sem :: "u64 \<Rightarrow> (sem_t \<Rightarrow> sem_t) \<Rightarrow> kernel \<Rightarrow> kernel" where
  "upd_sem p f s = s\<lparr>sems := (sems s)(p := f (sems s p))\<rparr>"

definition upd_sched :: "(scheduler_t \<Rightarrow> scheduler_t) \<Rightarrow> kernel \<Rightarrow> kernel" where
  "upd_sched f s = s\<lparr>sched := f (sched s)\<rparr>"

definition upd_nodes :: "(nodes \<Rightarrow> nodes) \<Rightarrow> kernel \<Rightarrow> kernel" where
  "upd_nodes f s = s\<lparr>list_nodes := f (list_nodes s)\<rparr>"

definition set_a0 :: "u64 \<Rightarrow> context_t \<Rightarrow> context_t" where
  "set_a0 v c = c\<lparr>x_a0 := v\<rparr>"

lemmas upd_defs = upd_thread_def upd_context_def upd_sleeper_def upd_sem_def upd_sched_def
  upd_nodes_def set_a0_def

text \<open>Constants of \<open>lib/hw.h\<close>.\<close>

definition DEFAULT_STACK_SIZE :: u64 where [simp]: "DEFAULT_STACK_SIZE = 4096"
definition DEFAULT_TIME_SLICE :: u64 where [simp]: "DEFAULT_TIME_SLICE = 2"

text \<open>The blocks that a structure of \<open>n\<close> bytes takes.\<close>

definition size_in_blocks :: "u64 \<Rightarrow> u64" where
  "size_in_blocks n = (n + MEM_BLOCK_SIZE - 1) div MEM_BLOCK_SIZE"

definition sizeof_thread :: u64 where "sizeof_thread = 56"
definition sizeof_sleeping_thread :: u64 where "sizeof_sleeping_thread = 40"
definition sizeof_sem :: u64 where "sizeof_sem = 16"
definition sizeof_scheduler :: u64 where "sizeof_scheduler = 40"

lemma struct_blocks [simp]:
  "size_in_blocks sizeof_thread = 1" "size_in_blocks sizeof_sleeping_thread = 1"
  "size_in_blocks sizeof_sem = 1" "size_in_blocks sizeof_scheduler = 1"
  by (simp_all add: size_in_blocks_def sizeof_thread_def sizeof_sleeping_thread_def sizeof_sem_def
    sizeof_scheduler_def)

text \<open>The list node of a sleeping thread lies 24 bytes into its structure.\<close>

definition sleeper_node :: "u64 \<Rightarrow> u64" where
  "sleeper_node p = p + 24"

definition node_sleeper :: "u64 \<Rightarrow> u64" where
  "node_sleeper q = q - 24"

lemma node_sleeper_node [simp]: "node_sleeper (sleeper_node p) = p"
  and sleeper_node_sleeper [simp]: "sleeper_node (node_sleeper p) = p"
  by (simp_all add: sleeper_node_def node_sleeper_def)

lemma sleeper_node_eq [simp]: "sleeper_node p = sleeper_node q \<longleftrightarrow> p = q"
  by (simp add: sleeper_node_def)

lemma inj_sleeper_node: "inj sleeper_node"
  by (simp add: inj_def)


section \<open>The allocator seen from the kernel\<close>

text \<open>Allocation and deallocation write the index only, whatever they are called on.\<close>

lemma mem_alloc_loop_same:
  assumes "mem_alloc_loop k i s = Some (Inr (p, t))"
  shows "same_heap s t"
proof -
  have "mem_alloc_loop k i s = Some r \<Longrightarrow> (\<forall>p t. r = Inr (p, t) \<longrightarrow> same_heap s t)" for r
    by (erule mem_alloc_loop.raw_induct [rotated])
       (auto simp: Let_def carve_def take_whole_def split: if_splits)
  from this [OF assms] show ?thesis by simp
qed

lemma mem_alloc_same: "mem_alloc k s = Inr (p, t) \<Longrightarrow> same_heap s t"
  by (auto simp: mem_alloc_def returned_def intro: mem_alloc_loop_same split: option.splits)

lemma mem_free_same: "mem_free p s = (r, t) \<Longrightarrow> same_heap s t"
  by (auto simp: mem_free_def Let_def free_alone_def join_prev_def join_next_def split: if_splits prod.splits)

lemma owns_cong:
  assumes "mem_state.truncate t = mem_state.truncate s"
  shows "owns t L = owns s L"
proof -
  have f: "mem_index t = mem_index s" "n_mem_blocks t = n_mem_blocks s"
    "HEAP_START_ADDR t = HEAP_START_ADDR s" "HEAP_END_ADDR t = HEAP_END_ADDR s"
    using assms by (simp_all add: mem_state.truncate_def)
  then have "cell t = cell s" "block_addr t = block_addr s" "heap_shape t = heap_shape s"
    by (simp_all add: cell_def [abs_def] block_addr_def [abs_def] heap_shape_def)
  with f show ?thesis by (simp add: owns_def mem_rep_def mem_lay_def)
qed

lemma heap_upd [simp]:
  "mem_state.truncate (upd_thread t f s) = mem_state.truncate s"
  "mem_state.truncate (upd_context p g s) = mem_state.truncate s"
  "mem_state.truncate (upd_sleeper p h s) = mem_state.truncate s"
  "mem_state.truncate (upd_sem p k s) = mem_state.truncate s"
  "mem_state.truncate (upd_sched l s) = mem_state.truncate s"
  "mem_state.truncate (upd_nodes m s) = mem_state.truncate s"
  by (simp_all add: upd_defs mem_state.truncate_def)

text \<open>The structures of the kernel take one block each and start at block boundaries, so the list nodes
  inside two different structures are different.\<close>

lemma apart_nodes:
  assumes "apart p 1 q 1" and "uint p + 64 < 2 ^ 64" and "uint q + 64 < 2 ^ 64"
  shows "p \<noteq> q" and "thread_node p \<noteq> sleeper_node q" and "thread_node p \<noteq> thread_node q"
proof -
  have n: "uint (p + 40) = uint p + 40" "uint (p + 24) = uint p + 24"
    "uint (q + 40) = uint q + 40" "uint (q + 24) = uint q + 24"
    using assms(2,3) by (simp_all add: uint_add_bounded)
  show "p \<noteq> q" using assms(1) by (auto simp: apart_def)
  then show "thread_node p \<noteq> thread_node q" by simp
  show "thread_node p \<noteq> sleeper_node q"
  proof
    assume "thread_node p = sleeper_node q"
    then have "uint (p + 40) = uint (q + 24)" by (simp only: thread_node_def sleeper_node_def)
    with n assms(1) show False by (simp add: apart_def)
  qed
qed

lemma owns_bound:
  assumes "owns s L" and "(p, k) \<in> L"
  shows "uint p + 64 * k < 2 ^ 64" and "0 < uint p"
proof -
  obtain rs j where r: "mem_rep s rs" "(j, k) \<in> live_at 0 rs" "p = block_addr s j"
    using assms by (auto simp: owns_def)
  have h: "heap_shape s" "extent rs = uint (n_mem_blocks s)" using r(1) by (simp_all add: mem_rep_def mem_lay_def)
  have b: "0 \<le> j" "j + k \<le> uint (n_mem_blocks s)" using live_at_bounds [OF r(2)] h(2) by simp_all
  have a: "uint p = uint (HEAP_START_ADDR s) + 64 * j" using live_addr(1) [OF r(1,2)] r(3) by simp
  have "uint (HEAP_START_ADDR s) + 64 * uint (n_mem_blocks s) \<le> uint (HEAP_END_ADDR s)" "0 < uint (HEAP_START_ADDR s)"
    using h(1) by (simp_all add: heap_shape_def)
  with a b show "uint p + 64 * k < 2 ^ 64" "0 < uint p"
    using uint_u64_bounds [of "HEAP_END_ADDR s"] by simp_all
qed

lemma owned_node:
  assumes "owns s L" and "(p, 1) \<in> L"
  shows "sleeper_node p \<noteq> 0" and "thread_node p \<noteq> 0"
proof -
  have b: "uint p + 64 < 2 ^ 64" "0 < uint p" using owns_bound [OF assms] by simp_all
  then have "uint (p + 24) = uint p + 24" "uint (p + 40) = uint p + 40" by (simp_all add: uint_add_bounded)
  with b have "0 < uint (p + 24)" "0 < uint (p + 40)" by simp_all
  then show "sleeper_node p \<noteq> 0" "thread_node p \<noteq> 0"
    unfolding sleeper_node_def thread_node_def by (metis less_irrefl uint_0_eq)+
qed

text \<open>Allocation does not depend on the rest of the kernel.\<close>

lemma owned_alloc_cong:
  assumes o: "owns s L" and k: "0 < uint k" and a: "mem_alloc k s = Inr (p, t)" and p: "p \<noteq> 0"
    and c: "mem_state.truncate s' = mem_state.truncate s"
  obtains t' where "mem_alloc k s' = Inr (p, t')" and "owns t' (insert (p, uint k) L)" and "same_heap s' t'"
proof -
  obtain rs where r: "mem_rep s rs" "0 \<le> cell s (uint (n_mem_blocks s))" using o by (auto simp: owns_def)
  obtain j qs where f: "first_fit (uint k) 0 rs = Some (j, qs)" "p = block_addr s j"
    using mem_alloc_cases [OF r k a] p by blast
  have e: "mem_index s' = mem_index s" "n_mem_blocks s' = n_mem_blocks s"
    "HEAP_START_ADDR s' = HEAP_START_ADDR s" "HEAP_END_ADDR s' = HEAP_END_ADDR s"
    using c by (simp_all add: mem_state.truncate_def)
  have "cell s' = cell s" by (simp add: cell_def [abs_def] e)
  with r(1) have r': "mem_rep s' rs" by (simp add: mem_rep_def mem_lay_def heap_shape_def e)
  obtain t' where t': "mem_alloc k s' = Inr (block_addr s' j, t')" "same_heap s' t'"
    by (rule mem_alloc_Some [OF r' k f(1)])
  have b: "block_addr s' j = p" by (simp add: f(2) block_addr_def e)
  have "owns s' L" using o owns_cong [OF c] by simp
  then have "owns t' (insert (p, uint k) L)"
    using mem_heap.alloc_fresh [OF _ k t'(1) [unfolded b] p] by blast
  with t' b show thesis by (intro that) simp_all
qed

section \<open>A sample state\<close>

text \<open>A heap of 256 blocks as \<open>__mem_init\<close> leaves it, no thread, no output pending: the state on which the
  witnesses of the properties evaluate the operations.\<close>

definition blank_context :: context_t where
  "blank_context = \<lparr>x_zero = 0, x_ra = 0, x_sp = 0, x_gp = 0, x_tp = 0, x_t0 = 0, x_t1 = 0, x_t2 = 0,
     x_s0 = 0, x_s1 = 0, x_a0 = 0, x_a1 = 0, x_a2 = 0, x_a3 = 0, x_a4 = 0, x_a5 = 0, x_a6 = 0,
     x_a7 = 0, x_s2 = 0, x_s3 = 0, x_s4 = 0, x_s5 = 0, x_s6 = 0, x_s7 = 0, x_s8 = 0, x_s9 = 0,
     x_s10 = 0, x_s11 = 0, x_t3 = 0, x_t4 = 0, x_t5 = 0, x_t6 = 0\<rparr>"

definition blank_kernel :: kernel where
  "blank_kernel = \<lparr>mem_index = (\<lambda>_. 0)(0 := 16, 15 := 16, 16 := -240, 255 := -240), n_mem_blocks = 256,
     mem_index_len_in_blocks = 16, HEAP_START_ADDR = 4096, HEAP_END_ADDR = 20480,
     console_receive_buffer_ptr = 0, console_send_buffer_ptr = 0,
     console_receive_buffer = (\<lambda>_. 0), console_send_buffer = (\<lambda>_. 0),
     console_receive_cnt = 0, console_send_cnt = 0, threads_waiting_for_input = 0,
     dev_status = (\<lambda>_. 0x20), dev_status_reads = 0, dev_rx = (\<lambda>n. of_nat (n + 65)),
     dev_rx_reads = 0, dev_tx = [], dev_test = None,
     list_nodes = (\<lambda>_. \<lparr>list_next = 0, list_prev = 0\<rparr>),
     threads = (\<lambda>_. \<lparr>thr_sp = 0, thr_bp = 0, thr_sstatus = 0, thr_sepc = 0, thr_time_left = 0\<rparr>),
     contexts = (\<lambda>_. blank_context),
     sleeping = (\<lambda>_. \<lparr>slp_thread = 0, slp_semaphore = 0, slp_delta = 0\<rparr>),
     sems = (\<lambda>_. \<lparr>sem_val = 0, sem_init = 0, sem_waiting = 0\<rparr>), words = (\<lambda>_. 0),
     scheduler = 0, sched = \<lparr>user_thread_count = 0, ready_threads = 0, sleeping_threads = 0,
       thread_current = 0, sch_kernel_main = 0\<rparr>,
     first_semaphore = 0, semaphores = replicate 10 0, sem_cnt = 0, kernel_main = 0,
     user_main_addr = 0x800, system_stack = 0, csr_sscratch = 0, csr_sepc = 0, csr_sstatus = 0,
     csr_scause = 0, csr_stvec = 0, csr_sip = 0, reg_gp = 0, reg_tp = 0,
     thread_wrapper_addr = 0x100, irq_wrap_addr = 0x200, userMain_addr = 0x300,
     plic_irqs = (\<lambda>_. 10), plic_claims = 0, plic_completed = []\<rparr>"

lemma word_of_int_eq_u64:
  assumes "0 \<le> j" and "j < 18446744073709551616"
  shows "word_of_int j = (w :: u64) \<longleftrightarrow> j = uint w"
proof -
  have "uint (word_of_int j :: u64) = j" using assms by (simp only: uint_word_of_int) simp
  then show ?thesis by (metis word_of_int_uint)
qed

lemma blank_kernel_cells:
  assumes "0 \<le> j" and "j < 18446744073709551616"
  shows "cell blank_kernel j =
    (if j = 0 \<or> j = 15 then 16 else if j = 16 \<or> j = 255 then -240 else 0)"
  using assms by (simp add: cell_def blank_kernel_def word_of_int_eq_u64)

lemma blank_kernel_heap: "mem_rep blank_kernel [16, -240]"
proof -
  have "run_at (cell blank_kernel) 0 16" "run_at (cell blank_kernel) 16 (-240)"
    by (simp_all add: run_at_def blank_kernel_cells)
  moreover have "heap_shape blank_kernel" "n_mem_blocks blank_kernel = 256"
    by (simp_all add: heap_shape_def blank_kernel_def)
  ultimately show ?thesis by (simp add: mem_rep_def mem_lay_def)
qed

lemma blank_kernel_fields:
  "n_mem_blocks blank_kernel = 256" "HEAP_START_ADDR blank_kernel = 4096" "HEAP_END_ADDR blank_kernel = 20480"
  by (simp_all add: blank_kernel_def)

lemma blank_kernel_owns: "owns blank_kernel {(4096, 16)}"
  unfolding owns_def
  by (rule exI [of _ "[16, -240]"])
     (simp add: blank_kernel_heap blank_kernel_cells blank_kernel_fields block_addr_def)

text \<open>The two allocations that creating a user thread makes, on this state.\<close>

lemma blank_kernel_alloc:
  obtains v where "mem_alloc 1 blank_kernel = Inr (5120, v)"
    and "mem_rep v [16, 1, -239]" and "same_heap blank_kernel v"
proof -
  obtain v where v: "mem_alloc 1 blank_kernel = Inr (block_addr blank_kernel 16, v)"
    "mem_rep v [16, 1, -239]" "same_heap blank_kernel v"
    by (rule mem_alloc_Some [OF blank_kernel_heap, of 1]) simp_all
  have "block_addr blank_kernel 16 = 5120" by (simp add: block_addr_def blank_kernel_fields)
  with v that show thesis by simp
qed

lemma blank_kernel_alloc_stack:
  obtains v w where "mem_alloc 64 blank_kernel = Inr (5120, v)" and "mem_alloc 1 v = Inr (9216, w)"
    and "same_heap blank_kernel v" and "same_heap v w"
proof -
  obtain v where v: "mem_alloc 64 blank_kernel = Inr (block_addr blank_kernel 16, v)"
    "mem_rep v [16, 64, -176]" "same_heap blank_kernel v"
    by (rule mem_alloc_Some [OF blank_kernel_heap, of 64]) simp_all
  obtain w where w: "mem_alloc 1 v = Inr (block_addr v 80, w)" "same_heap v w"
    by (rule mem_alloc_Some [OF v(2), of 1]) simp_all
  have "block_addr blank_kernel 16 = 5120" "block_addr v 80 = 9216"
    by (simp_all add: block_addr_def same_heap_fields [OF v(3)] blank_kernel_fields)
  with v w that show thesis by simp
qed

lemma blank_kernel_queues [simp]:
  "ready_threads (sched blank_kernel) = 0" "sleeping_threads (sched blank_kernel) = 0"
  "threads_waiting_for_input blank_kernel = 0"
  by (simp_all add: blank_kernel_def)

end
