(* ===== verification/Scheduler.thy ===== *)
theory Scheduler
  imports Kernel_State
begin

text \<open>
  The ready queue of \<open>src/scheduler.c\<close>: \<open>__scheduler_init\<close>, \<open>__scheduler_push\<close>, \<open>__scheduler_next\<close>,
  \<open>__scheduler_current\<close>, the user thread counter and \<open>__scheduler_queue_print\<close>. The delta list of sleeping
  threads is in the theory \<open>Timeout\<close>.
\<close>

section \<open>Operations\<close>

definition scheduler_init :: "u64 \<Rightarrow> kernel \<Rightarrow> kernel vres" where
  "scheduler_init km s =
     seqr (mem_alloc (size_in_blocks sizeof_scheduler) s) (\<lambda>(p, s).
     let s = s\<lparr>scheduler := p\<rparr> in
     if p = 0 then Inl (Panic (line ''Failed to allocate scheduler''), s)
     else Inr (upd_sched (\<lambda>c. c\<lparr>user_thread_count := 0, ready_threads := 0, sleeping_threads := 0,
                                sch_kernel_main := km, thread_current := km\<rparr>) s))"

definition scheduler_push :: "u64 \<Rightarrow> kernel \<Rightarrow> kernel" where
  "scheduler_push new_thread s =
     (let s = upd_thread new_thread (\<lambda>c. c\<lparr>thr_time_left := DEFAULT_TIME_SLICE\<rparr>) s;
          (head, ns) = ring_push (ready_threads (sched s)) (thread_node new_thread) (list_nodes s)
      in upd_sched (\<lambda>c. c\<lparr>ready_threads := head\<rparr>) (s\<lparr>list_nodes := ns\<rparr>))"

definition scheduler_next :: "kernel \<Rightarrow> u64 \<times> kernel" where
  "scheduler_next s =
     (if ready_threads (sched s) = 0
      then (sch_kernel_main (sched s), upd_sched (\<lambda>c. c\<lparr>thread_current := sch_kernel_main c\<rparr>) s)
      else
        (let next_thread = node_thread (ready_threads (sched s));
             (head, ns) = ring_pop (ready_threads (sched s)) (list_nodes s)
         in (next_thread,
             upd_sched (\<lambda>c. c\<lparr>ready_threads := head, thread_current := next_thread\<rparr>)
               (s\<lparr>list_nodes := ns\<rparr>))))"

definition scheduler_current :: "kernel \<Rightarrow> u64" where
  "scheduler_current s = thread_current (sched s)"

definition scheduler_user_thread_increment :: "kernel \<Rightarrow> kernel" where
  "scheduler_user_thread_increment = upd_sched (\<lambda>c. c\<lparr>user_thread_count := user_thread_count c + 1\<rparr>)"

definition scheduler_user_thread_decrement :: "kernel \<Rightarrow> kernel" where
  "scheduler_user_thread_decrement = upd_sched (\<lambda>c. c\<lparr>user_thread_count := user_thread_count c - 1\<rparr>)"

definition scheduler_user_thread_count :: "kernel \<Rightarrow> u64" where
  "scheduler_user_thread_count s = user_thread_count (sched s)"

text \<open>The do-while loop that the scheduler and the semaphores use to print the threads of a ring.\<close>

partial_function (option) print_ring_loop :: "u64 \<Rightarrow> u64 \<Rightarrow> kernel \<Rightarrow> kernel vres option" where
  "print_ring_loop head node s =
     (let s = print_mem ''Thread'' (node_thread node) s;
          node = list_next (list_nodes s node)
      in if node \<noteq> head then print_ring_loop head node s else Some (Inr s))"

definition scheduler_queue_print :: "kernel \<Rightarrow> kernel vres" where
  "scheduler_queue_print s =
     (if ready_threads (sched s) = 0 then Inr (print_str (line ''Scheduler thread list empty'') s)
      else
        (let s = print_str (line ''Scheduler thread list:'') s;
             head = ready_threads (sched s)
         in seqr (returned s (print_ring_loop head head s)) (\<lambda>s.
            Inr (print_str (line ''Scheduler thread list over'') s))))"

section \<open>The ready queue\<close>

definition ready_queue :: "kernel \<Rightarrow> u64 list \<Rightarrow> bool" where
  "ready_queue s ts \<longleftrightarrow> thread_queue_at (list_nodes s) (ready_threads (sched s)) ts"

lemma scheduler_push_fields:
  "sched (scheduler_push t s) = (sched s)\<lparr>ready_threads :=
     fst (ring_push (ready_threads (sched s)) (thread_node t) (list_nodes s))\<rparr>"
  "list_nodes (scheduler_push t s) = snd (ring_push (ready_threads (sched s)) (thread_node t) (list_nodes s))"
  "threads (scheduler_push t s) = (threads s)(t := (threads s t)\<lparr>thr_time_left := 2\<rparr>)"
  by (simp_all add: scheduler_push_def Let_def split_beta upd_defs)

text \<open>What neither operation touches.\<close>

lemma scheduler_push_same [simp]:
  "contexts (scheduler_push t s) = contexts s" "sleeping (scheduler_push t s) = sleeping s"
  "sems (scheduler_push t s) = sems s" "words (scheduler_push t s) = words s"
  "csr_sscratch (scheduler_push t s) = csr_sscratch s" "csr_sepc (scheduler_push t s) = csr_sepc s"
  "csr_sstatus (scheduler_push t s) = csr_sstatus s" "mem_state.truncate (scheduler_push t s) = mem_state.truncate s"
  "thread_current (sched (scheduler_push t s)) = thread_current (sched s)"
  "sleeping_threads (sched (scheduler_push t s)) = sleeping_threads (sched s)"
  "sch_kernel_main (sched (scheduler_push t s)) = sch_kernel_main (sched s)"
  "user_thread_count (sched (scheduler_push t s)) = user_thread_count (sched s)"
  "console_receive_cnt (scheduler_push t s) = console_receive_cnt s"
  "console_receive_buffer (scheduler_push t s) = console_receive_buffer s"
  "threads_waiting_for_input (scheduler_push t s) = threads_waiting_for_input s"
  by (simp_all add: scheduler_push_def Let_def split_beta upd_defs mem_state.truncate_def)

lemma scheduler_next_same [simp]:
  "threads (snd (scheduler_next s)) = threads s" "contexts (snd (scheduler_next s)) = contexts s"
  "sleeping (snd (scheduler_next s)) = sleeping s" "sems (snd (scheduler_next s)) = sems s"
  "words (snd (scheduler_next s)) = words s" "csr_sscratch (snd (scheduler_next s)) = csr_sscratch s"
  "csr_sepc (snd (scheduler_next s)) = csr_sepc s" "csr_sstatus (snd (scheduler_next s)) = csr_sstatus s"
  "mem_state.truncate (snd (scheduler_next s)) = mem_state.truncate s"
  "sleeping_threads (sched (snd (scheduler_next s))) = sleeping_threads (sched s)"
  "sch_kernel_main (sched (snd (scheduler_next s))) = sch_kernel_main (sched s)"
  "user_thread_count (sched (snd (scheduler_next s))) = user_thread_count (sched s)"
  "console_receive_cnt (snd (scheduler_next s)) = console_receive_cnt s"
  "console_receive_buffer (snd (scheduler_next s)) = console_receive_buffer s"
  "threads_waiting_for_input (snd (scheduler_next s)) = threads_waiting_for_input s"
  by (simp_all add: scheduler_next_def Let_def split_beta upd_defs mem_state.truncate_def)

lemma scheduler_next_current: "thread_current (sched (snd (scheduler_next s))) = fst (scheduler_next s)"
  by (simp add: scheduler_next_def Let_def split_beta upd_defs)

lemma ready_push:
  assumes "ready_queue s ts" and "t \<notin> set ts" and "thread_node t \<noteq> 0"
  shows "ready_queue (scheduler_push t s) (ts @ [t])"
  using thread_queue_push assms by (simp add: ready_queue_def scheduler_push_fields)

lemma ready_head: "ready_queue s ts \<Longrightarrow> ready_threads (sched s) = 0 \<longleftrightarrow> ts = []"
  unfolding ready_queue_def thread_queue_at_def by (simp add: queue_null)

lemma ready_next:
  assumes "ready_queue s (t # ts)"
  shows "fst (scheduler_next s) = t" and "ready_queue (snd (scheduler_next s)) ts"
proof -
  have "ready_threads (sched s) \<noteq> 0" using ready_head [OF assms] by simp
  moreover note thread_queue_pop [OF assms [unfolded ready_queue_def]]
  ultimately show "fst (scheduler_next s) = t" "ready_queue (snd (scheduler_next s)) ts"
    by (simp_all add: scheduler_next_def ready_queue_def Let_def split_beta upd_defs)
qed

lemma ready_next_empty:
  assumes "ready_queue s []"
  shows "scheduler_next s = (sch_kernel_main (sched s), upd_sched (\<lambda>c. c\<lparr>thread_current := sch_kernel_main c\<rparr>) s)"
    and "ready_queue (snd (scheduler_next s)) []"
  using ready_head [OF assms] assms
  by (simp_all add: scheduler_next_def ready_queue_def upd_defs)

text \<open>The next thread and what stays in the queue, whether it is empty or not.\<close>

lemma scheduler_next_cases:
  assumes "ready_queue s ts"
  shows "fst (scheduler_next s) = (if ts = [] then sch_kernel_main (sched s) else hd ts)"
    and "ready_queue (snd (scheduler_next s)) (tl ts)"
  using assms ready_next ready_next_empty by (cases ts; simp)+

lemma ready_push_frame:
  assumes "ready_queue s ts" and "q \<notin> thread_node ` set ts" and "q \<noteq> thread_node t"
  shows "list_nodes (scheduler_push t s) q = list_nodes s q"
  using assms unfolding ready_queue_def thread_queue_at_def
  by (simp add: scheduler_push_fields ring_push_frame)

lemma ready_next_frame:
  assumes "ready_queue s ts" and "q \<notin> thread_node ` set ts"
  shows "list_nodes (snd (scheduler_next s)) q = list_nodes s q"
proof (cases "ts = []")
  case True
  then show ?thesis using ready_next_empty assms by (simp add: upd_defs)
next
  case False
  then have "ready_threads (sched s) \<noteq> 0" using ready_head assms by simp
  moreover from False assms have "snd (ring_pop (ready_threads (sched s)) (list_nodes s)) q = list_nodes s q"
    unfolding ready_queue_def thread_queue_at_def by (intro ring_pop_frame [of _ _ "map thread_node ts"]) auto
  ultimately show ?thesis by (simp add: scheduler_next_def Let_def split_beta upd_defs)
qed

interpretation ready: thread_queue scheduler_push scheduler_next ready_queue
proof unfold_locales
  show "ready_queue s ts \<Longrightarrow> t \<notin> set ts \<Longrightarrow> thread_node t \<noteq> 0 \<Longrightarrow> ready_queue (scheduler_push t s) (ts @ [t])"
    for s ts t by (rule ready_push)
  show "ready_queue s (t # ts) \<Longrightarrow> \<exists>u. scheduler_next s = (t, u) \<and> ready_queue u ts" for s t ts
    using ready_next [of s t ts] by (metis prod.collapse)
  show "ready_queue s ts \<Longrightarrow> distinct ts" for s ts
    by (simp add: ready_queue_def thread_queue_distinct)
  show "ready_queue s ts \<Longrightarrow> t \<in> set ts \<Longrightarrow> thread_node t \<noteq> 0" for s ts t
    by (auto simp: ready_queue_def thread_queue_at_def queue_def image_iff split: if_splits)
qed


section \<open>Printing a ring\<close>

lemma output_only_nodes:
  assumes "output_only s (t :: kernel)"
  shows "list_nodes t = list_nodes s" and "threads t = threads s" and "sleeping t = sleeping s"
    and "sems t = sems s" and "sched t = sched s" and "semaphores t = semaphores s"
    and "sem_cnt t = sem_cnt s" and "first_semaphore t = first_semaphore s"
proof -
  obtain b c r x where t: "t = s\<lparr>console_send_buffer := b, console_send_cnt := c,
     dev_status_reads := r, dev_tx := x\<rparr>"
    using assms unfolding output_only_def by blast
  show "list_nodes t = list_nodes s" "threads t = threads s" "sleeping t = sleeping s"
      "sems t = sems s" "sched t = sched s" "semaphores t = semaphores s"
      "sem_cnt t = sem_cnt s" "first_semaphore t = first_semaphore s"
    by (simp_all add: t)
qed

lemma emits_nodes [simp]:
  "list_nodes (emits cs (s :: kernel)) = list_nodes s" "threads (emits cs s) = threads s"
  "sleeping (emits cs s) = sleeping s" "sems (emits cs s) = sems s" "sched (emits cs s) = sched s"
  "semaphores (emits cs s) = semaphores s" "sem_cnt (emits cs s) = sem_cnt s"
  "first_semaphore (emits cs s) = first_semaphore s"
  by (simp_all only: output_only_nodes [OF emits_only])

definition thread_lines :: "u64 list \<Rightarrow> u8 list" where
  "thread_lines ts = concat (map (mem_line ''Thread'') ts)"

lemma print_ring_loop_lines:
  assumes "links (list_nodes s) (map thread_node (t # ts) @ [head])" and "head \<notin> thread_node ` set ts"
  shows "print_ring_loop head (thread_node t) s = Some (Inr (emits (thread_lines (t # ts)) s))"
  using assms
proof (induction ts arbitrary: t s)
  case Nil
  then show ?case
    by (subst print_ring_loop.simps) (simp add: print_mem_line thread_lines_def Let_def)
next
  case (Cons u ts)
  let ?s = "emits (mem_line ''Thread'' t) s"
  have "print_ring_loop head (thread_node t) s = print_ring_loop head (thread_node u) ?s"
    using Cons.prems by (subst print_ring_loop.simps) (auto simp: print_mem_line Let_def)
  also have "\<dots> = Some (Inr (emits (thread_lines (u # ts)) ?s))"
    using Cons.prems by (intro Cons.IH) auto
  finally show ?case by (simp add: thread_lines_def)
qed

lemma print_ring_lines:
  assumes "thread_queue_at (list_nodes s) head (t # ts)"
  shows "print_ring_loop head head s = Some (Inr (emits (thread_lines (t # ts)) s))"
proof -
  have r: "ring (list_nodes s) (map thread_node (t # ts))" "head = thread_node t"
    using assms by (simp_all add: thread_queue_at_def queue_Cons)
  then show ?thesis using print_ring_loop_lines [of s t ts head] by (simp add: ring_def image_iff)
qed

section \<open>Properties\<close>

text \<open>The ready queue is first in, first out: whatever distinct threads are pushed, in whatever
  state of the queue, the calls of \<open>__scheduler_next\<close> hand out first the threads that were already
  waiting and then the pushed ones, each once and in the order in which they came.\<close>

lemma scheduler_fifo:
  assumes "ready_queue s ts" and "distinct (ts @ us)" and "\<forall>u \<in> set us. thread_node u \<noteq> 0"
  shows "\<exists>v. pop_many scheduler_next (length ts + length us) (fold scheduler_push us s) = (ts @ us, v)
    \<and> ready_queue v []"
  by (rule ready.fifo [OF assms]) blast

text \<open>Thread 64 is ready on an otherwise idle machine.\<close>

definition one_ready :: kernel where
  "one_ready = scheduler_push 64 blank_kernel"

lemma one_ready_queue: "ready_queue one_ready [64]"
  using ready_push [of blank_kernel "[]" 64] by (simp add: one_ready_def ready_queue_def thread_queue_at_def thread_node_def)

lemma scheduler_fifo_witness:
  "\<exists>v. pop_many scheduler_next (Suc (Suc (Suc 0))) (fold scheduler_push [128, 192] one_ready) = ([64, 128, 192], v)"
  using scheduler_fifo [OF one_ready_queue, of "[128, 192]"]
  by (auto simp: thread_node_def simp del: pop_many.simps)

text \<open>\<open>__scheduler_next\<close> makes the thread it returns the current one: the head of the ready queue,
  which leaves it, or the kernel's own thread when no thread is ready.\<close>

lemma scheduler_next_picks:
  assumes "ready_queue s ts"
  shows "fst (scheduler_next s) = (if ts = [] then sch_kernel_main (sched s) else hd ts)
    \<and> thread_current (sched (snd (scheduler_next s))) = fst (scheduler_next s)
    \<and> ready_queue (snd (scheduler_next s)) (tl ts)"
  using scheduler_next_cases [OF assms] scheduler_next_current by simp

lemma scheduler_next_picks_witness:
  "fst (scheduler_next one_ready) = 64 \<and> ready_queue (snd (scheduler_next one_ready)) []"
  using scheduler_next_picks [OF one_ready_queue] by simp

text \<open>A thread that is pushed gets a full time slice and goes to the end of the ready queue; no other
  thread and no list node outside the queue changes.\<close>

lemma scheduler_push_last:
  assumes "ready_queue s ts" and "t \<notin> set ts" and "thread_node t \<noteq> 0"
  shows "ready_queue (scheduler_push t s) (ts @ [t])
    \<and> threads (scheduler_push t s) = (threads s)(t := (threads s t)\<lparr>thr_time_left := DEFAULT_TIME_SLICE\<rparr>)
    \<and> (\<forall>q. q \<in> thread_node ` (insert t (set ts)) \<or> list_nodes (scheduler_push t s) q = list_nodes s q)"
  using ready_push [OF assms] ready_push_frame [OF assms(1)]
  by (auto simp: scheduler_push_fields)

text \<open>\<open>__scheduler_queue_print\<close> ends and prints one line for each ready thread, in the order of the
  queue, between its two header lines.\<close>

lemma scheduler_queue_print_lines:
  assumes "ready_queue s ts"
  shows "scheduler_queue_print s = Inr (emits (map of_char
    (if ts = [] then line ''Scheduler thread list empty'' else line ''Scheduler thread list:'')
      @ thread_lines ts
      @ (if ts = [] then [] else map of_char (line ''Scheduler thread list over''))) s)"
proof (cases ts)
  case Nil
  then show ?thesis using ready_head [OF assms]
    by (simp add: scheduler_queue_print_def print_str_emits thread_lines_def)
next
  case (Cons t us)
  let ?s = "emits (map of_char (line ''Scheduler thread list:'')) s"
  have "ready_threads (sched s) \<noteq> 0" using ready_head [OF assms] Cons by simp
  moreover have "print_ring_loop (ready_threads (sched s)) (ready_threads (sched s)) ?s
      = Some (Inr (emits (thread_lines ts) ?s))"
    using assms unfolding Cons ready_queue_def by (intro print_ring_lines) simp
  ultimately show ?thesis using Cons
    by (simp add: scheduler_queue_print_def print_str_emits Let_def)
qed

end
