(* ===== verification/Thread.thy ===== *)
theory Thread
  imports Scheduler
begin

text \<open>
  Threads, \<open>src/thread.c\<close>: creation, the context switch \<open>yield\<close>, deletion and exit. A control register
  that the inline assembly reads or swaps is a field of the state. The theorems say that a switch away
  and back restores a thread, and that what exit gives back to the allocator is what creation took.
\<close>

section \<open>Operations\<close>

datatype exec_mode = EXEC_MODE_USER | EXEC_MODE_KERNEL

definition THREAD_CREATE_NO_MEMORY :: i32 where "THREAD_CREATE_NO_MEMORY = -1"

definition thread_create ::
  "u64 \<Rightarrow> u64 \<Rightarrow> u64 \<Rightarrow> u64 \<Rightarrow> exec_mode \<Rightarrow> kernel \<Rightarrow> (i32, kernel) res" where
  "thread_create handle start_f arg stack_space mode s =
     seqr (mem_alloc (size_in_blocks sizeof_thread) s) (\<lambda>(new_thread, s).
     if new_thread = 0 then Inr (THREAD_CREATE_NO_MEMORY, s)
     else
       (let s = upd_thread new_thread (\<lambda>c. c\<lparr>thr_sp := stack_space\<rparr>) s;
            s = upd_thread new_thread (\<lambda>c. c\<lparr>thr_bp := stack_space - DEFAULT_STACK_SIZE + 8\<rparr>) s;
            s = upd_thread new_thread (\<lambda>c. c\<lparr>thr_time_left := DEFAULT_TIME_SLICE\<rparr>) s;
            s = upd_thread new_thread (\<lambda>c. c\<lparr>thr_sp := thr_sp c - 0x100\<rparr>) s;
            sp = thr_sp (threads s new_thread);
            s = upd_context sp (\<lambda>c. c\<lparr>x_sp := sp\<rparr>) s;
            s = upd_context sp (\<lambda>c. c\<lparr>x_a0 := start_f\<rparr>) s;
            s = upd_context sp (\<lambda>c. c\<lparr>x_a1 := arg\<rparr>) s;
            s = upd_context sp (\<lambda>c. c\<lparr>x_gp := reg_gp s\<rparr>) s;
            s = upd_context sp (\<lambda>c. c\<lparr>x_tp := reg_tp s\<rparr>) s;
            (new_sstatus, s) =
              (case mode of
                 EXEC_MODE_USER \<Rightarrow>
                   (csr_sstatus s AND NOT (push_bit 8 1), scheduler_user_thread_increment s)
               | EXEC_MODE_KERNEL \<Rightarrow>
                   ((csr_sstatus s OR push_bit 8 1) AND NOT (push_bit 1 1), s));
            s = upd_thread new_thread (\<lambda>c. c\<lparr>thr_sstatus := new_sstatus\<rparr>) s;
            s = upd_thread new_thread (\<lambda>c. c\<lparr>thr_sepc := thread_wrapper_addr s\<rparr>) s;
            s = s\<lparr>words := (words s)(handle := new_thread)\<rparr>
        in Inr (0, scheduler_push new_thread s)))"

definition yield :: "u64 \<Rightarrow> u64 \<Rightarrow> kernel \<Rightarrow> kernel" where
  "yield thread_old thread_new s =
     (if thread_old = thread_new then upd_thread thread_old (\<lambda>c. c\<lparr>thr_sp := csr_sscratch s\<rparr>) s
      else
        (let temp_sstatus = thr_sstatus (threads s thread_new);
             temp_sepc = thr_sepc (threads s thread_new);
             (temp_sstatus, s) = (csr_sstatus s, s\<lparr>csr_sstatus := temp_sstatus\<rparr>);
             (temp_sepc, s) = (csr_sepc s, s\<lparr>csr_sepc := temp_sepc\<rparr>);
             s = upd_thread thread_old (\<lambda>c. c\<lparr>thr_sstatus := temp_sstatus\<rparr>) s;
             s = upd_thread thread_old (\<lambda>c. c\<lparr>thr_sepc := temp_sepc\<rparr>) s;
             s = upd_thread thread_old (\<lambda>c. c\<lparr>thr_sp := csr_sscratch s\<rparr>) s
         in s\<lparr>csr_sscratch := thr_sp (threads s thread_new)\<rparr>))"

definition thread_delete :: "u64 \<Rightarrow> kernel \<Rightarrow> kernel vres" where
  "thread_delete t s =
     (if thr_sp (threads s t) < thr_bp (threads s t) then Inl (Panic (line ''Stack overflow''), s)
      else
        (let (res, s) = mem_free (thr_bp (threads s t)) s in
         if res \<noteq> 0 then Inl (Panic (line ''Failed to free thread stack, memory corruption''), s)
         else
           (let (res, s) = mem_free t s in
            if res \<noteq> 0 then Inl (Panic (line ''Failed to free thread, memory corruption''), s)
            else Inr s)))"

definition thread_exit :: "kernel \<Rightarrow> kernel vres" where
  "thread_exit s =
     (let s = (if csr_sstatus s AND push_bit 8 1 = 0 then scheduler_user_thread_decrement s else s);
          thread_current = scheduler_current s;
          (thread_next, s) = scheduler_next s;
          s = yield thread_current thread_next s
      in thread_delete thread_current s)"

section \<open>The context switch\<close>

text \<open>The part of the machine a switch exchanges: what the processor holds for the running thread, and
  what is saved in the structure of another one.\<close>

definition running :: "kernel \<Rightarrow> u64 \<times> u64 \<times> u64" where
  "running s = (csr_sstatus s, csr_sepc s, csr_sscratch s)"

definition saved :: "u64 \<Rightarrow> kernel \<Rightarrow> u64 \<times> u64 \<times> u64" where
  "saved t s = (thr_sstatus (threads s t), thr_sepc (threads s t), thr_sp (threads s t))"

lemma yield_threads:
  assumes "t \<noteq> u"
  shows "threads (yield t u s) = (threads s)(t := (threads s t)\<lparr>thr_sp := csr_sscratch s,
      thr_sstatus := csr_sstatus s, thr_sepc := csr_sepc s\<rparr>)"
  using assms by (cases "threads s t") (simp add: yield_def upd_defs Let_def)

lemma yield_same [simp]:
  "list_nodes (yield t u s) = list_nodes s" "sched (yield t u s) = sched s"
  "contexts (yield t u s) = contexts s" "sems (yield t u s) = sems s"
  "sleeping (yield t u s) = sleeping s" "mem_state.truncate (yield t u s) = mem_state.truncate s"
  "console_receive_cnt (yield t u s) = console_receive_cnt s"
  "console_receive_buffer (yield t u s) = console_receive_buffer s"
  "threads_waiting_for_input (yield t u s) = threads_waiting_for_input s"
  "thr_bp (threads (yield t u s) v) = thr_bp (threads s v)"
  "thr_time_left (threads (yield t u s) v) = thr_time_left (threads s v)"
  by (simp_all add: yield_def upd_defs Let_def mem_state.truncate_def)

lemma yield_switch:
  assumes "t \<noteq> u"
  shows "running (yield t u s) = saved u s" and "saved t (yield t u s) = running s"
    and "v \<noteq> t \<Longrightarrow> saved v (yield t u s) = saved v s"
  using assms by (simp_all add: yield_def running_def saved_def upd_defs Let_def)

lemma yield_self: "running (yield t t s) = running s"
  by (simp add: yield_def running_def upd_defs)

section \<open>Deletion\<close>

lemma thread_delete_owned:
  assumes o: "owns s L" and b: "(thr_bp (threads s t), m) \<in> L" and t: "(t, k) \<in> L"
    and d: "t \<noteq> thr_bp (threads s t)" and sp: "thr_bp (threads s t) \<le> thr_sp (threads s t)"
  obtains u where "thread_delete t s = Inr u" and "owns u (L - {(thr_bp (threads s t), m), (t, k)})"
    and "same_heap s u"
proof -
  let ?b = "thr_bp (threads s t)"
  obtain v where v: "mem_free ?b s = (0, v)" "owns v (L - {(?b, m)})"
    using mem_heap.free_owned [OF o b] by blast
  have "(t, k) \<in> L - {(?b, m)}" using t d by simp
  then obtain u where u: "mem_free t v = (0, u)" "owns u (L - {(?b, m)} - {(t, k)})"
    using mem_heap.free_owned [OF v(2)] by blast
  show thesis
  proof (rule that [of u])
    show "thread_delete t s = Inr u" using sp v(1) u(1) by (simp add: thread_delete_def)
    have "L - {(?b, m)} - {(t, k)} = L - {(?b, m), (t, k)}" by blast
    with u(2) show "owns u (L - {(?b, m), (t, k)})" by simp
    show "same_heap s u" using mem_free_same [OF v(1)] mem_free_same [OF u(1)] by (rule same_heap_trans)
  qed
qed

section \<open>Creation\<close>

lemma same_heap_kernel:
  assumes "same_heap s (t :: kernel)"
  shows "threads t = threads s" "contexts t = contexts s" "list_nodes t = list_nodes s"
    "sched t = sched s" "sems t = sems s" "sleeping t = sleeping s" "words t = words s"
    "csr_sstatus t = csr_sstatus s" "csr_sepc t = csr_sepc s" "csr_sscratch t = csr_sscratch s"
    "reg_gp t = reg_gp s" "reg_tp t = reg_tp s" "thread_wrapper_addr t = thread_wrapper_addr s"
    "semaphores t = semaphores s" "sem_cnt t = sem_cnt s" "first_semaphore t = first_semaphore s"
    "console_receive_cnt t = console_receive_cnt s" "console_receive_buffer t = console_receive_buffer s"
    "threads_waiting_for_input t = threads_waiting_for_input s"
  using assms by (auto simp: same_heap_def)

text \<open>The status register a new thread starts with: previous privilege user or supervisor, interrupts of
  the supervisor off in the latter case.\<close>

definition start_sstatus :: "exec_mode \<Rightarrow> u64 \<Rightarrow> u64" where
  "start_sstatus mode x = (case mode of
     EXEC_MODE_USER \<Rightarrow> x AND NOT (push_bit 8 1)
   | EXEC_MODE_KERNEL \<Rightarrow> (x OR push_bit 8 1) AND NOT (push_bit 1 1))"

text \<open>What creating a thread leaves alone, beside what the next lemma says.\<close>

definition thread_create_frame :: "kernel \<Rightarrow> kernel \<Rightarrow> bool" where
  "thread_create_frame s u \<longleftrightarrow> thread_current (sched u) = thread_current (sched s)
     \<and> sch_kernel_main (sched u) = sch_kernel_main (sched s)
     \<and> sleeping_threads (sched u) = sleeping_threads (sched s) \<and> kernel_main u = kernel_main s
     \<and> csr_stvec u = csr_stvec s \<and> system_stack u = system_stack s \<and> HEAP_START_ADDR u = HEAP_START_ADDR s
     \<and> userMain_addr u = userMain_addr s \<and> user_main_addr u = user_main_addr s
     \<and> thread_wrapper_addr u = thread_wrapper_addr s \<and> console_receive_cnt u = console_receive_cnt s
     \<and> threads_waiting_for_input u = threads_waiting_for_input s"

lemma thread_create_frame_push: "thread_create_frame s w \<Longrightarrow> thread_create_frame s (scheduler_push t w)"
  by (simp add: thread_create_frame_def scheduler_push_def Let_def split_beta upd_defs)

lemma thread_create_result:
  assumes a: "mem_alloc 1 s = Inr (t, v)" and t: "t \<noteq> 0"
    and q: "ready_queue s ts" "t \<notin> set ts" "thread_node t \<noteq> 0"
  obtains u where "thread_create handle start_f arg stack mode s = Inr (0, u)"
    and "threads u = (threads s)(t := \<lparr>thr_sp = stack - 0x100, thr_bp = stack - 4096 + 8,
      thr_sstatus = start_sstatus mode (csr_sstatus s), thr_sepc = thread_wrapper_addr s, thr_time_left = 2\<rparr>)"
    and "contexts u = (contexts s)(stack - 0x100 := (contexts s (stack - 0x100))\<lparr>x_sp := stack - 0x100,
      x_a0 := start_f, x_a1 := arg, x_gp := reg_gp s, x_tp := reg_tp s\<rparr>)"
    and "words u = (words s)(handle := t)"
    and "ready_queue u (ts @ [t])" and "mem_state.truncate u = mem_state.truncate v"
    and "running u = running s"
    and "user_thread_count (sched u) =
      user_thread_count (sched s) + (if mode = EXEC_MODE_USER then 1 else 0)"
    and "thread_create_frame s u"
proof -
  note f = same_heap_kernel [OF mem_alloc_same [OF a]]
  define w where "w = (let s = v\<lparr>contexts := (contexts s)(stack - 0x100 := (contexts s (stack - 0x100))\<lparr>
        x_sp := stack - 0x100, x_a0 := start_f, x_a1 := arg, x_gp := reg_gp s, x_tp := reg_tp s\<rparr>)\<rparr>;
      s = (if mode = EXEC_MODE_USER then scheduler_user_thread_increment s else s)
    in s\<lparr>threads := (threads v)(t := \<lparr>thr_sp = stack - 0x100, thr_bp = stack - 4096 + 8,
      thr_sstatus = start_sstatus mode (csr_sstatus v), thr_sepc = thread_wrapper_addr v, thr_time_left = 2\<rparr>),
      words := (words v)(handle := t)\<rparr>)"
  have c: "thread_create handle start_f arg stack mode s = Inr (0, scheduler_push t w)"
    using t by (cases mode; cases "threads v t")
      (simp_all add: thread_create_def a w_def Let_def upd_defs f [symmetric] start_sstatus_def
        scheduler_user_thread_increment_def)
  have w: "list_nodes w = list_nodes s" "ready_threads (sched w) = ready_threads (sched s)"
    "mem_state.truncate w = mem_state.truncate v" "running w = running s"
    "user_thread_count (sched w) = user_thread_count (sched s) + (if mode = EXEC_MODE_USER then 1 else 0)"
    by (simp_all add: w_def Let_def f scheduler_user_thread_increment_def upd_defs running_def
      mem_state.truncate_def)
  have "ready_queue w ts" using q(1) by (simp add: ready_queue_def w)
  then have r: "ready_queue (scheduler_push t w) (ts @ [t])" using q(2,3) by (rule ready_push)
  have x: "threads w = (threads s)(t := \<lparr>thr_sp = stack - 0x100, thr_bp = stack - 4096 + 8,
      thr_sstatus = start_sstatus mode (csr_sstatus s), thr_sepc = thread_wrapper_addr s, thr_time_left = 2\<rparr>)"
    "contexts w = (contexts s)(stack - 0x100 := (contexts s (stack - 0x100))\<lparr>x_sp := stack - 0x100,
      x_a0 := start_f, x_a1 := arg, x_gp := reg_gp s, x_tp := reg_tp s\<rparr>)"
    "words w = (words s)(handle := t)"
    by (simp_all add: w_def Let_def f scheduler_user_thread_increment_def upd_defs)
  have p: "running (scheduler_push t w) = running w" by (simp add: running_def)
  have "thread_create_frame s w"
    using mem_alloc_same [OF a]
    by (auto simp: thread_create_frame_def w_def Let_def scheduler_user_thread_increment_def upd_defs same_heap_def)
  then have "thread_create_frame s (scheduler_push t w)" by (rule thread_create_frame_push)
  then show thesis
    by - (rule that [OF c _ _ _ r]; simp add: x w p scheduler_push_fields(3))
qed

section \<open>Properties\<close>

text \<open>A context switch loads the status, the program counter and the stack pointer saved for the new
  thread and saves those of the old one, and leaves every other thread and the scheduler alone.\<close>

lemma yield_switches:
  assumes "t \<noteq> u"
  shows "running (yield t u s) = saved u s \<and> saved t (yield t u s) = running s
    \<and> (\<forall>v. v \<noteq> t \<longrightarrow> saved v (yield t u s) = saved v s) \<and> sched (yield t u s) = sched s"
  using yield_switch [OF assms] by simp

lemma yield_switches_witness:
  "running (yield 64 128 (blank_kernel\<lparr>csr_sepc := 7\<rparr>)) = (0, 0, 0)"
  using yield_switches [of 64 128 "blank_kernel\<lparr>csr_sepc := 7\<rparr>"]
  by (simp add: saved_def blank_kernel_def)

text \<open>Switching away from a thread and back to it restores the processor and leaves the other thread
  as it was saved.\<close>

lemma yield_roundtrip:
  assumes "t \<noteq> u"
  shows "running (yield u t (yield t u s)) = running s \<and> saved u (yield u t (yield t u s)) = saved u s"
  using yield_switch(1,2) [OF assms] yield_switch(1,2) [OF assms [symmetric]] by simp

lemma yield_roundtrip_witness:
  "running (yield 128 64 (yield 64 128 (blank_kernel\<lparr>csr_sepc := 7\<rparr>))) = (0, 7, 0)"
  using yield_roundtrip [of 64 128 "blank_kernel\<lparr>csr_sepc := 7\<rparr>"]
  by (simp add: running_def blank_kernel_def)

text \<open>C29. A new thread is ready to run: it is last in the ready queue with a full time slice, starts in
  the wrapper with its function and argument in the first two argument registers, on a context that lies
  256 bytes below the given stack top and records its own address as stack pointer, with the privilege of
  its mode; its handle is written and the running thread is not disturbed.\<close>

theorem thread_create_starts:
  assumes "mem_alloc 1 s = Inr (t, v)" and "t \<noteq> 0"
    and "ready_queue s ts" and "t \<notin> set ts" and "thread_node t \<noteq> 0"
  shows "\<exists>u. thread_create handle start_f arg stack mode s = Inr (0, u)
    \<and> words u handle = t \<and> ready_queue u (ts @ [t]) \<and> running u = running s
    \<and> saved t u = (start_sstatus mode (csr_sstatus s), thread_wrapper_addr s, stack - 0x100)
    \<and> thr_bp (threads u t) = stack - 4096 + 8 \<and> thr_time_left (threads u t) = 2
    \<and> x_sp (contexts u (stack - 0x100)) = stack - 0x100 \<and> x_a0 (contexts u (stack - 0x100)) = start_f
    \<and> x_a1 (contexts u (stack - 0x100)) = arg
    \<and> user_thread_count (sched u) =
        user_thread_count (sched s) + (if mode = EXEC_MODE_USER then 1 else 0)"
proof -
  obtain u where u: "thread_create handle start_f arg stack mode s = Inr (0, u)"
    "threads u = (threads s)(t := \<lparr>thr_sp = stack - 0x100, thr_bp = stack - 4096 + 8,
      thr_sstatus = start_sstatus mode (csr_sstatus s), thr_sepc = thread_wrapper_addr s, thr_time_left = 2\<rparr>)"
    "contexts u = (contexts s)(stack - 0x100 := (contexts s (stack - 0x100))\<lparr>x_sp := stack - 0x100,
      x_a0 := start_f, x_a1 := arg, x_gp := reg_gp s, x_tp := reg_tp s\<rparr>)"
    "words u = (words s)(handle := t)" "ready_queue u (ts @ [t])" "running u = running s"
    "user_thread_count (sched u) =
      user_thread_count (sched s) + (if mode = EXEC_MODE_USER then 1 else 0)"
    by (rule thread_create_result [OF assms, of handle start_f arg stack mode])
  show ?thesis
    by (rule exI [of _ u], simp only: u saved_def, simp)
qed

theorem thread_create_starts_witness:
  "\<exists>u. thread_create 0x800 0x300 9 0x2000 EXEC_MODE_USER blank_kernel = Inr (0, u)
    \<and> words u 0x800 = 5120 \<and> ready_queue u [5120] \<and> saved 5120 u = (0, 0x100, 0x1F00)
    \<and> x_a0 (contexts u 0x1F00) = 0x300"
proof -
  obtain v where v: "mem_alloc 1 blank_kernel = Inr (5120, v)" by (rule blank_kernel_alloc)
  have "ready_queue blank_kernel []" by (simp add: ready_queue_def thread_queue_at_def)
  then show ?thesis
    using thread_create_starts [OF v, where ts = "[]" and handle = "0x800" and start_f = "0x300" and arg = 9
      and stack = "0x2000" and mode = EXEC_MODE_USER]
    by (auto simp: thread_node_def start_sstatus_def blank_kernel_def)
qed

text \<open>Without memory for the structure, \<open>__thread_create\<close> returns -1 and changes nothing.\<close>

lemma thread_create_no_memory:
  assumes "owns s L" and "mem_alloc 1 s = Inr (0, v)"
  shows "thread_create handle start_f arg stack mode s = Inr (THREAD_CREATE_NO_MEMORY, s)"
  using mem_heap.alloc_null [OF assms(1) _ assms(2)] assms(2) by (simp add: thread_create_def)

text \<open>A heap without a free block, whose entry past the index is positive.\<close>

definition full_kernel :: kernel where
  "full_kernel = blank_kernel\<lparr>mem_index := (\<lambda>_. 0)(0 := 16, 15 := 16, 16 := 240, 255 := 240, 256 := 1)\<rparr>"

lemma full_kernel_cells:
  assumes "0 \<le> j" and "j < 18446744073709551616"
  shows "cell full_kernel j = (if j = 0 \<or> j = 15 then 16 else if j = 16 \<or> j = 255 then 240
    else if j = 256 then 1 else 0)"
  using assms by (simp add: cell_def full_kernel_def word_of_int_eq_u64)

lemma full_kernel_heap: "mem_rep full_kernel [16, 240]" "n_mem_blocks full_kernel = 256"
proof -
  show n: "n_mem_blocks full_kernel = 256" by (simp add: full_kernel_def blank_kernel_fields)
  have "run_at (cell full_kernel) 0 16" "run_at (cell full_kernel) 16 240"
    by (simp_all add: run_at_def full_kernel_cells)
  moreover have "heap_shape full_kernel"
    by (simp add: heap_shape_def full_kernel_def blank_kernel_fields)
  ultimately show "mem_rep full_kernel [16, 240]" using n by (simp add: mem_rep_def mem_lay_def)
qed

lemma thread_create_no_memory_witness:
  "thread_create 0x800 0x300 9 0x2000 EXEC_MODE_USER full_kernel = Inr (THREAD_CREATE_NO_MEMORY, full_kernel)"
proof -
  have "mem_alloc 1 full_kernel = no_fit_result full_kernel"
    by (rule mem_alloc_None [OF full_kernel_heap(1)]) (simp_all add: full_kernel_cells full_kernel_heap(2))
  then have "mem_alloc 1 full_kernel = Inr (0, full_kernel)"
    by (simp add: no_fit_result_def full_kernel_cells full_kernel_heap(2))
  moreover have "owns full_kernel ((\<lambda>(j, k). (block_addr full_kernel j, k)) ` live_at 0 [16, 240])"
    unfolding owns_def
    by (rule exI [of _ "[16, 240]"]) (simp add: full_kernel_heap full_kernel_cells)
  ultimately show ?thesis by (intro thread_create_no_memory)
qed

text \<open>C27. What is given back is what was taken: a thread created on a stack that the caller allocated
  records the base of that allocation, and deleting it later, whatever happened to its saved stack
  pointer above that base, returns exactly the stack and the structure to the allocator.\<close>

theorem thread_lifecycle:
  assumes "owns s L" and "mem_alloc 64 s = Inr (base, s1)" and "base \<noteq> 0"
    and "mem_alloc 1 s1 = Inr (t, s2)" and "t \<noteq> 0"
    and "ready_queue s1 ts" and "t \<notin> set ts" and "thread_node t \<noteq> 0"
    and "thread_create handle start_f arg (base + 4096 - 8) mode s1 = Inr (r, s3)"
    and "mem_state.truncate s4 = mem_state.truncate s3"
    and "thr_bp (threads s4 t) = thr_bp (threads s3 t)" and "base \<le> thr_sp (threads s4 t)"
  shows "\<exists>s5. thread_delete t s4 = Inr s5 \<and> owns s5 L"
proof -
  have o1: "owns s1 (insert (base, 64) L)" using mem_heap.alloc_fresh [OF assms(1) _ assms(2,3)] by simp
  then have o2: "owns s2 (insert (t, 1) (insert (base, 64) L))" and ap: "apart t 1 base 64"
    using mem_heap.alloc_fresh [OF o1 _ assms(4,5)] by auto
  obtain u where u: "thread_create handle start_f arg (base + 4096 - 8) mode s1 = Inr (0, u)"
      "threads u = (threads s1)(t := \<lparr>thr_sp = base + 4096 - 8 - 0x100, thr_bp = base + 4096 - 8 - 4096 + 8,
        thr_sstatus = start_sstatus mode (csr_sstatus s1), thr_sepc = thread_wrapper_addr s1, thr_time_left = 2\<rparr>)"
      "mem_state.truncate u = mem_state.truncate s2"
    by (rule thread_create_result [OF assms(4-8), of handle start_f arg "base + 4096 - 8" mode])
  have bp: "thr_bp (threads u t) = base" by (simp add: u(2))
  from u(1) assms(9) have s3: "s3 = u" by simp
  have b: "thr_bp (threads s4 t) = base" using assms(11) bp s3 by simp
  have o4: "owns s4 (insert (t, 1) (insert (base, 64) L))"
    using o2 owns_cong [of s4 s2] assms(10) u(3) s3 by simp
  have "t \<noteq> base" using ap by (auto simp: apart_def)
  moreover have "(base, 64) \<notin> L" "(t, 1) \<notin> insert (base, 64) L"
    using mem_heap.alloc_not_owned [OF assms(1) _ assms(2,3)] mem_heap.alloc_not_owned [OF o1 _ assms(4,5)]
    by simp_all
  ultimately have "insert (t, 1) (insert (base, 64) L) - {(base, 64), (t, 1)} = L" by auto
  then show ?thesis
    using thread_delete_owned [OF o4, of t 64 1] b \<open>t \<noteq> base\<close> assms(12) by auto
qed

theorem thread_lifecycle_witness:
  "\<exists>s u. thread_create 0x800 0x300 9 9208 EXEC_MODE_USER s = Inr (0, u)
    \<and> (\<exists>v. thread_delete 9216 u = Inr v \<and> owns v {(4096, 16)})"
proof -
  obtain v w where a: "mem_alloc 64 blank_kernel = Inr (5120, v)" "mem_alloc 1 v = Inr (9216, w)"
    "same_heap blank_kernel v" by (rule blank_kernel_alloc_stack)
  have q: "ready_queue v []"
    by (simp add: ready_queue_def thread_queue_at_def same_heap_kernel [OF a(3)])
  have nz: "thread_node 9216 \<noteq> 0" by (simp add: thread_node_def)
  obtain u where u: "thread_create 0x800 0x300 9 9208 EXEC_MODE_USER v = Inr (0, u)"
      "threads u = (threads v)(9216 := \<lparr>thr_sp = 9208 - 0x100, thr_bp = 9208 - 4096 + 8,
        thr_sstatus = start_sstatus EXEC_MODE_USER (csr_sstatus v), thr_sepc = thread_wrapper_addr v,
        thr_time_left = 2\<rparr>)"
    by (rule thread_create_result [OF a(2) _ q _ nz, where handle = "0x800" and start_f = "0x300"
      and arg = 9 and stack = 9208 and mode = EXEC_MODE_USER]) simp_all
  have c: "thread_create 0x800 0x300 9 (5120 + 4096 - 8) EXEC_MODE_USER v = Inr (0, u)" using u(1) by simp
  have "\<exists>s5. thread_delete 9216 u = Inr s5 \<and> owns s5 {(4096, 16)}"
    by (rule thread_lifecycle [OF blank_kernel_owns a(1) _ a(2) _ q _ nz c refl]) (simp_all add: u(2))
  with u(1) show ?thesis by blast
qed

text \<open>Deleting a thread whose saved stack pointer has gone below its stack stops the machine instead
  of returning memory.\<close>

lemma thread_delete_overflow:
  assumes "thr_sp (threads s t) < thr_bp (threads s t)"
  shows "thread_delete t s = Inl (Panic (line ''Stack overflow''), s)"
  using assms by (simp add: thread_delete_def)

lemma thread_delete_overflow_witness:
  "\<exists>s. thread_delete 64 s = Inl (Panic (line ''Stack overflow''), s)"
proof
  show "thread_delete 64 (upd_thread 64 (\<lambda>c. c\<lparr>thr_sp := 0, thr_bp := 8\<rparr>) blank_kernel) =
      Inl (Panic (line ''Stack overflow''), upd_thread 64 (\<lambda>c. c\<lparr>thr_sp := 0, thr_bp := 8\<rparr>) blank_kernel)"
    by (rule thread_delete_overflow) (simp add: upd_defs)
qed

text \<open>C28. \<open>__thread_exit\<close> ends the running thread: the next ready thread (or the kernel's own when there is
  none) runs, the thread's stack and structure are free, and a user thread is counted off.\<close>

theorem thread_exit_ends:
  assumes "ready_queue s ts" and "n = (if ts = [] then sch_kernel_main (sched s) else hd ts)"
    and "c = scheduler_current s" and "c \<noteq> n"
    and "owns s L" and "(thr_bp (threads s c), m) \<in> L" and "(c, k) \<in> L" and "c \<noteq> thr_bp (threads s c)"
    and "thr_bp (threads s c) \<le> csr_sscratch s"
  shows "\<exists>u. thread_exit s = Inr u \<and> running u = saved n s \<and> scheduler_current u = n
    \<and> ready_queue u (tl ts) \<and> owns u (L - {(thr_bp (threads s c), m), (c, k)})
    \<and> user_thread_count (sched u) =
        user_thread_count (sched s) - (if csr_sstatus s AND push_bit 8 1 = 0 then 1 else 0)"
proof -
  define s1 where "s1 = (if csr_sstatus s AND push_bit 8 1 = 0 then scheduler_user_thread_decrement s else s)"
  have f1: "threads s1 = threads s" "csr_sscratch s1 = csr_sscratch s" "csr_sepc s1 = csr_sepc s"
    "csr_sstatus s1 = csr_sstatus s" "mem_state.truncate s1 = mem_state.truncate s"
    "ready_queue s1 ts" "sch_kernel_main (sched s1) = sch_kernel_main (sched s)" "scheduler_current s1 = c"
    using assms(1,3) by (simp_all add: s1_def scheduler_user_thread_decrement_def upd_defs ready_queue_def
        mem_state.truncate_def scheduler_current_def)
  define s2 where "s2 = snd (scheduler_next s1)"
  have n: "scheduler_next s1 = (n, s2)" "ready_queue s2 (tl ts)"
    using scheduler_next_cases [OF f1(6)] assms(2) f1(7) by (simp_all add: s2_def prod_eq_iff)
  have f2: "threads s2 = threads s" "csr_sscratch s2 = csr_sscratch s"
    "mem_state.truncate s2 = mem_state.truncate s" "scheduler_current s2 = n"
    "user_thread_count (sched s2) = user_thread_count (sched s1)"
    using scheduler_next_same [of s1] scheduler_next_current [of s1] by (simp_all add: n(1) f1 scheduler_current_def)
  define s3 where "s3 = yield c n s2"
  have e: "thread_exit s = thread_delete c s3"
    unfolding thread_exit_def s1_def [symmetric] Let_def using n(1) f1(8) by (simp add: s3_def)
  have f3: "thr_bp (threads s3 c) = thr_bp (threads s c)" "thr_sp (threads s3 c) = csr_sscratch s"
    "running s3 = saved n s" "mem_state.truncate s3 = mem_state.truncate s"
    "sched s3 = sched s2" "ready_queue s3 (tl ts)"
    using yield_switch(1) [OF assms(4), of s2] yield_threads [OF assms(4), of s2] f2 n(2)
    by (simp_all add: s3_def saved_def ready_queue_def)
  have "owns s3 L" using assms(5) owns_cong [OF f3(4)] by simp
  then obtain u where u: "thread_delete c s3 = Inr u" "owns u (L - {(thr_bp (threads s c), m), (c, k)})"
      "same_heap s3 u"
    by (rule thread_delete_owned [of s3 L c m k]) (use assms(6-9) f3 in simp_all)
  note h = same_heap_kernel [OF u(3)]
  have "user_thread_count (sched s1) =
      user_thread_count (sched s) - (if csr_sstatus s AND push_bit 8 1 = 0 then 1 else 0)"
    by (simp add: s1_def scheduler_user_thread_decrement_def upd_defs)
  with e u f3 f2 h show ?thesis
    by (auto simp: running_def scheduler_current_def ready_queue_def)
qed

text \<open>The kernel's own thread is ready to take over from a user thread at 9216 with its stack at 5120.\<close>

theorem thread_exit_ends_witness:
  "\<exists>s u. thread_exit s = Inr u \<and> scheduler_current s = 9216 \<and> scheduler_current u = 64 \<and> owns u {(4096, 16)}"
proof -
  obtain v w where a: "mem_alloc 64 blank_kernel = Inr (5120, v)" "mem_alloc 1 v = Inr (9216, w)"
    "same_heap blank_kernel v" "same_heap v w" by (rule blank_kernel_alloc_stack)
  have o: "owns w (insert (9216, 1) (insert (5120, 64) {(4096, 16)}))"
    using mem_heap.alloc_twice(1) [OF blank_kernel_owns _ a(1) _ _ a(2)] by simp
  define s where "s = upd_sched (\<lambda>c. c\<lparr>thread_current := 9216, sch_kernel_main := 64\<rparr>)
    (upd_thread 9216 (\<lambda>c. c\<lparr>thr_bp := 5120\<rparr>) (w\<lparr>csr_sscratch := 6000\<rparr>))"
  note h = same_heap_kernel [OF same_heap_trans [OF a(3,4)]]
  have "owns s (insert (9216, 1) (insert (5120, 64) {(4096, 16)}))"
    using o owns_cong [of s w] by (simp add: s_def mem_state.truncate_def upd_defs)
  moreover have "ready_queue s []" by (simp add: ready_queue_def thread_queue_at_def s_def upd_defs h)
  moreover have "scheduler_current s = 9216" "sch_kernel_main (sched s) = 64" "csr_sscratch s = 6000"
    "thr_bp (threads s 9216) = 5120"
    by (simp_all add: s_def scheduler_current_def upd_defs)
  ultimately have "\<exists>u. thread_exit s = Inr u \<and> running u = saved 64 s \<and> scheduler_current u = 64
    \<and> ready_queue u (tl []) \<and> owns u (insert (9216, 1) (insert (5120, 64) {(4096, 16)}) - {(5120, 64), (9216, 1)})
    \<and> user_thread_count (sched u) =
        user_thread_count (sched s) - (if csr_sstatus s AND push_bit 8 1 = 0 then 1 else 0)"
    using thread_exit_ends [of s "[]" 64 9216 "insert (9216, 1) (insert (5120, 64) {(4096, 16)})" 64 1]
    by simp
  moreover have "insert (9216, 1) (insert (5120, 64) {(4096, 16)}) - {(5120, 64), (9216, 1)} =
      {(4096 :: u64, 16 :: int)}" by auto
  ultimately show ?thesis using \<open>scheduler_current s = 9216\<close> by auto
qed

end
