(* ===== verification/Timeout.thy ===== *)
theory Timeout
  imports Thread "HOL-Library.Multiset"
begin

text \<open>
  The sleeping threads of \<open>src/scheduler.c\<close>: \<open>__scheduler_timeout\<close>, \<open>__scheduler_remove_timeout\<close>,
  \<open>__scheduler_tick\<close> and \<open>__scheduler_blocked_print\<close>, with \<open>__sem_remove_thread\<close> of \<open>src/semaphore.c\<close>
  which the tick calls. Sleeping threads are kept in a ring in the order of their wake-up times, each
  with the number of ticks after its predecessor. \<open>sleepers\<close> reads the ring as a list, \<open>wakes\<close> as
  wake-up times counted from now.
\<close>

section \<open>Removing a waiting thread from a semaphore\<close>

definition SEM_WAIT_TIMEOUT :: i32 where "SEM_WAIT_TIMEOUT = -2"

partial_function (option) sem_remove_loop :: "u64 \<Rightarrow> u64 \<Rightarrow> kernel \<Rightarrow> ((fault \<times> kernel) + u64) option" where
  "sem_remove_loop current_thread head s =
     (if head \<noteq> thread_node current_thread
      then sem_remove_loop current_thread (list_next (list_nodes s head)) s
      else Some (Inr head))"

definition sem_remove_thread :: "u64 \<Rightarrow> u64 \<Rightarrow> kernel \<Rightarrow> kernel vres" where
  "sem_remove_thread handle thread s =
     (let head = sem_waiting (sems s handle) in
      if head = 0 then Inl (Panic ''Thread lost'', s)
      else
        (let s = upd_sem handle (\<lambda>c. c\<lparr>sem_val := sem_val c + 1\<rparr>) s in
         if head = list_next (list_nodes s head)
         then Inr (upd_sem handle (\<lambda>c. c\<lparr>sem_waiting := 0\<rparr>) s)
         else
           (let current_thread = node_thread head in
            seqr (returned s (sem_remove_loop current_thread head s)) (\<lambda>head.
            let s = upd_nodes (list_unlink head) s;
                context = thr_sp (threads s thread)
            in Inr (upd_context context (set_a0 (i32_to_u64 SEM_WAIT_TIMEOUT)) s)))))"

section \<open>Adding a timeout\<close>

text \<open>The do-while loop that looks for the place of the new entry.\<close>

partial_function (option) timeout_loop ::
  "u64 \<Rightarrow> u64 \<Rightarrow> u64 \<Rightarrow> kernel \<Rightarrow> ((fault \<times> kernel) + (u64 \<times> u64)) option" where
  "timeout_loop time node delta s =
     (let delta = delta + slp_delta (sleeping s (node_sleeper node));
          node = list_next (list_nodes s node);
          next_thread = node_sleeper node
      in if node \<noteq> sleeping_threads (sched s) \<and> delta + slp_delta (sleeping s next_thread) < time
         then timeout_loop time node delta s
         else Some (Inr (node, delta)))"

definition set_sleeper :: "u64 \<Rightarrow> u64 \<Rightarrow> u64 \<Rightarrow> u64 \<Rightarrow> kernel \<Rightarrow> kernel" where
  "set_sleeper p thread semaphore delta s =
     (let s = upd_sleeper p (\<lambda>c. c\<lparr>slp_thread := thread\<rparr>) s;
          s = upd_sleeper p (\<lambda>c. c\<lparr>slp_semaphore := semaphore\<rparr>) s
      in upd_sleeper p (\<lambda>c. c\<lparr>slp_delta := delta\<rparr>) s)"

text \<open>The pointer that \<open>__mem_alloc\<close> returns is not checked.\<close>

definition scheduler_timeout :: "u64 \<Rightarrow> u64 \<Rightarrow> u64 \<Rightarrow> kernel \<Rightarrow> kernel vres" where
  "scheduler_timeout thread time semaphore s =
     (if sleeping_threads (sched s) = 0 then
        seqr (mem_alloc (size_in_blocks sizeof_sleeping_thread) s) (\<lambda>(sleeping_thread, s).
        let s = set_sleeper sleeping_thread thread semaphore time s;
            s = upd_nodes (self_link (sleeper_node sleeping_thread)) s
        in Inr (upd_sched (\<lambda>c. c\<lparr>sleeping_threads := sleeper_node sleeping_thread\<rparr>) s))
      else
        (let node = sleeping_threads (sched s);
             first = node_sleeper node in
         if time < slp_delta (sleeping s first) then
           (let s = upd_sleeper first (\<lambda>c. c\<lparr>slp_delta := slp_delta c - time\<rparr>) s in
            seqr (mem_alloc (size_in_blocks sizeof_sleeping_thread) s) (\<lambda>(new_head, s).
            let s = set_sleeper new_head thread semaphore time s;
                s = upd_nodes (set_next (sleeper_node new_head) (sleeper_node first)) s;
                s = upd_nodes (set_prev (sleeper_node new_head) (list_prev (list_nodes s (sleeper_node first)))) s;
                s = upd_nodes (set_next (list_prev (list_nodes s (sleeper_node first))) (sleeper_node new_head)) s;
                s = upd_nodes (set_prev (sleeper_node first) (sleeper_node new_head)) s
            in Inr (upd_sched (\<lambda>c. c\<lparr>sleeping_threads := sleeper_node new_head\<rparr>) s)))
         else
           seqr (returned s (timeout_loop time node 0 s)) (\<lambda>(node, delta).
           seqr (mem_alloc (size_in_blocks sizeof_sleeping_thread) s) (\<lambda>(new_sleeping_thread, s).
           let s = set_sleeper new_sleeping_thread thread semaphore (time - delta) s;
               s = upd_nodes (list_insert node (sleeper_node new_sleeping_thread)) s
           in Inr (if node \<noteq> sleeping_threads (sched s)
                   then upd_sleeper (node_sleeper node)
                          (\<lambda>c. c\<lparr>slp_delta := slp_delta c - slp_delta (sleeping s new_sleeping_thread)\<rparr>) s
                   else s)))))"

section \<open>Removing a timeout\<close>

definition free_failed :: fault where
  "free_failed = Panic (line ''Failed to free sleeping thread struct, memory corruption'')"

definition free_sleeper :: "u64 \<Rightarrow> kernel \<Rightarrow> kernel vres" where
  "free_sleeper p s = (let (res, s) = mem_free p s in if res \<noteq> 0 then Inl (free_failed, s) else Inr s)"

partial_function (option) remove_timeout_loop ::
  "u64 \<Rightarrow> u64 \<Rightarrow> kernel \<Rightarrow> ((fault \<times> kernel) + u64) option" where
  "remove_timeout_loop thread node s =
     (if slp_thread (sleeping s (node_sleeper node)) \<noteq> thread
         \<and> list_next (list_nodes s node) \<noteq> sleeping_threads (sched s)
      then remove_timeout_loop thread (list_next (list_nodes s node)) s
      else Some (Inr node))"

definition scheduler_remove_timeout :: "u64 \<Rightarrow> kernel \<Rightarrow> kernel vres" where
  "scheduler_remove_timeout thread s =
     (if sleeping_threads (sched s) = 0 then Inl (Panic (line ''Thread lost 1''), s)
      else
        (let node = sleeping_threads (sched s) in
         if list_next (list_nodes s node) = node then
           (if slp_thread (sleeping s (node_sleeper node)) \<noteq> thread
            then Inl (Panic (line ''Thread lost 2''), s)
            else seqr (free_sleeper (node_sleeper node) s) (\<lambda>s.
                 Inr (upd_sched (\<lambda>c. c\<lparr>sleeping_threads := 0\<rparr>) s)))
         else
           seqr (returned s (remove_timeout_loop thread node s)) (\<lambda>node.
           let current_thread = node_sleeper node in
           if slp_thread (sleeping s current_thread) \<noteq> thread
           then Inl (Panic (line ''Thread lost 3''), s)
           else if list_next (list_nodes s node) = sleeping_threads (sched s)
           then free_sleeper current_thread (upd_nodes (list_unlink node) s)
           else
             (let next_thread = node_sleeper (list_next (list_nodes s node));
                  s = upd_sleeper next_thread
                        (\<lambda>c. c\<lparr>slp_delta := slp_delta c + slp_delta (sleeping s current_thread)\<rparr>) s
              in free_sleeper current_thread (upd_nodes (list_unlink node) s)))))"

section \<open>The timer tick\<close>

text \<open>One round of the loop of \<open>__scheduler_tick\<close>: the first sleeping thread becomes ready. The result
  says whether the loop goes on.\<close>

definition tick_wake :: "u64 \<Rightarrow> kernel \<Rightarrow> (bool, kernel) res" where
  "tick_wake first s =
     (if list_next (list_nodes s (sleeping_threads (sched s))) = sleeping_threads (sched s) then
        seqr (if slp_semaphore (sleeping s first) \<noteq> 0
              then sem_remove_thread (slp_semaphore (sleeping s first)) (slp_thread (sleeping s first)) s
              else Inr s) (\<lambda>s.
        let s = scheduler_push (slp_thread (sleeping s first)) s;
            s = upd_sched (\<lambda>c. c\<lparr>sleeping_threads := 0\<rparr>) s
        in seqr (free_sleeper first s) (\<lambda>s. Inr (False, s)))
      else
        seqr (if slp_semaphore (sleeping s first) \<noteq> 0
              then sem_remove_thread (slp_semaphore (sleeping s first)) (slp_thread (sleeping s first)) s
              else Inr s) (\<lambda>s.
        let s = scheduler_push (slp_thread (sleeping s first)) s;
            s = upd_nodes (list_unlink (sleeping_threads (sched s))) s;
            s = upd_sched (\<lambda>c. c\<lparr>sleeping_threads := list_next (list_nodes s (sleeping_threads c))\<rparr>) s
        in seqr (free_sleeper first s) (\<lambda>s. Inr (True, s))))"

partial_function (option) tick_loop :: "u64 \<Rightarrow> kernel \<Rightarrow> kernel vres option" where
  "tick_loop first s =
     (if slp_delta (sleeping s first) = 0 then
        (case tick_wake first s of
           Inl e \<Rightarrow> Some (Inl e)
         | Inr (again, s) \<Rightarrow>
             (if again then tick_loop (node_sleeper (sleeping_threads (sched s))) s else Some (Inr s)))
      else Some (Inr s))"

definition scheduler_tick :: "kernel \<Rightarrow> kernel vres" where
  "scheduler_tick s =
     (if sleeping_threads (sched s) = 0 then Inr s
      else
        (let first = node_sleeper (sleeping_threads (sched s));
             s = upd_sleeper first (\<lambda>c. c\<lparr>slp_delta := slp_delta c - 1\<rparr>) s
         in if slp_delta (sleeping s first) \<noteq> 0 then Inr s
            else returned s (tick_loop first s)))"

section \<open>Printing\<close>

partial_function (option) print_sleepers_loop :: "u64 \<Rightarrow> kernel \<Rightarrow> kernel vres option" where
  "print_sleepers_loop node s =
     (let sleeping_thread = node_sleeper node;
          s = print_mem ''Thread'' sleeping_thread s;
          s = print_mem ''Time delta'' (slp_delta (sleeping s sleeping_thread)) s;
          node = list_next (list_nodes s node)
      in if node \<noteq> sleeping_threads (sched s) then print_sleepers_loop node s else Some (Inr s))"

definition scheduler_blocked_print :: "kernel \<Rightarrow> kernel vres" where
  "scheduler_blocked_print s =
     (if sleeping_threads (sched s) = 0
      then Inr (print_str (line ''Scheduler blocked thread list empty'') s)
      else
        (let s = print_str (line ''Scheduler blocked thread list:'') s in
         seqr (returned s (print_sleepers_loop (sleeping_threads (sched s)) s)) (\<lambda>s.
         Inr (print_str (line ''Scheduler blocked thread list over'') s))))"

section \<open>The sleeping threads as a list\<close>

definition sleepers :: "kernel \<Rightarrow> u64 list \<Rightarrow> bool" where
  "sleepers s ps \<longleftrightarrow> queue (list_nodes s) (sleeping_threads (sched s)) (map sleeper_node ps)"

definition delay :: "kernel \<Rightarrow> u64 \<Rightarrow> nat" where
  "delay s p = unat (slp_delta (sleeping s p))"

definition total :: "kernel \<Rightarrow> u64 list \<Rightarrow> nat" where
  "total s ps = sum_list (map (delay s) ps)"

text \<open>When each thread wakes up, counted from the state on, with the semaphore it may be waiting on.\<close>

fun wakes_from :: "nat \<Rightarrow> kernel \<Rightarrow> u64 list \<Rightarrow> (nat \<times> u64 \<times> u64) list" where
  "wakes_from a s [] = []"
| "wakes_from a s (p # ps) =
     (a + delay s p, slp_thread (sleeping s p), slp_semaphore (sleeping s p)) # wakes_from (a + delay s p) s ps"

abbreviation wakes :: "kernel \<Rightarrow> u64 list \<Rightarrow> (nat \<times> u64 \<times> u64) list" where
  "wakes s ps \<equiv> wakes_from 0 s ps"

text \<open>Insertion by wake-up time. Among entries due at the same time the new one goes after the first
  entry of the list, but before the others.\<close>

definition insert_rest :: "nat \<times> 'a \<Rightarrow> (nat \<times> 'a) list \<Rightarrow> (nat \<times> 'a) list" where
  "insert_rest x es = takeWhile (\<lambda>e. fst e < fst x) es @ x # dropWhile (\<lambda>e. fst e < fst x) es"

fun insert_wake :: "nat \<times> 'a \<Rightarrow> (nat \<times> 'a) list \<Rightarrow> (nat \<times> 'a) list" where
  "insert_wake x [] = [x]"
| "insert_wake x (e # es) = (if fst x < fst e then x # e # es else e # insert_rest x es)"

lemma total_simps [simp]:
  "total s [] = 0" "total s (p # ps) = delay s p + total s ps" "total s (ps @ qs) = total s ps + total s qs"
  by (simp_all add: total_def)

lemma wakes_from_append [simp]:
  "wakes_from a s (ps @ qs) = wakes_from a s ps @ wakes_from (a + total s ps) s qs"
  by (induction ps arbitrary: a) (simp_all add: add.assoc)

lemma length_wakes [simp]: "length (wakes_from a s ps) = length ps"
  by (induction ps arbitrary: a) simp_all

lemma wakes_from_bounds: "e \<in> set (wakes_from a s ps) \<Longrightarrow> a \<le> fst e"
  by (induction ps arbitrary: a) force+

lemma wakes_cong:
  assumes "\<And>p. p \<in> set ps \<Longrightarrow> sleeping t p = sleeping s p"
  shows "wakes_from a t ps = wakes_from a s ps" and "total t ps = total s ps"
  using assms by (induction ps arbitrary: a) (simp_all add: delay_def)

lemma sleepers_empty: "sleepers s ps \<Longrightarrow> sleeping_threads (sched s) = 0 \<longleftrightarrow> ps = []"
  by (simp add: sleepers_def queue_null)

lemma sleepers_distinct: "sleepers s ps \<Longrightarrow> distinct ps"
  by (auto simp: sleepers_def distinct_map dest: queue_distinct)

lemma sleepers_ring:
  assumes "sleepers s (p # ps)"
  shows "ring (list_nodes s) (map sleeper_node (p # ps))" and "sleeping_threads (sched s) = sleeper_node p"
  using assms by (simp_all add: sleepers_def queue_Cons)

lemma sleepers_next:
  assumes "sleepers s (xs @ p # ys)"
  shows "list_next (list_nodes s (sleeper_node p)) =
    (if ys = [] then sleeping_threads (sched s) else sleeper_node (hd ys))"
proof (cases ys)
  case Nil
  obtain q qs where q: "xs @ [p] = q # qs" by (cases "xs @ [p]") auto
  have "last (map sleeper_node (q # qs)) = sleeper_node p" using q by (metis last_map last_snoc list.distinct(1))
  with ring_ends(2) [OF sleepers_ring(1)] sleepers_ring(2) assms Nil q show ?thesis by fastforce
next
  case (Cons y zs)
  have "ring (list_nodes s) (map sleeper_node xs @ sleeper_node p # sleeper_node y # map sleeper_node zs)"
    using assms Cons by (cases xs) (auto simp: sleepers_def queue_Cons)
  from ring_next(1) [OF this] Cons show ?thesis by simp
qed

lemma sleepers_head_unique:
  assumes "sleepers s (xs @ p # ys)" and "xs \<noteq> []"
  shows "sleeper_node p \<noteq> sleeping_threads (sched s)"
proof -
  obtain x xs' where x: "xs = x # xs'" using assms(2) by (cases xs) auto
  then have "sleeping_threads (sched s) = sleeper_node x" using assms(1) sleepers_ring(2) by simp
  moreover have "x \<noteq> p" using sleepers_distinct [OF assms(1)] x by auto
  ultimately show ?thesis by simp
qed

section \<open>Adding a timeout: correctness\<close>

lemma unat_add_bounded:
  fixes a b :: u64
  assumes "unat a + unat b < 18446744073709551616"
  shows "unat (a + b) = unat a + unat b"
  using assms by (simp add: unat_word_ariths)

lemma timeout_loop_walk:
  assumes "sleepers s (xs @ p # rs)" and "total s (xs @ p # rs) < 18446744073709551616"
    and "unat delta = total s xs"
  shows "\<exists>ys zs delta'. rs = ys @ zs
    \<and> timeout_loop time (sleeper_node p) delta s =
        Some (Inr (if zs = [] then sleeping_threads (sched s) else sleeper_node (hd zs), delta'))
    \<and> unat delta' = total s (xs @ p # ys)
    \<and> (\<forall>e \<in> set (wakes_from (total s (xs @ [p])) s ys). fst e < unat time)
    \<and> (zs \<noteq> [] \<longrightarrow> unat time \<le> unat delta' + delay s (hd zs))"
  using assms
proof (induction rs arbitrary: xs p delta)
  case Nil
  have d: "unat (delta + slp_delta (sleeping s p)) = total s xs + delay s p"
    using Nil.prems by (simp add: unat_add_bounded delay_def)
  have "timeout_loop time (sleeper_node p) delta s =
      Some (Inr (sleeping_threads (sched s), delta + slp_delta (sleeping s p)))"
    using sleepers_next [OF Nil.prems(1)] by (subst timeout_loop.simps) simp
  with d show ?case by (intro exI [of _ "[]"] exI [of _ "delta + slp_delta (sleeping s p)"]) simp
next
  case (Cons r rs)
  let ?delta = "delta + slp_delta (sleeping s p)"
  have d: "unat ?delta = total s xs + delay s p"
    using Cons.prems by (simp add: unat_add_bounded delay_def)
  have n: "list_next (list_nodes s (sleeper_node p)) = sleeper_node r"
    using sleepers_next [OF Cons.prems(1)] by simp
  have nh: "sleeper_node r \<noteq> sleeping_threads (sched s)"
    using sleepers_head_unique [of s "xs @ [p]" r rs] Cons.prems(1) by simp
  have dr: "unat (?delta + slp_delta (sleeping s r)) = total s xs + delay s p + delay s r"
    using Cons.prems d by (simp add: unat_add_bounded delay_def)
  show ?case
  proof (cases "?delta + slp_delta (sleeping s r) < time")
    case False
    have "timeout_loop time (sleeper_node p) delta s = Some (Inr (sleeper_node r, ?delta))"
      using n nh False by (subst timeout_loop.simps) simp
    moreover have "unat time \<le> unat ?delta + delay s r" using False dr d by (simp add: word_less_nat_alt)
    ultimately show ?thesis using d
      by (intro exI [of _ "[]"] exI [of _ "r # rs"] exI [of _ ?delta]) simp
  next
    case True
    have e: "timeout_loop time (sleeper_node p) delta s = timeout_loop time (sleeper_node r) ?delta s"
      using n nh True by (subst timeout_loop.simps) simp
    have "sleepers s ((xs @ [p]) @ r # rs)" "total s ((xs @ [p]) @ r # rs) < 18446744073709551616"
      "unat ?delta = total s (xs @ [p])"
      using Cons.prems d by simp_all
    from Cons.IH [OF this] obtain ys zs delta' where
      "rs = ys @ zs"
      "timeout_loop time (sleeper_node r) ?delta s =
        Some (Inr (if zs = [] then sleeping_threads (sched s) else sleeper_node (hd zs), delta'))"
      "unat delta' = total s ((xs @ [p]) @ r # ys)"
      "\<forall>e \<in> set (wakes_from (total s ((xs @ [p]) @ [r])) s ys). fst e < unat time"
      "zs \<noteq> [] \<longrightarrow> unat time \<le> unat delta' + delay s (hd zs)" by blast
    moreover have "total s xs + delay s p + delay s r < unat time"
      using True dr by (simp add: word_less_nat_alt)
    ultimately show ?thesis using e
      by (intro exI [of _ "r # ys"] exI [of _ zs] exI [of _ delta']) (simp add: add.assoc)
  qed
qed

lemma insert_rest_split:
  assumes "\<forall>e \<in> set es. fst e < fst x" and "fs \<noteq> [] \<longrightarrow> fst x \<le> fst (hd fs)"
  shows "insert_rest x (es @ fs) = es @ x # fs"
proof -
  have "takeWhile (\<lambda>e. fst e < fst x) (es @ fs) = es @ takeWhile (\<lambda>e. fst e < fst x) fs"
    "dropWhile (\<lambda>e. fst e < fst x) (es @ fs) = dropWhile (\<lambda>e. fst e < fst x) fs"
    using assms(1) by (simp_all add: takeWhile_append2 dropWhile_append2)
  with assms(2) show ?thesis by (cases fs) (auto simp: insert_rest_def)
qed

text \<open>What the operations on sleeping threads leave alone, outside the list nodes \<open>ns\<close>.\<close>

definition sleep_frame :: "kernel \<Rightarrow> kernel \<Rightarrow> u64 set \<Rightarrow> bool" where
  "sleep_frame s u ns \<longleftrightarrow> threads u = threads s \<and> contexts u = contexts s \<and> sems u = sems s
     \<and> running u = running s \<and> sched u = (sched s)\<lparr>sleeping_threads := sleeping_threads (sched u)\<rparr>
     \<and> threads_waiting_for_input u = threads_waiting_for_input s \<and> console_receive_cnt u = console_receive_cnt s
     \<and> (\<forall>n. n \<notin> ns \<longrightarrow> list_nodes u n = list_nodes s n)"

lemma set_prev_next: "set_prev p a (set_next q b ns) = set_next q b (set_prev p a ns)"
  by (auto simp: set_prev_def set_next_def fun_eq_iff)

lemma set_sleeper_simps [simp]:
  "sleeping (set_sleeper p t h d s) = (sleeping s)(p := \<lparr>slp_thread = t, slp_semaphore = h, slp_delta = d\<rparr>)"
  "list_nodes (set_sleeper p t h d s) = list_nodes s" "sched (set_sleeper p t h d s) = sched s"
  "threads (set_sleeper p t h d s) = threads s" "contexts (set_sleeper p t h d s) = contexts s"
  "sems (set_sleeper p t h d s) = sems s" "running (set_sleeper p t h d s) = running s"
  "threads_waiting_for_input (set_sleeper p t h d s) = threads_waiting_for_input s" "console_receive_cnt (set_sleeper p t h d s) = console_receive_cnt s"
  "mem_state.truncate (set_sleeper p t h d s) = mem_state.truncate s"
  by (cases "sleeping s p";
      simp add: set_sleeper_def upd_sleeper_def Let_def running_def mem_state.truncate_def)+

lemma upd_nodes_simps [simp]:
  "list_nodes (upd_nodes f s) = f (list_nodes s)" "sleeping (upd_nodes f s) = sleeping s"
  "sched (upd_nodes f s) = sched s" "threads (upd_nodes f s) = threads s"
  "contexts (upd_nodes f s) = contexts s" "sems (upd_nodes f s) = sems s"
  "running (upd_nodes f s) = running s"
  "threads_waiting_for_input (upd_nodes f s) = threads_waiting_for_input s" "console_receive_cnt (upd_nodes f s) = console_receive_cnt s"
  by (simp_all add: upd_nodes_def running_def)

lemma upd_sched_simps [simp]:
  "sched (upd_sched g s) = g (sched s)" "list_nodes (upd_sched g s) = list_nodes s"
  "sleeping (upd_sched g s) = sleeping s" "threads (upd_sched g s) = threads s"
  "contexts (upd_sched g s) = contexts s" "sems (upd_sched g s) = sems s"
  "running (upd_sched g s) = running s"
  "threads_waiting_for_input (upd_sched g s) = threads_waiting_for_input s" "console_receive_cnt (upd_sched g s) = console_receive_cnt s"
  by (simp_all add: upd_sched_def running_def)

lemma upd_sleeper_simps [simp]:
  "sleeping (upd_sleeper p f s) = (sleeping s)(p := f (sleeping s p))"
  "list_nodes (upd_sleeper p f s) = list_nodes s" "sched (upd_sleeper p f s) = sched s"
  "threads (upd_sleeper p f s) = threads s" "contexts (upd_sleeper p f s) = contexts s"
  "sems (upd_sleeper p f s) = sems s" "running (upd_sleeper p f s) = running s"
  "threads_waiting_for_input (upd_sleeper p f s) = threads_waiting_for_input s" "console_receive_cnt (upd_sleeper p f s) = console_receive_cnt s"
  by (simp_all add: upd_sleeper_def running_def)

lemma same_heap_running: "same_heap s (t :: kernel) \<Longrightarrow> running t = running s"
  by (simp add: running_def same_heap_kernel)

text \<open>The wake-up times after an entry with the right delta is put between two parts of the list.\<close>

lemma wakes_inserted:
  assumes d: "distinct (xs @ q # zs)"
    and same: "\<And>p. p \<noteq> q \<Longrightarrow> zs = [] \<or> p \<noteq> hd zs \<Longrightarrow> sleeping u p = sleeping s p"
    and next_same: "zs \<noteq> [] \<Longrightarrow> slp_thread (sleeping u (hd zs)) = slp_thread (sleeping s (hd zs))
      \<and> slp_semaphore (sleeping u (hd zs)) = slp_semaphore (sleeping s (hd zs))"
    and new: "sleeping u q = \<lparr>slp_thread = t, slp_semaphore = h, slp_delta = dq\<rparr>"
    and time: "total s xs + unat dq = time"
    and later: "zs \<noteq> [] \<Longrightarrow> unat dq + delay u (hd zs) = delay s (hd zs)"
  shows "wakes u (xs @ q # zs) = wakes s xs @ (time, t, h) # wakes_from (total s xs) s zs"
    and "total u (xs @ q # zs) = (if zs = [] then time else total s (xs @ zs))"
proof -
  have x: "wakes_from a u xs = wakes_from a s xs" "total u xs = total s xs" for a
    using d by (auto intro!: wakes_cong same)
  have dq: "delay u q = unat dq" by (simp add: delay_def new)
  show "wakes u (xs @ q # zs) = wakes s xs @ (time, t, h) # wakes_from (total s xs) s zs"
    and "total u (xs @ q # zs) = (if zs = [] then time else total s (xs @ zs))"
  proof (atomize (full), cases zs)
    case Nil
    then show "wakes u (xs @ q # zs) = wakes s xs @ (time, t, h) # wakes_from (total s xs) s zs \<and>
        total u (xs @ q # zs) = (if zs = [] then time else total s (xs @ zs))"
      using x dq new time by simp
  next
    case (Cons z ws)
    have w: "wakes_from a u ws = wakes_from a s ws" "total u ws = total s ws" for a
      using d Cons by (auto intro!: wakes_cong same)
    have "total s xs + unat dq + delay u z = total s xs + delay s z" using later Cons by simp
    then show "wakes u (xs @ q # zs) = wakes s xs @ (time, t, h) # wakes_from (total s xs) s zs \<and>
        total u (xs @ q # zs) = (if zs = [] then time else total s (xs @ zs))"
      using x w dq new time next_same Cons by (simp add: add.assoc)
  qed
qed

text \<open>The ring after the insertion.\<close>

lemma sleepers_insertI:
  assumes "ring (list_nodes u) (map sleeper_node (p # ps))"
    and "sleeping_threads (sched u) = sleeper_node p" and "0 \<notin> sleeper_node ` set (p # ps)"
  shows "sleepers u (p # ps)"
  using assms by (simp add: sleepers_def queue_Cons)

lemma timeout_empty:
  assumes q: "sleepers s []" and a: "mem_alloc 1 s = Inr (q, v)" and nz: "sleeper_node q \<noteq> 0"
  obtains u where "scheduler_timeout t time h s = Inr u" and "sleepers u [q]"
    and "wakes u [q] = [(unat time, t, h)]" and "total u [q] = unat time"
    and "sleep_frame s u {sleeper_node q}" and "mem_state.truncate u = mem_state.truncate v"
proof -
  have hd: "sleeping_threads (sched s) = 0" using sleepers_empty [OF q] by simp
  have sh: "same_heap s v" using a by (rule mem_alloc_same)
  note f = same_heap_kernel [OF sh] same_heap_running [OF sh]
  define u where "u = upd_sched (\<lambda>c. c\<lparr>sleeping_threads := sleeper_node q\<rparr>)
    (upd_nodes (self_link (sleeper_node q)) (set_sleeper q t h time v))"
  have e: "scheduler_timeout t time h s = Inr u"
    by (simp add: scheduler_timeout_def hd a u_def Let_def)
  have n: "list_nodes u = self_link (sleeper_node q) (list_nodes s)" by (simp add: u_def f)
  have "sleepers u [q]"
    using nz by (intro sleepers_insertI) (simp_all add: n ring_self_link, simp add: u_def)
  moreover have "sleep_frame s u {sleeper_node q}"
    unfolding sleep_frame_def n by (simp add: u_def f self_link_def set_next_def set_prev_def)
  ultimately show thesis using e that by (simp add: u_def delay_def)
qed

lemma timeout_front:
  assumes q: "sleepers s (p # ps)" and lt: "time < slp_delta (sleeping s p)"
    and a: "mem_alloc 1 (upd_sleeper p (\<lambda>c. c\<lparr>slp_delta := slp_delta c - time\<rparr>) s) = Inr (q, v)"
    and new: "q \<notin> set (p # ps)" and nz: "sleeper_node q \<noteq> 0"
  obtains u where "scheduler_timeout t time h s = Inr u" and "sleepers u (q # p # ps)"
    and "wakes u (q # p # ps) = (unat time, t, h) # wakes s (p # ps)"
    and "total u (q # p # ps) = total s (p # ps)"
    and "sleep_frame s u (sleeper_node ` set (q # p # ps))" and "mem_state.truncate u = mem_state.truncate v"
proof -
  let ?s = "upd_sleeper p (\<lambda>c. c\<lparr>slp_delta := slp_delta c - time\<rparr>) s"
  have r: "ring (list_nodes s) (map sleeper_node (p # ps))" and hd: "sleeping_threads (sched s) = sleeper_node p"
    using sleepers_ring [OF q] by simp_all
  have z: "0 \<notin> sleeper_node ` set (p # ps)" using q by (auto simp: sleepers_def queue_Cons)
  have sh: "same_heap ?s v" using a by (rule mem_alloc_same)
  note f = same_heap_kernel [OF sh] same_heap_running [OF sh]
  define u where "u = upd_sched (\<lambda>c. c\<lparr>sleeping_threads := sleeper_node q\<rparr>)
    (upd_nodes (list_insert (sleeper_node p) (sleeper_node q)) (set_sleeper q t h time v))"
  have e: "scheduler_timeout t time h s = Inr u"
    using lt z by (simp add: scheduler_timeout_def hd a u_def Let_def upd_nodes_def list_insert_def set_prev_next image_iff)
  have n: "list_nodes u = list_insert (sleeper_node p) (sleeper_node q) (list_nodes s)" by (simp add: u_def f)
  have "ring (list_nodes u) (map sleeper_node (p # ps) @ [sleeper_node q])"
    using ring_insert [OF r, of "sleeper_node q"] new by (simp add: n image_iff)
  then have "ring (list_nodes u) ([sleeper_node q] @ map sleeper_node (p # ps))" by (rule ring_rotate)
  then have 1: "sleepers u (q # p # ps)" using z nz by (intro sleepers_insertI) (simp_all add: u_def)
  have le: "time \<le> slp_delta (sleeping s p)" using lt by simp
  have sl: "sleeping u = (sleeping s)(p := (sleeping s p)\<lparr>slp_delta := slp_delta (sleeping s p) - time\<rparr>,
      q := \<lparr>slp_thread = t, slp_semaphore = h, slp_delta = time\<rparr>)"
    by (simp add: u_def f)
  have dp: "unat time + delay u p = delay s p"
    using new unat_sub [OF le] le by (auto simp: delay_def sl word_le_nat_alt)
  have d: "distinct ([] @ q # p # ps)" using new sleepers_distinct [OF q] by simp
  have w: "wakes u ([] @ q # p # ps) = wakes s [] @ (unat time, t, h) # wakes_from (total s []) s (p # ps)"
    and tt: "total u ([] @ q # p # ps) = (if p # ps = [] then unat time else total s ([] @ p # ps))"
    using new dp by (intro wakes_inserted [OF d, where dq = time]; auto simp: sl)+
  have "list_nodes u m = list_nodes s m" if "m \<notin> sleeper_node ` set (q # p # ps)" for m
    unfolding n using ring_insert_frame [OF r, of "sleeper_node p" m "sleeper_node q"] that by simp
  then have fr: "sleep_frame s u (sleeper_node ` set (q # p # ps))"
    unfolding sleep_frame_def by (simp add: u_def f)
  have w1: "wakes u (q # p # ps) = (unat time, t, h) # wakes s (p # ps)"
    using w by (simp only: append_Nil total_simps(1) wakes_from.simps(1))
  have t1: "total u (q # p # ps) = total s (p # ps)"
    using tt by (simp only: append_Nil list.distinct if_False)
  show thesis by (rule that [OF e 1 w1 t1 fr]) (simp add: u_def)
qed

lemma timeout_later:
  assumes q: "sleepers s (p # ps)" and b: "total s (p # ps) < 18446744073709551616"
    and nlt: "\<not> time < slp_delta (sleeping s p)"
    and a: "mem_alloc 1 s = Inr (q, v)"
    and new: "q \<notin> set (p # ps)" and nz: "sleeper_node q \<noteq> 0"
  obtains u ys zs where "ps = ys @ zs" and "scheduler_timeout t time h s = Inr u"
    and "sleepers u (p # ys @ q # zs)"
    and "wakes u (p # ys @ q # zs) = insert_wake (unat time, t, h) (wakes s (p # ps))"
    and "total u (p # ys @ q # zs) < 18446744073709551616"
    and "sleep_frame s u (sleeper_node ` set (q # p # ps))" and "mem_state.truncate u = mem_state.truncate v"
proof -
  have r: "ring (list_nodes s) (map sleeper_node (p # ps))" and hd: "sleeping_threads (sched s) = sleeper_node p"
    using sleepers_ring [OF q] by simp_all
  have z: "0 \<notin> sleeper_node ` set (p # ps)" using q by (auto simp: sleepers_def queue_Cons)
  have sh: "same_heap s v" using a by (rule mem_alloc_same)
  note f = same_heap_kernel [OF sh] same_heap_running [OF sh]
  have "\<exists>ys zs dl. ps = ys @ zs
    \<and> timeout_loop time (sleeper_node p) 0 s =
        Some (Inr (if zs = [] then sleeper_node p else sleeper_node (hd zs), dl))
    \<and> unat dl = total s ([] @ p # ys)
    \<and> (\<forall>e \<in> set (wakes_from (total s ([] @ [p])) s ys). fst e < unat time)
    \<and> (zs \<noteq> [] \<longrightarrow> unat time \<le> unat dl + delay s (hd zs))"
    by (rule timeout_loop_walk [where s = s and xs = "[]" and p = p and rs = ps and delta = 0 and time = time,
        unfolded hd]) (use q b in simp_all)
  then obtain ys zs dl where w: "ps = ys @ zs"
    "timeout_loop time (sleeper_node p) 0 s =
      Some (Inr (if zs = [] then sleeper_node p else sleeper_node (hd zs), dl))"
    "unat dl = total s (p # ys)" "\<forall>e \<in> set (wakes_from (total s [p]) s ys). fst e < unat time"
    "zs \<noteq> [] \<longrightarrow> unat time \<le> unat dl + delay s (hd zs)"
    unfolding append_Nil by blast
  let ?n = "if zs = [] then sleeper_node p else sleeper_node (hd zs)"
  define x where "x = upd_nodes (list_insert ?n (sleeper_node q)) (set_sleeper q t h (time - dl) v)"
  define u where "u = (if zs = [] then x else upd_sleeper (hd zs) (\<lambda>c. c\<lparr>slp_delta := slp_delta c - (time - dl)\<rparr>) x)"
  have d: "distinct (p # ys @ q # zs)" using new sleepers_distinct [OF q] w(1) by auto
  have nh: "zs \<noteq> [] \<Longrightarrow> sleeper_node (hd zs) \<noteq> sleeper_node p" using d hd_in_set [of zs] by auto
  have e: "scheduler_timeout t time h s = Inr u"
  proof -
    have "sleeper_node p \<noteq> 0" using z by auto
    with nlt nh show ?thesis
      by (auto simp: scheduler_timeout_def hd w(2) a u_def x_def Let_def f)
  qed
  have n: "list_nodes u = list_insert ?n (sleeper_node q) (list_nodes s)" by (simp add: u_def x_def f)
  have fr: "list_nodes u m = list_nodes s m" if "m \<notin> sleeper_node ` set (q # p # ps)" for m
    unfolding n using ring_insert_frame [OF r, of ?n m "sleeper_node q"] that w(1) by (auto simp: image_iff)
  have "ring (list_nodes u) (map sleeper_node (p # ys @ q # zs))"
  proof (cases zs)
    case Nil
    then show ?thesis using ring_insert [OF r, of "sleeper_node q"] new w(1) by (simp add: n image_iff)
  next
    case (Cons y ws)
    then show ?thesis
      using ring_insert_before [of "list_nodes s" "map sleeper_node (p # ys)" "sleeper_node y" "map sleeper_node ws"
          "sleeper_node q"] r new w(1) by (simp add: n image_iff)
  qed
  then have 1: "sleepers u (p # ys @ q # zs)"
    using z nz w(1) by (intro sleepers_insertI) (auto simp: u_def x_def f hd)
  have le: "dl \<le> time"
  proof (cases ys rule: rev_cases)
    case Nil
    then show ?thesis using w(3) nlt by (simp add: word_le_nat_alt word_less_nat_alt delay_def)
  next
    case (snoc ys' y)
    then have "total s (p # ys) < unat time" using w(4) by (simp add: add.assoc)
    then show ?thesis using w(3) by (simp add: word_le_nat_alt)
  qed
  then have td: "total s (p # ys) + unat (time - dl) = unat time"
    using w(3) unat_sub [OF le] by (simp add: word_le_nat_alt)
  have sq: "sleeping u q = \<lparr>slp_thread = t, slp_semaphore = h, slp_delta = time - dl\<rparr>"
    and so: "\<And>p. p \<noteq> q \<Longrightarrow> zs = [] \<or> p \<noteq> hd zs \<Longrightarrow> sleeping u p = sleeping s p"
    and sz: "zs \<noteq> [] \<Longrightarrow> sleeping u (hd zs) = (sleeping s (hd zs))\<lparr>slp_delta := slp_delta (sleeping s (hd zs)) - (time - dl)\<rparr>"
    using d hd_in_set [of zs] by (auto simp: u_def x_def f)
  have later: "unat (time - dl) + delay u (hd zs) = delay s (hd zs)" if zs: "zs \<noteq> []"
  proof -
    have "unat (time - dl) \<le> delay s (hd zs)" using w(5) zs unat_sub [OF le] by simp
    then have "time - dl \<le> slp_delta (sleeping s (hd zs))" by (simp add: word_le_nat_alt delay_def)
    from unat_sub [OF this] this show ?thesis using zs by (simp add: delay_def sz word_le_nat_alt)
  qed
  have W: "wakes u ((p # ys) @ q # zs) = wakes s (p # ys) @ (unat time, t, h) # wakes_from (total s (p # ys)) s zs"
    and T: "total u ((p # ys) @ q # zs) = (if zs = [] then unat time else total s ((p # ys) @ zs))"
    using sz td later sq by (intro wakes_inserted [where dq = "time - dl"]; simp add: so d [simplified])+
  have "insert_wake (unat time, t, h) (wakes s (p # ps)) = hd (wakes s (p # ps)) #
      insert_rest (unat time, t, h) (wakes_from (delay s p) s ys @ wakes_from (total s (p # ys)) s zs)"
    using nlt w(1) by (simp add: delay_def word_less_nat_alt)
  also have "insert_rest (unat time, t, h) (wakes_from (delay s p) s ys @ wakes_from (total s (p # ys)) s zs) =
      wakes_from (delay s p) s ys @ (unat time, t, h) # wakes_from (total s (p # ys)) s zs"
    using w(3-5) by (intro insert_rest_split; cases zs) auto
  finally have I: "insert_wake (unat time, t, h) (wakes s (p # ps)) = hd (wakes s (p # ps)) #
      wakes_from (delay s p) s ys @ (unat time, t, h) # wakes_from (total s (p # ys)) s zs" .
  have "wakes s (p # ys) = hd (wakes s (p # ps)) # wakes_from (delay s p) s ys" by simp
  then have "wakes u (p # ys @ q # zs) = insert_wake (unat time, t, h) (wakes s (p # ps))"
    using W by (simp only: I append_Cons)
  moreover have "total u (p # ys @ q # zs) < 18446744073709551616"
    using T b w(1) unat_u64_bound [of time] by simp
  moreover have "sleep_frame s u (sleeper_node ` set (q # p # ps))"
    unfolding sleep_frame_def using fr by (auto simp: u_def x_def f)
  ultimately show thesis using w(1) e 1 by (intro that [of ys zs u]) (simp_all add: u_def x_def)
qed


lemma timeout_inserts:
  assumes q: "sleepers s ps" and b: "total s ps < 18446744073709551616"
    and o: "owns s L" and l: "\<forall>p \<in> set ps. (p, 1) \<in> L"
    and a: "mem_alloc 1 s = Inr (q, v)" and nz: "q \<noteq> 0"
  obtains u qs where "scheduler_timeout t time h s = Inr u" and "sleepers u qs"
    and "set qs = insert q (set ps)" and "wakes u qs = insert_wake (unat time, t, h) (wakes s ps)"
    and "total u qs < 18446744073709551616" and "owns u (insert (q, 1) L)" and "(q, 1) \<notin> L"
    and "sleep_frame s u (sleeper_node ` set qs)"
proof -
  have ov: "owns v (insert (q, 1) L)" using mem_heap.alloc_fresh [OF o _ a nz] by simp
  have new: "(q, 1) \<notin> L" using mem_heap.alloc_not_owned [OF o _ a nz] by simp
  with l have np: "q \<notin> set ps" by blast
  have nn: "sleeper_node q \<noteq> 0" by (rule owned_node [OF ov]) simp
  show thesis
  proof (cases ps)
    case Nil
    obtain u where u: "scheduler_timeout t time h s = Inr u" "sleepers u [q]"
      "wakes u [q] = [(unat time, t, h)]" "total u [q] = unat time"
      "sleep_frame s u {sleeper_node q}" "mem_state.truncate u = mem_state.truncate v"
      using timeout_empty [OF q [unfolded Nil] a nn] by blast
    show thesis
      using Nil u(3,4,5) ov owns_cong [OF u(6)] unat_u64_bound [of time]
      by (intro that [OF u(1,2) _ _ _ _ new]) simp_all
  next
    case (Cons p rs)
    show thesis
    proof (cases "time < slp_delta (sleeping s p)")
      case True
      let ?s = "upd_sleeper p (\<lambda>c. c\<lparr>slp_delta := slp_delta c - time\<rparr>) s"
      have "mem_state.truncate ?s = mem_state.truncate s" by simp
      then obtain v' where v': "mem_alloc 1 ?s = Inr (q, v')" "owns v' (insert (q, 1) L)"
        by - (rule owned_alloc_cong [OF o _ a nz, of ?s]; simp)
      obtain u where u: "scheduler_timeout t time h s = Inr u" "sleepers u (q # p # rs)"
        "wakes u (q # p # rs) = (unat time, t, h) # wakes s (p # rs)"
        "total u (q # p # rs) = total s (p # rs)"
        "sleep_frame s u (sleeper_node ` set (q # p # rs))" "mem_state.truncate u = mem_state.truncate v'"
        using timeout_front [OF q [unfolded Cons] True v'(1) np [unfolded Cons] nn] by blast
      have "insert_wake (unat time, t, h) (wakes s ps) = (unat time, t, h) # wakes s (p # rs)"
        using True Cons by (simp add: delay_def word_less_nat_alt)
      with u(3) have w: "wakes u (q # p # rs) = insert_wake (unat time, t, h) (wakes s ps)" by (simp only:)
      have "owns u (insert (q, 1) L)" using v'(2) owns_cong [OF u(6)] by simp
      then show thesis
        using Cons b u(4) by (intro that [OF u(1,2) _ w _ _ new u(5)]) simp_all
    next
      case False
      obtain u ys zs where u: "rs = ys @ zs" "scheduler_timeout t time h s = Inr u"
        "sleepers u (p # ys @ q # zs)"
        "wakes u (p # ys @ q # zs) = insert_wake (unat time, t, h) (wakes s (p # rs))"
        "total u (p # ys @ q # zs) < 18446744073709551616"
        "sleep_frame s u (sleeper_node ` set (q # p # rs))" "mem_state.truncate u = mem_state.truncate v"
        using timeout_later [OF q [unfolded Cons] b [unfolded Cons] False a np [unfolded Cons] nn, of t h] by blast
      have s: "set (p # ys @ q # zs) = insert q (set ps)" using Cons u(1) by auto
      have "owns u (insert (q, 1) L)" using ov owns_cong [OF u(7)] by simp
      moreover have "sleep_frame s u (sleeper_node ` set (p # ys @ q # zs))"
        unfolding s using u(6) Cons by simp
      ultimately show thesis
        using that [OF u(2,3) s u(4) [folded Cons] u(5) _ new] by blast
    qed
  qed
qed

lemma mset_insert_wake: "mset (insert_wake x es) = add_mset x (mset es)"
proof (cases es)
  case (Cons e fs)
  have "mset (insert_rest x fs) = add_mset x (mset fs)"
    by (simp add: insert_rest_def) (simp only: mset_append [symmetric] takeWhile_dropWhile_id)
  with Cons show ?thesis by simp
qed simp

lemma sorted_wakes: "sorted (map fst (wakes_from a s ps))"
  by (induction ps arbitrary: a) (auto dest: wakes_from_bounds)

section \<open>The timer tick: correctness\<close>

lemma free_sleeper_owned:
  assumes "owns s L" and "(p, 1) \<in> L"
  obtains u where "free_sleeper p s = Inr u" and "owns u (L - {(p, 1)})" and "same_heap s u"
proof -
  obtain u where u: "mem_free p s = (0, u)" "owns u (L - {(p, 1)})"
    using mem_heap.free_owned [OF assms] by blast
  then show thesis using mem_free_same [OF u(1)] by (intro that [of u]) (simp_all add: free_sleeper_def)
qed

text \<open>A kernel whose sleeping threads are \<open>ps\<close> and whose ready threads are \<open>ts\<close>: the sleeping threads are
  allocated, different from each other and from the ready ones, and the list nodes of both kinds do not
  overlap. In \<open>sleep_ok\<close> none of them waits for a semaphore.\<close>

definition sleeper_thread :: "kernel \<Rightarrow> u64 \<Rightarrow> u64" where
  "sleeper_thread s p = slp_thread (sleeping s p)"

definition timers_ok :: "kernel \<Rightarrow> u64 list \<Rightarrow> u64 list \<Rightarrow> (u64 \<times> int) set \<Rightarrow> bool" where
  "timers_ok s ts ps L \<longleftrightarrow> sleepers s ps \<and> ready_queue s ts \<and> owns s L
     \<and> (\<forall>p \<in> set ps. (p, 1) \<in> L \<and> thread_node (sleeper_thread s p) \<noteq> 0)
     \<and> distinct (ts @ map (sleeper_thread s) ps)
     \<and> thread_node ` (set ts \<union> sleeper_thread s ` set ps) \<inter> sleeper_node ` set ps = {}"

definition sleep_ok :: "kernel \<Rightarrow> u64 list \<Rightarrow> u64 list \<Rightarrow> (u64 \<times> int) set \<Rightarrow> bool" where
  "sleep_ok s ts ps L \<longleftrightarrow> timers_ok s ts ps L \<and> (\<forall>p \<in> set ps. slp_semaphore (sleeping s p) = 0)"

lemma timers_ok_sems [simp]: "timers_ok (s\<lparr>sems := m\<rparr>) ts ps L = timers_ok s ts ps L"
proof -
  have "owns (s\<lparr>sems := m\<rparr>) L = owns s L" by (rule owns_cong) (simp add: mem_state.truncate_def)
  then show ?thesis by (simp add: timers_ok_def sleepers_def ready_queue_def sleeper_thread_def [abs_def])
qed

text \<open>A thread whose time is over leaves its semaphore; \<open>timed_out\<close> is what that does to the semaphore when no
  other thread waits.\<close>

definition waiting_at :: "u64 \<Rightarrow> kernel \<Rightarrow> u64 list \<Rightarrow> bool" where
  "waiting_at h s ws \<longleftrightarrow> thread_queue_at (list_nodes s) (sem_waiting (sems s h)) ws"

definition timed_out :: "u64 \<Rightarrow> (u64 \<Rightarrow> sem_t) \<Rightarrow> u64 \<Rightarrow> sem_t" where
  "timed_out h m = (if h = 0 then m else m(h := (m h)\<lparr>sem_val := sem_val (m h) + 1, sem_waiting := 0\<rparr>))"

definition waits_alone :: "kernel \<Rightarrow> u64 \<Rightarrow> bool" where
  "waits_alone s p \<longleftrightarrow> slp_semaphore (sleeping s p) = 0
     \<or> waiting_at (slp_semaphore (sleeping s p)) s [sleeper_thread s p]"

definition leave_sem :: "u64 \<Rightarrow> kernel \<Rightarrow> kernel vres" where
  "leave_sem p s = (if slp_semaphore (sleeping s p) \<noteq> 0
     then sem_remove_thread (slp_semaphore (sleeping s p)) (sleeper_thread s p) s else Inr s)"

lemma remove_only_waiter:
  assumes "waiting_at h s [x]" and "h \<noteq> 0"
  shows "sem_remove_thread h t s = Inr (s\<lparr>sems := timed_out h (sems s)\<rparr>)"
proof -
  have "sem_waiting (sems s h) = thread_node x" "thread_node x \<noteq> 0"
    "list_next (list_nodes s (thread_node x)) = thread_node x"
    using assms(1) by (simp_all add: waiting_at_def thread_queue_at_def queue_Cons ring_singleton)
  then show ?thesis by (simp add: sem_remove_thread_def upd_sem_def Let_def timed_out_def assms(2))
qed

lemma leave_sem_alone:
  assumes "waits_alone s p"
  shows "leave_sem p s = Inr (s\<lparr>sems := timed_out (slp_semaphore (sleeping s p)) (sems s)\<rparr>)"
  using assms remove_only_waiter by (auto simp: leave_sem_def waits_alone_def timed_out_def)

lemma waits_alone_kept:
  assumes "waits_alone s p" and "waits_alone s q" and "sleeper_thread s p \<noteq> sleeper_thread s q"
    and "sleeping v = sleeping s" and "sems v = timed_out (slp_semaphore (sleeping s p)) (sems s)"
    and "list_nodes v (thread_node (sleeper_thread s q)) = list_nodes s (thread_node (sleeper_thread s q))"
  shows "waits_alone v q"
proof (cases "slp_semaphore (sleeping s q) = 0")
  case False
  let ?h = "slp_semaphore (sleeping s q)"
  have q: "waiting_at ?h s [sleeper_thread s q]" using assms(2) False by (simp add: waits_alone_def)
  then have e: "sem_waiting (sems s ?h) = thread_node (sleeper_thread s q)"
    by (simp add: waiting_at_def thread_queue_at_def queue_Cons)
  have "slp_semaphore (sleeping s p) \<noteq> ?h"
  proof
    assume h: "slp_semaphore (sleeping s p) = ?h"
    then have "waiting_at ?h s [sleeper_thread s p]" using assms(1) False by (simp add: waits_alone_def)
    then have "sem_waiting (sems s ?h) = thread_node (sleeper_thread s p)"
      by (simp add: waiting_at_def thread_queue_at_def queue_Cons)
    with e assms(3) show False by simp
  qed
  then have "sems v ?h = sems s ?h" by (simp add: assms(5) timed_out_def)
  then have "waiting_at ?h v [sleeper_thread s q]"
    using q assms(6) by (simp add: waiting_at_def thread_queue_at_def queue_Cons ring_singleton)
  then show ?thesis by (simp add: waits_alone_def assms(4) sleeper_thread_def)
qed (simp add: waits_alone_def assms(4))

lemma same_heap_queues:
  assumes "same_heap s (u :: kernel)"
  shows "ready_queue u ts = ready_queue s ts" and "sleepers u ps = sleepers s ps"
  using same_heap_kernel [OF assms] by (simp_all add: ready_queue_def sleepers_def)

lemma push_keeps_sleepers:
  assumes "sleepers s ps" and "ready_queue s ts" and "thread_node ` insert t (set ts) \<inter> sleeper_node ` set ps = {}"
  shows "sleepers (scheduler_push t s) ps"
proof -
  have f: "list_nodes (scheduler_push t s) q = list_nodes s q" if "q \<in> set (map sleeper_node ps)" for q
  proof -
    have "q \<in> sleeper_node ` set ps" using that by simp
    then have "q \<notin> thread_node ` insert t (set ts)" using assms(3) by blast
    then show ?thesis by (intro ready_push_frame [OF assms(2)]) auto
  qed
  have "queue (list_nodes (scheduler_push t s)) h (map sleeper_node ps) =
      queue (list_nodes s) h (map sleeper_node ps)" for h
    by (rule queue_cong) (rule f)
  then show ?thesis using assms(1) by (simp add: sleepers_def)
qed

text \<open>What a tick leaves alone, outside the list nodes \<open>ns\<close>: woken threads get a full time slice.\<close>

definition tick_frame :: "kernel \<Rightarrow> kernel \<Rightarrow> u64 set \<Rightarrow> bool" where
  "tick_frame s u ns \<longleftrightarrow> contexts u = contexts s \<and> sems u = sems s
     \<and> thread_current (sched u) = thread_current (sched s) \<and> sch_kernel_main (sched u) = sch_kernel_main (sched s)
     \<and> user_thread_count (sched u) = user_thread_count (sched s)
     \<and> threads_waiting_for_input u = threads_waiting_for_input s \<and> console_receive_cnt u = console_receive_cnt s
     \<and> (\<forall>x. thr_time_left (threads u x) = thr_time_left (threads s x) \<or> thr_time_left (threads u x) = 2)
     \<and> (\<forall>x. thread_node x \<notin> ns \<longrightarrow> threads u x = threads s x)
     \<and> (\<forall>n. n \<notin> ns \<longrightarrow> list_nodes u n = list_nodes s n)"

lemma tick_frame_refl [simp]: "tick_frame s s ns"
  by (simp add: tick_frame_def)

lemma tick_frame_trans:
  assumes "tick_frame s t A" and "tick_frame t u B" and "A \<union> B \<subseteq> C"
  shows "tick_frame s u C"
  using assms unfolding tick_frame_def by (auto, metis, metis in_mono, metis in_mono)

lemma tick_wake_step:
  assumes lv: "leave_sem p s = Inr w" and sl0: "sleepers s (p # ps)" and sw: "sleeping w = sleeping s"
    and ok: "timers_ok w ts (p # ps) L"
  obtains u where "tick_wake p s = Inr (ps \<noteq> [], u)" and "timers_ok u (ts @ [sleeper_thread w p]) ps (L - {(p, 1)})"
    and "sleeping u = sleeping s"
    and "tick_frame w u (thread_node ` set (ts @ [sleeper_thread w p]) \<union> sleeper_node ` set (p # ps))"
proof -
  let ?t = "sleeper_thread w p"
  let ?s = "scheduler_push ?t w"
  have sl: "sleepers w (p # ps)" and rq: "ready_queue w ts" and ow: "owns w L" and pL: "(p, 1) \<in> L"
    and nz: "thread_node ?t \<noteq> 0"
    and dt: "distinct (ts @ map (sleeper_thread w) (p # ps))"
    and dj: "thread_node ` (set ts \<union> sleeper_thread w ` set (p # ps)) \<inter> sleeper_node ` set (p # ps) = {}"
    using ok by (simp_all add: timers_ok_def)
  have sl1: "sleepers ?s (p # ps)" using dj by (intro push_keeps_sleepers [OF sl rq]) auto
  have rq1: "ready_queue ?s (ts @ [?t])" using dt nz by (intro ready_push [OF rq]) auto
  have ow1: "owns ?s L" using ow owns_cong [of ?s w] by simp
  have hd: "sleeping_threads (sched w) = sleeper_node p" "sleeping_threads (sched s) = sleeper_node p"
    using sleepers_ring(2) [OF sl] sleepers_ring(2) [OF sl0] .
  define v where "v = (if ps = [] then upd_sched (\<lambda>c. c\<lparr>sleeping_threads := 0\<rparr>) ?s
    else (let s = upd_nodes (list_unlink (sleeper_node p)) ?s
          in upd_sched (\<lambda>c. c\<lparr>sleeping_threads := list_next (list_nodes s (sleeping_threads c))\<rparr>) s))"
  have nx: "list_next (list_nodes s (sleeper_node p)) = sleeper_node p \<longleftrightarrow> ps = []"
    using sleepers_next [of s "[]" p ps] sl0 sleepers_distinct [OF sl] hd by (auto simp: neq_Nil_conv)
  have nx1: "list_next (list_nodes ?s (sleeper_node p)) = sleeper_node p \<longleftrightarrow> ps = []"
    using sleepers_next [of ?s "[]" p ps] sl1 sleepers_distinct [OF sl] hd by (auto simp: neq_Nil_conv)
  have e: "tick_wake p s = seqr (free_sleeper p v) (\<lambda>s. Inr (ps \<noteq> [], s))"
    unfolding tick_wake_def lv [unfolded leave_sem_def sleeper_thread_def]
    by (simp add: hd nx v_def Let_def sleeper_thread_def sw)
  have pop: "ring_pop (sleeper_node p) (list_nodes ?s) = (sleeping_threads (sched v), list_nodes v)"
    using nx1 by (auto simp: ring_pop_def v_def Let_def hd)
  have q1: "queue (list_nodes ?s) (sleeper_node p) (sleeper_node p # map sleeper_node ps)"
    using sl1 hd by (simp add: sleepers_def)
  have slv: "sleepers v ps" using queue_pop(2) [OF q1] pop by (simp add: sleepers_def)
  have fr: "list_nodes v n = list_nodes ?s n" if "n \<in> set (map thread_node (ts @ [?t]))" for n
  proof -
    have "n \<in> thread_node ` (set ts \<union> sleeper_thread w ` set (p # ps))" using that by auto
    then have "n \<notin> sleeper_node ` set (p # ps)" using dj by blast
    then show ?thesis using ring_pop_frame [OF q1, of n] pop by simp
  qed
  have "ready_threads (sched v) = ready_threads (sched ?s)" by (simp add: v_def Let_def)
  then have rqv: "ready_queue v (ts @ [?t])"
    unfolding ready_queue_def thread_queue_at_def
    by (subst queue_cong [where ns = "list_nodes ?s"])
       (rule fr, use rq1 in \<open>simp_all add: ready_queue_def thread_queue_at_def\<close>)
  have "mem_state.truncate v = mem_state.truncate ?s" by (simp add: v_def Let_def)
  then have "owns v L" using ow1 owns_cong by blast
  then obtain u where u: "free_sleeper p v = Inr u" "owns u (L - {(p, 1)})" "same_heap v u"
    using pL by (rule free_sleeper_owned)
  have sv: "sleeping u = sleeping w" using same_heap_kernel(6) [OF u(3)] by (simp add: v_def Let_def)
  then have st: "sleeper_thread u = sleeper_thread w" by (simp add: sleeper_thread_def [abs_def])
  have "timers_ok u (ts @ [?t]) ps (L - {(p, 1)})"
    unfolding timers_ok_def same_heap_queues [OF u(3)] st sv
    using slv rqv u(2) ok sleepers_distinct [OF sl] by (auto simp: timers_ok_def)
  moreover have "list_nodes u n = list_nodes w n"
    if "n \<notin> thread_node ` set (ts @ [?t]) \<union> sleeper_node ` set (p # ps)" for n
  proof -
    have "list_nodes u n = list_nodes v n" by (simp add: same_heap_kernel [OF u(3)])
    also have "\<dots> = list_nodes ?s n" using ring_pop_frame [OF q1, of n] pop that by simp
    also have "\<dots> = list_nodes w n" using that by (intro ready_push_frame [OF rq]) auto
    finally show ?thesis .
  qed
  then have "tick_frame w u (thread_node ` set (ts @ [?t]) \<union> sleeper_node ` set (p # ps))"
    unfolding tick_frame_def
    by (simp add: same_heap_kernel [OF u(3)]) (simp add: v_def Let_def scheduler_push_fields)
  ultimately show thesis using that [of u] e u(1) sv sw by simp
qed

lemma tick_frame_sems_trans:
  assumes "tick_frame (s\<lparr>sems := m\<rparr>) t A" and "tick_frame (t\<lparr>sems := sems u\<rparr>) u B" and "A \<union> B \<subseteq> C"
  shows "tick_frame (s\<lparr>sems := sems u\<rparr>) u C"
  using assms unfolding tick_frame_def by (auto, metis, metis in_mono, metis in_mono)

lemma sems_upd_same [simp]:
  "sleeper_thread (s\<lparr>sems := m\<rparr>) = sleeper_thread s" "delay (s\<lparr>sems := m\<rparr>) = delay s"
  "sleepers (s\<lparr>sems := m\<rparr>) ps = sleepers s ps" "s\<lparr>sems := sems s\<rparr> = (s :: kernel)"
  by (simp_all add: sleeper_thread_def [abs_def] delay_def [abs_def] sleepers_def)

lemma tick_wake_alone:
  assumes ok: "timers_ok s ts (p # ps) L" and al: "waits_alone s p"
  obtains u where "tick_wake p s = Inr (ps \<noteq> [], u)" and "timers_ok u (ts @ [sleeper_thread s p]) ps (L - {(p, 1)})"
    and "sleeping u = sleeping s" and "sems u = timed_out (slp_semaphore (sleeping s p)) (sems s)"
    and "tick_frame (s\<lparr>sems := sems u\<rparr>) u (thread_node ` set (ts @ [sleeper_thread s p]) \<union> sleeper_node ` set (p # ps))"
proof -
  let ?w = "s\<lparr>sems := timed_out (slp_semaphore (sleeping s p)) (sems s)\<rparr>"
  have "sleepers s (p # ps)" using ok by (simp add: timers_ok_def)
  then obtain u where u: "tick_wake p s = Inr (ps \<noteq> [], u)" "timers_ok u (ts @ [sleeper_thread s p]) ps (L - {(p, 1)})"
    "sleeping u = sleeping s" "tick_frame ?w u (thread_node ` set (ts @ [sleeper_thread s p]) \<union> sleeper_node ` set (p # ps))"
    using tick_wake_step [OF leave_sem_alone [OF al], of ps ts L] ok by (auto simp del: set_append list.set image_insert)
  then have "sems u = sems ?w" by (simp add: tick_frame_def)
  with u show thesis by (intro that [of u]) simp_all
qed

lemma tick_loop_wakes:
  assumes "timers_ok s ts (p # ps) L" and "\<forall>q \<in> set (takeWhile (\<lambda>p. delay s p = 0) (p # ps)). waits_alone s q"
  shows "\<exists>u. let due = takeWhile (\<lambda>p. delay s p = 0) (p # ps) in tick_loop p s = Some (Inr u)
    \<and> timers_ok u (ts @ map (sleeper_thread s) due) (drop (length due) (p # ps)) (L - (\<lambda>p. (p, 1)) ` set due)
    \<and> sleeping u = sleeping s \<and> sems u = fold (\<lambda>q. timed_out (slp_semaphore (sleeping s q))) due (sems s)
    \<and> tick_frame (s\<lparr>sems := sems u\<rparr>) u
        (thread_node ` (set ts \<union> sleeper_thread s ` set (p # ps)) \<union> sleeper_node ` set (p # ps))"
  using assms
proof (induction ps arbitrary: s ts p L)
  case Nil
  show ?case
  proof (cases "delay s p = 0")
    case True
    with Nil have al: "waits_alone s p" by simp
    obtain u where u: "tick_wake p s = Inr (False, u)" "timers_ok u (ts @ [sleeper_thread s p]) [] (L - {(p, 1)})"
      "sleeping u = sleeping s" "sems u = timed_out (slp_semaphore (sleeping s p)) (sems s)"
      "tick_frame (s\<lparr>sems := sems u\<rparr>) u (thread_node ` set (ts @ [sleeper_thread s p]) \<union> sleeper_node ` set [p])"
      by (rule tick_wake_alone [OF Nil(1) al]) simp
    moreover have "thread_node ` set (ts @ [sleeper_thread s p]) =
        thread_node ` (set ts \<union> sleeper_thread s ` set [p])" by auto
    ultimately show ?thesis using True by (subst tick_loop.simps) (simp add: delay_def unat_eq_0)
  next
    case False
    then show ?thesis using Nil by (subst tick_loop.simps) (simp add: delay_def unat_eq_0)
  qed
next
  case (Cons r ps)
  show ?case
  proof (cases "delay s p = 0")
    case True
    with Cons.prems(2) have al: "waits_alone s p" by simp
    obtain v where v: "tick_wake p s = Inr (True, v)" "timers_ok v (ts @ [sleeper_thread s p]) (r # ps) (L - {(p, 1)})"
      "sleeping v = sleeping s" "sems v = timed_out (slp_semaphore (sleeping s p)) (sems s)"
      "tick_frame (s\<lparr>sems := sems v\<rparr>) v (thread_node ` set (ts @ [sleeper_thread s p]) \<union> sleeper_node ` set (p # r # ps))"
      by (rule tick_wake_alone [OF Cons.prems(1) al]) simp
    have "sleepers v (r # ps)" using v(2) by (simp add: timers_ok_def)
    then have hd: "sleeping_threads (sched v) = sleeper_node r" by (rule sleepers_ring(2))
    have st: "sleeper_thread v = sleeper_thread s" "delay v = delay s"
      using v(3) by (simp_all add: sleeper_thread_def [abs_def] delay_def [abs_def])
    define due where "due = takeWhile (\<lambda>p. delay s p = 0) (r # ps)"
    have w: "takeWhile (\<lambda>p. delay s p = 0) (p # r # ps) = p # due" using True by (simp add: due_def)
    have dt: "distinct (ts @ map (sleeper_thread s) (p # r # ps))"
      and dj: "thread_node ` (set ts \<union> sleeper_thread s ` set (p # r # ps)) \<inter> sleeper_node ` set (p # r # ps) = {}"
      using Cons.prems(1) by (simp_all add: timers_ok_def)
    have "waits_alone v q" if q: "q \<in> set due" for q
    proof (rule waits_alone_kept [OF al _ _ v(3,4)])
      have m: "q \<in> set (r # ps)" using q by (auto simp: due_def dest: set_takeWhileD split: if_splits)
      show "waits_alone s q" using Cons.prems(2) [unfolded w] q by simp
      have n: "sleeper_thread s q \<notin> set (ts @ [sleeper_thread s p])"
        using dt imageI [OF m, of "sleeper_thread s"] by auto
      then show "sleeper_thread s p \<noteq> sleeper_thread s q" by auto
      have "sleeper_thread s q \<in> set ts \<union> sleeper_thread s ` set (p # r # ps)" using m by (intro UnI2 imageI) simp
      then have "thread_node (sleeper_thread s q) \<notin> sleeper_node ` set (p # r # ps)" using dj by blast
      with n have "thread_node (sleeper_thread s q) \<notin> thread_node ` set (ts @ [sleeper_thread s p]) \<union> sleeper_node ` set (p # r # ps)"
        by (simp only: Un_iff thread_node_mem simp_thms)
      then show "list_nodes v (thread_node (sleeper_thread s q)) = list_nodes s (thread_node (sleeper_thread s q))"
        using v(5) unfolding tick_frame_def by simp
    qed
    then have al': "\<forall>q \<in> set (takeWhile (\<lambda>p. delay v p = 0) (r # ps)). waits_alone v q" unfolding st due_def by blast
    obtain u where u: "tick_loop r v = Some (Inr u)"
      "timers_ok u ((ts @ [sleeper_thread s p]) @ map (sleeper_thread s) due) (drop (length due) (r # ps))
        (L - {(p, 1)} - (\<lambda>p. (p, 1)) ` set due)" "sleeping u = sleeping s"
      "sems u = fold (\<lambda>q. timed_out (slp_semaphore (sleeping s q))) due (sems v)"
      "tick_frame (v\<lparr>sems := sems u\<rparr>) u (thread_node ` (set (ts @ [sleeper_thread s p]) \<union> sleeper_thread s ` set (r # ps))
        \<union> sleeper_node ` set (r # ps))"
      using Cons.IH [OF v(2) al'] unfolding st v(3) Let_def due_def by blast
    have "tick_loop p s = Some (Inr u)"
      using True v(1) hd u(1) by (subst tick_loop.simps) (simp add: delay_def unat_eq_0)
    moreover have "L - (\<lambda>p. (p, 1)) ` set (p # due) = L - {(p, 1)} - (\<lambda>p. (p, 1 :: int)) ` set due" by auto
    moreover have "tick_frame (s\<lparr>sems := sems u\<rparr>) u (thread_node ` (set ts \<union> sleeper_thread s ` set (p # r # ps))
        \<union> sleeper_node ` set (p # r # ps))"
      by (rule tick_frame_sems_trans [OF v(5) u(5)]) auto
    ultimately show ?thesis unfolding w Let_def using u(2,3,4) v(4) by (intro exI [of _ u]) simp
  next
    case False
    then show ?thesis using Cons.prems by (subst tick_loop.simps) (simp add: delay_def unat_eq_0)
  qed
qed

text \<open>Counting the first entry down.\<close>

lemma timers_ok_dec:
  assumes "timers_ok s ts ps L"
  shows "timers_ok (upd_sleeper p (\<lambda>c. c\<lparr>slp_delta := g c\<rparr>) s) ts ps L"
    and "sleeper_thread (upd_sleeper p (\<lambda>c. c\<lparr>slp_delta := g c\<rparr>) s) = sleeper_thread s"
proof -
  let ?s = "upd_sleeper p (\<lambda>c. c\<lparr>slp_delta := g c\<rparr>) s"
  show st: "sleeper_thread ?s = sleeper_thread s" by (auto simp: sleeper_thread_def)
  have "owns ?s L = owns s L" by (rule owns_cong) simp
  then show "timers_ok ?s ts ps L"
    using assms unfolding timers_ok_def st by (simp add: sleepers_def ready_queue_def)
qed

lemma due_wakes:
  "takeWhile (\<lambda>e. fst e = a) (wakes_from a s ps) = wakes_from a s (takeWhile (\<lambda>p. delay s p = 0) ps)
   \<and> total s (takeWhile (\<lambda>p. delay s p = 0) ps) = 0"
  by (induction ps arbitrary: a) simp_all

lemma map_thread_wakes: "map (\<lambda>e. fst (snd e)) (wakes_from a s ps) = map (sleeper_thread s) ps"
  by (induction ps arbitrary: a) (simp_all add: sleeper_thread_def)

lemma wakes_semaphores: "(\<lambda>e. snd (snd e)) ` set (wakes_from a s ps) = (\<lambda>p. slp_semaphore (sleeping s p)) ` set ps"
  by (induction ps arbitrary: a) simp_all

lemma wakes_member:
  "p \<in> set ps \<Longrightarrow> \<exists>e \<in> set (wakes_from a s ps). snd e = (slp_thread (sleeping s p), slp_semaphore (sleeping s p))"
  by (induction ps arbitrary: a) auto

lemma fold_wakes: "fold (\<lambda>e. f (snd (snd e))) (wakes_from a s ps) m = fold (\<lambda>p. f (slp_semaphore (sleeping s p))) ps m"
  by (induction ps arbitrary: a m) simp_all

lemma wakes_from_shift: "wakes_from (a + b) s ps = map (\<lambda>e. (b + fst e, snd e)) (wakes_from a s ps)"
proof (induction ps arbitrary: a)
  case (Cons p ps)
  show ?case using Cons.IH [of "a + delay s p"] by (simp add: add_ac)
qed simp

lemma drop_shift:
  "drop n xs = map (\<lambda>e. (fst e - 1, snd e)) (drop n (map (\<lambda>e. (1 + fst e, snd e)) (xs :: (nat \<times> 'a) list)))"
  by (simp add: drop_map o_def)

lemma timers_tick:
  assumes ok: "timers_ok s ts (p # ps) L" and d: "0 < delay s p"
    and al: "\<forall>(w, t, h) \<in> set (takeWhile (\<lambda>e. fst e = 1) (wakes s (p # ps))). h = 0 \<or> waiting_at h s [t]"
  defines "due \<equiv> takeWhile (\<lambda>e. fst e = 1) (wakes s (p # ps))"
  shows "\<exists>u. scheduler_tick s = Inr u
    \<and> timers_ok u (ts @ map (\<lambda>e. fst (snd e)) due) (drop (length due) (p # ps))
        (L - (\<lambda>p. (p, 1)) ` set (take (length due) (p # ps)))
    \<and> wakes u (drop (length due) (p # ps)) =
        map (\<lambda>e. (fst e - 1, snd e)) (drop (length due) (wakes s (p # ps)))
    \<and> sems u = fold (\<lambda>(w, t, h). timed_out h) due (sems s)
    \<and> tick_frame (s\<lparr>sems := sems u\<rparr>) u
        (thread_node ` (set ts \<union> sleeper_thread s ` set (p # ps)) \<union> sleeper_node ` set (p # ps))"
proof -
  let ?N = "thread_node ` (set ts \<union> sleeper_thread s ` set (p # ps)) \<union> sleeper_node ` set (p # ps)"
  let ?s = "upd_sleeper p (\<lambda>c. c\<lparr>slp_delta := slp_delta c - 1\<rparr>) s"
  have sl: "sleepers s (p # ps)" using ok by (simp add: timers_ok_def)
  have hd: "sleeping_threads (sched s) = sleeper_node p" by (rule sleepers_ring(2) [OF sl])
  have "sleeping_threads (sched s) \<noteq> 0" using sleepers_empty [OF sl] by simp
  then have e: "scheduler_tick s = (if delay ?s p \<noteq> 0 then Inr ?s else returned ?s (tick_loop p ?s))"
    by (simp add: scheduler_tick_def hd Let_def delay_def unat_eq_0)
  have ok1: "timers_ok ?s ts (p # ps) L" and st: "sleeper_thread ?s = sleeper_thread s"
    by (rule timers_ok_dec [OF ok])+
  have "1 \<le> slp_delta (sleeping s p)" using d by (simp add: delay_def word_le_nat_alt)
  from unat_sub [OF this] have dp: "delay ?s p + 1 = delay s p" using d by (simp add: delay_def)
  have np: "p \<notin> set ps" using sleepers_distinct [OF sl] by simp
  have "wakes_from a ?s ps = wakes_from a s ps" for a
    using np by (intro wakes_cong(1)) auto
  then have w1: "map (\<lambda>e. (1 + fst e, snd e)) (wakes ?s (p # ps)) = wakes s (p # ps)"
    using dp wakes_from_shift [of "delay ?s p" 1 s ps] by (simp add: add.commute)
  define q where "q = takeWhile (\<lambda>p. delay ?s p = 0) (p # ps)"
  have "due = takeWhile (\<lambda>e. fst e = 1) (map (\<lambda>e. (1 + fst e, snd e)) (wakes ?s (p # ps)))"
    unfolding due_def w1 ..
  also have "\<dots> = map (\<lambda>e. (1 + fst e, snd e)) (takeWhile (\<lambda>e. fst e = 0) (wakes ?s (p # ps)))"
    by (simp add: takeWhile_map o_def)
  finally have due: "due = map (\<lambda>e. (1 + fst e, snd e)) (wakes ?s q)"
    using due_wakes [of 0 ?s "p # ps"] by (simp only: q_def)
  then have len: "length due = length q" by simp
  have qt: "take (length q) (p # ps) = q" by (simp add: q_def takeWhile_eq_take [symmetric])
  have thr: "map (\<lambda>e. fst (snd e)) due = map (sleeper_thread s) q"
    using map_thread_wakes [of 0 ?s q] by (simp add: due o_def st)
  have sm: "fold (\<lambda>(w, t, h). timed_out h) due m = fold (\<lambda>q. timed_out (slp_semaphore (sleeping ?s q))) q m" for m
    by (simp only: due fold_map) (simp only: fold_wakes o_def case_prod_unfold fst_conv snd_conv)
  have al1: "\<forall>x \<in> set q. waits_alone ?s x"
  proof
    fix x assume "x \<in> set q"
    then have "\<exists>e \<in> set (wakes ?s q). snd e = (slp_thread (sleeping ?s x), slp_semaphore (sleeping ?s x))"
      by (rule wakes_member)
    then obtain w where "(w, slp_thread (sleeping ?s x), slp_semaphore (sleeping ?s x)) \<in> set due"
      unfolding due by force
    with al have "slp_semaphore (sleeping ?s x) = 0 \<or> waiting_at (slp_semaphore (sleeping ?s x)) s [slp_thread (sleeping ?s x)]"
      unfolding due_def by blast
    then show "waits_alone ?s x" unfolding waits_alone_def sleeper_thread_def by (simp add: waiting_at_def)
  qed
  obtain u where u: "scheduler_tick s = Inr u"
    "timers_ok u (ts @ map (sleeper_thread s) q) (drop (length q) (p # ps)) (L - (\<lambda>p. (p, 1)) ` set q)"
    "sleeping u = sleeping ?s" "sems u = fold (\<lambda>q. timed_out (slp_semaphore (sleeping ?s q))) q (sems s)"
    "tick_frame (?s\<lparr>sems := sems u\<rparr>) u ?N"
  proof (cases "delay ?s p = 0")
    case True
    obtain u where "tick_loop p ?s = Some (Inr u)"
      "timers_ok u (ts @ map (sleeper_thread s) q) (drop (length q) (p # ps)) (L - (\<lambda>p. (p, 1)) ` set q)"
      "sleeping u = sleeping ?s" "sems u = fold (\<lambda>q. timed_out (slp_semaphore (sleeping ?s q))) q (sems s)"
      "tick_frame (?s\<lparr>sems := sems u\<rparr>) u ?N"
      using tick_loop_wakes [OF ok1, unfolded Let_def st, folded q_def, OF al1] by auto
    then show thesis using True e by (intro that [of u]) simp_all
  next
    case False
    moreover have "tick_frame (?s\<lparr>sems := sems ?s\<rparr>) ?s ?N" by (simp only: sems_upd_same tick_frame_refl)
    ultimately show thesis by (intro that [of ?s]) (use e ok1 in \<open>simp_all add: q_def\<close>)
  qed
  have "wakes u (drop (length q) (p # ps)) = wakes ?s (drop (length q) (p # ps))"
    using u(3) by (intro wakes_cong(1)) simp
  also have "\<dots> = drop (length q) (wakes ?s (q @ drop (length q) (p # ps)))"
  proof -
    have "total ?s q = 0" unfolding q_def using due_wakes [of 0 ?s "p # ps"] by blast
    then have "wakes ?s (q @ rs) = wakes ?s q @ wakes ?s rs" for rs by (simp only: wakes_from_append add_0)
    then show ?thesis by (simp only: drop_append length_wakes diff_self_eq_0 drop_0 drop_all [OF order_refl] append_Nil)
        (simp only: length_wakes drop_all order_refl append_Nil)
  qed
  also have "q @ drop (length q) (p # ps) = p # ps" using qt by (metis append_take_drop_id)
  also have "drop (length q) (wakes ?s (p # ps)) =
      map (\<lambda>e. (fst e - 1, snd e)) (drop (length q) (map (\<lambda>e. (1 + fst e, snd e)) (wakes ?s (p # ps))))"
    by (rule drop_shift)
  finally have "wakes u (drop (length q) (p # ps)) =
      map (\<lambda>e. (fst e - 1, snd e)) (drop (length q) (wakes s (p # ps)))"
    unfolding w1 .
  moreover have "tick_frame (s\<lparr>sems := sems s\<rparr>) ?s {}" by (simp add: tick_frame_def)
  then have "tick_frame (s\<lparr>sems := sems u\<rparr>) u ?N" by (rule tick_frame_sems_trans [OF _ u(5)]) simp
  ultimately show ?thesis using u(1,2,4) unfolding len qt thr sm by blast
qed

text \<open>Without semaphores.\<close>

lemma fold_timed_out_none:
  "\<forall>e \<in> set es. snd (snd e) = 0 \<Longrightarrow> fold (\<lambda>(w, t, h). timed_out h) es m = m"
proof (induction es)
  case (Cons e es)
  then show ?case by (cases e) (simp add: timed_out_def)
qed simp

lemma tick_wakes:
  assumes ok: "sleep_ok s ts (p # ps) L" and d: "0 < delay s p"
  defines "due \<equiv> takeWhile (\<lambda>e. fst e = 1) (wakes s (p # ps))"
  shows "\<exists>u. scheduler_tick s = Inr u
    \<and> sleep_ok u (ts @ map (\<lambda>e. fst (snd e)) due) (drop (length due) (p # ps))
        (L - (\<lambda>p. (p, 1)) ` set (take (length due) (p # ps)))
    \<and> wakes u (drop (length due) (p # ps)) =
        map (\<lambda>e. (fst e - 1, snd e)) (drop (length due) (wakes s (p # ps)))
    \<and> tick_frame s u (thread_node ` (set ts \<union> sleeper_thread s ` set (p # ps)) \<union> sleeper_node ` set (p # ps))"
proof -
  let ?rs = "drop (length due) (p # ps)"
  have o: "timers_ok s ts (p # ps) L" and z: "\<forall>q \<in> set (p # ps). slp_semaphore (sleeping s q) = 0"
    using ok by (simp_all add: sleep_ok_def)
  have z': "snd (snd e) = 0" if "e \<in> set (wakes s (p # ps))" for e
  proof -
    have "snd (snd e) \<in> (\<lambda>e. snd (snd e)) ` set (wakes s (p # ps))" using that by (rule imageI)
    then obtain q where "q \<in> set (p # ps)" "snd (snd e) = slp_semaphore (sleeping s q)"
      unfolding wakes_semaphores by (rule imageE)
    then show ?thesis using z by metis
  qed
  have zd: "snd (snd e) = 0" if "e \<in> set due" for e
    using that z' unfolding due_def by (blast dest: set_takeWhileD)
  then have m: "fold (\<lambda>(w, t, h). timed_out h) due m = m" for m by (intro fold_timed_out_none) blast
  have "\<forall>(w, t, h) \<in> set due. h = 0 \<or> waiting_at h s [t]" using zd by auto
  from timers_tick [OF o d this [unfolded due_def], folded due_def] obtain u where
    u1: "scheduler_tick s = Inr u" "timers_ok u (ts @ map (\<lambda>e. fst (snd e)) due) ?rs
        (L - (\<lambda>p. (p, 1)) ` set (take (length due) (p # ps)))"
    "wakes u ?rs = map (\<lambda>e. (fst e - 1, snd e)) (drop (length due) (wakes s (p # ps)))"
    "sems u = fold (\<lambda>(w, t, h). timed_out h) due (sems s)"
    "tick_frame (s\<lparr>sems := sems u\<rparr>) u (thread_node ` (set ts \<union> sleeper_thread s ` set (p # ps)) \<union> sleeper_node ` set (p # ps))"
    by blast
  have "sems u = sems s" using u1(4) m by metis
  with u1(5) have u5: "tick_frame s u (thread_node ` (set ts \<union> sleeper_thread s ` set (p # ps)) \<union> sleeper_node ` set (p # ps))"
    by (simp only: sems_upd_same)
  have "snd (snd e) = 0" if "e \<in> set (wakes u ?rs)" for e
  proof -
    from that obtain e' where "e' \<in> set (drop (length due) (wakes s (p # ps)))" "snd e = snd e'"
      unfolding u1(3) set_map by (elim imageE) simp
    then show ?thesis using z' in_set_dropD by metis
  qed
  then have "slp_semaphore (sleeping u q) = 0" if "q \<in> set ?rs" for q
    using wakes_member [OF that, of 0 u] by force
  with u1(1-3) u5 show ?thesis unfolding sleep_ok_def by blast
qed


section \<open>Removing a timeout: correctness\<close>

lemma remove_timeout_loop_finds:
  assumes "sleepers s (xs @ p # ys)" and "xs @ p # ys = ws @ q # zs" and "length xs \<le> length ws"
    and "\<forall>r \<in> set ws. sleeper_thread s r \<noteq> t" and "sleeper_thread s q = t \<or> zs = []"
  shows "remove_timeout_loop t (sleeper_node p) s = Some (Inr (sleeper_node q))"
  using assms
proof (induction ys arbitrary: xs p)
  case Nil
  have "length xs = length ws" using arg_cong [OF Nil.prems(2), of length] Nil.prems(3) by simp
  then have "p = q" using Nil.prems(2) by simp
  moreover have "list_next (list_nodes s (sleeper_node p)) = sleeping_threads (sched s)"
    using sleepers_next [OF Nil.prems(1)] by simp
  ultimately show ?case by (subst remove_timeout_loop.simps) simp
next
  case (Cons y ys)
  have n: "list_next (list_nodes s (sleeper_node p)) = sleeper_node y"
    using sleepers_next [OF Cons.prems(1)] by simp
  have nh: "sleeper_node y \<noteq> sleeping_threads (sched s)"
    using sleepers_head_unique [of s "xs @ [p]" y ys] Cons.prems(1) by simp
  show ?case
  proof (cases "length xs = length ws")
    case True
    then have "p = q" "y # ys = zs" using Cons.prems(2) by simp_all
    then have "sleeper_thread s p = t" using Cons.prems(5) by auto
    with \<open>p = q\<close> show ?thesis by (subst remove_timeout_loop.simps) (simp add: sleeper_thread_def)
  next
    case False
    then have l: "length xs < length ws" using Cons.prems(3) by simp
    have "p = (xs @ p # y # ys) ! length xs" by simp
    also have "\<dots> = ws ! length xs" unfolding Cons.prems(2) using l by (simp add: nth_append)
    finally have "p \<in> set ws" using l by (metis nth_mem)
    then have np: "slp_thread (sleeping s p) \<noteq> t" using Cons.prems(4) by (simp add: sleeper_thread_def)
    have "remove_timeout_loop t (sleeper_node p) s = remove_timeout_loop t (sleeper_node y) s"
      using np n nh by (subst remove_timeout_loop.simps) simp
    also have "\<dots> = Some (Inr (sleeper_node q))"
      using Cons.prems l by (intro Cons.IH [of "xs @ [p]"]) simp_all
    finally show ?thesis .
  qed
qed

lemma remove_timeout_inner:
  assumes sl: "sleepers s (ws @ q # zs)" and ne: "ws \<noteq> []" and b: "total s (ws @ q # zs) < 18446744073709551616"
    and o: "owns s L" and l: "(q, 1) \<in> L"
    and first: "\<forall>r \<in> set ws. sleeper_thread s r \<noteq> t" and t: "sleeper_thread s q = t"
  obtains u where "scheduler_remove_timeout t s = Inr u" and "sleepers u (ws @ zs)"
    and "wakes u (ws @ zs) = wakes s ws @ wakes_from (total s ws + delay s q) s zs" and "owns u (L - {(q, 1)})"
    and "sleep_frame s u (sleeper_node ` set (ws @ q # zs))"
proof -
  obtain w ws' where ws: "ws = w # ws'" using ne by (cases ws) auto
  have hd: "sleeping_threads (sched s) = sleeper_node w" and r: "ring (list_nodes s) (map sleeper_node (ws @ q # zs))"
    using sleepers_ring [of s w "ws' @ q # zs"] sl ws by simp_all
  have z: "0 \<notin> sleeper_node ` set (ws @ q # zs)" using sl ws by (auto simp: sleepers_def queue_Cons)
  have d: "distinct (ws @ q # zs)" by (rule sleepers_distinct [OF sl])
  have h0: "sleeper_node w \<noteq> 0" using z ws by auto
  have wn: "list_next (list_nodes s (sleeper_node w)) \<noteq> sleeper_node w"
    using sleepers_next [of s "[]" w "ws' @ q # zs"] sl ws d by (cases ws') auto
  have loop: "remove_timeout_loop t (sleeper_node w) s = Some (Inr (sleeper_node q))"
    using sl ws first t by (intro remove_timeout_loop_finds [of s "[]" w "ws' @ q # zs" ws q zs]) simp_all
  have nq: "list_next (list_nodes s (sleeper_node q)) = (if zs = [] then sleeper_node w else sleeper_node (hd zs))"
    using sleepers_next [OF sl] hd by simp
  define v where "v = (if zs = [] then upd_nodes (list_unlink (sleeper_node q)) s
    else upd_nodes (list_unlink (sleeper_node q))
      (upd_sleeper (hd zs) (\<lambda>c. c\<lparr>slp_delta := slp_delta c + slp_delta (sleeping s q)\<rparr>) s))"
  have zw: "zs \<noteq> [] \<Longrightarrow> hd zs \<noteq> w" using d ws hd_in_set [of zs] by auto
  have e: "scheduler_remove_timeout t s = free_sleeper q v"
    using h0 wn loop t nq zw
    by (auto simp: scheduler_remove_timeout_def hd sleeper_thread_def v_def Let_def)
  have "ring (list_unlink (sleeper_node q) (list_nodes s)) (map sleeper_node ws @ map sleeper_node zs)"
    using ring_unlink [of "list_nodes s" "map sleeper_node ws" "sleeper_node q" "map sleeper_node zs"] r ne by simp
  then have sv: "sleepers v (ws @ zs)"
    using z ws hd by (auto simp: sleepers_def queue_Cons v_def)
  have "mem_state.truncate v = mem_state.truncate s" by (simp add: v_def)
  then have "owns v L" using o owns_cong by blast
  then obtain u where u: "free_sleeper q v = Inr u" "owns u (L - {(q, 1)})" "same_heap v u"
    using l by (rule free_sleeper_owned)
  have sl_u: "sleeping u = (if zs = [] then sleeping s else (sleeping s)(hd zs :=
      (sleeping s (hd zs))\<lparr>slp_delta := slp_delta (sleeping s (hd zs)) + slp_delta (sleeping s q)\<rparr>))"
    using same_heap_kernel(6) [OF u(3)] by (simp add: v_def)
  have "zs \<noteq> [] \<Longrightarrow> hd zs \<notin> set ws" using d hd_in_set [of zs] by auto
  then have W: "wakes_from a u ws = wakes_from a s ws" "total u ws = total s ws" for a
    by (auto intro!: wakes_cong simp: sl_u)
  have "wakes_from (total s ws) u zs = wakes_from (total s ws + delay s q) s zs"
  proof (cases zs)
    case (Cons y ys)
    have "wakes_from a u ys = wakes_from a s ys" for a using d Cons by (auto intro!: wakes_cong simp: sl_u)
    moreover have "delay u y = delay s y + delay s q"
      using b Cons by (simp add: delay_def sl_u unat_add_bounded)
    ultimately show ?thesis using Cons by (simp add: sl_u add_ac)
  qed simp
  with W have "wakes u (ws @ zs) = wakes s ws @ wakes_from (total s ws + delay s q) s zs" by simp
  moreover have "sleep_frame s u (sleeper_node ` set (ws @ q # zs))"
    using ring_unlink_frame [OF r, of "sleeper_node q"] same_heap_kernel [OF u(3)] same_heap_running [OF u(3)]
    by (simp add: sleep_frame_def v_def image_Un)
  ultimately show thesis using that [of u] e u sv same_heap_queues(2) [OF u(3)] by simp
qed

text \<open>Removing the first of several entries.\<close>

lemma remove_timeout_head:
  assumes sl: "sleepers s (p # q # zs)" and o: "owns s L" and l: "(p, 1) \<in> L"
    and t: "sleeper_thread s p = t"
  obtains u where "scheduler_remove_timeout t s = Inr u"
    and "sleeping_threads (sched u) = sleeper_node p" and "owns u (L - {(p, 1)})"
    and "ring (list_nodes u) (map sleeper_node (q # zs))" and "sleep_frame s u (sleeper_node ` set (p # q # zs))"
proof -
  have hd: "sleeping_threads (sched s) = sleeper_node p" and r: "ring (list_nodes s) (map sleeper_node (p # q # zs))"
    using sleepers_ring [OF sl] by simp_all
  have h0: "sleeper_node p \<noteq> 0" using sl by (auto simp: sleepers_def queue_Cons)
  have d: "p \<noteq> q" using sleepers_distinct [OF sl] by simp
  have n: "list_next (list_nodes s (sleeper_node p)) = sleeper_node q"
    using sleepers_next [of s "[]" p "q # zs"] sl by simp
  have loop: "remove_timeout_loop t (sleeper_node p) s = Some (Inr (sleeper_node p))"
    using t by (subst remove_timeout_loop.simps) (simp add: sleeper_thread_def)
  define v where "v = upd_nodes (list_unlink (sleeper_node p))
      (upd_sleeper q (\<lambda>c. c\<lparr>slp_delta := slp_delta c + slp_delta (sleeping s p)\<rparr>) s)"
  have e: "scheduler_remove_timeout t s = free_sleeper p v"
    using h0 n d loop t by (auto simp: scheduler_remove_timeout_def hd sleeper_thread_def v_def Let_def)
  have "mem_state.truncate v = mem_state.truncate s" by (simp add: v_def)
  then have "owns v L" using o owns_cong by blast
  then obtain u where u: "free_sleeper p v = Inr u" "owns u (L - {(p, 1)})" "same_heap v u"
    using l by (rule free_sleeper_owned)
  have "ring (list_unlink (sleeper_node p) (list_nodes s)) (map sleeper_node (q # zs))"
    using ring_unlink_head [of "list_nodes s" "sleeper_node p" "map sleeper_node (q # zs)"] r by simp
  moreover have "sleep_frame s u (sleeper_node ` set (p # q # zs))"
    using ring_unlink_frame [OF r, of "sleeper_node p"] same_heap_kernel [OF u(3)] same_heap_running [OF u(3)]
    by (simp add: sleep_frame_def v_def)
  ultimately show thesis using that [of u] e u same_heap_kernel [OF u(3)] hd by (simp add: v_def)
qed

text \<open>Removing the only entry, and all cases together.\<close>

lemma remove_timeout_only:
  assumes sl: "sleepers s [q]" and o: "owns s L" and l: "(q, 1) \<in> L" and t: "sleeper_thread s q = t"
  obtains u where "scheduler_remove_timeout t s = Inr u" and "sleepers u []" and "owns u (L - {(q, 1)})"
    and "sleep_frame s u (sleeper_node ` {q})"
proof -
  have hd: "sleeping_threads (sched s) = sleeper_node q" by (rule sleepers_ring(2) [OF sl])
  have h0: "sleeper_node q \<noteq> 0" using sl by (auto simp: sleepers_def queue_Cons)
  have n: "list_next (list_nodes s (sleeper_node q)) = sleeper_node q"
    using sleepers_next [of s "[]" q "[]"] sl hd by simp
  obtain u where u: "free_sleeper q s = Inr u" "owns u (L - {(q, 1)})" "same_heap s u"
    by (rule free_sleeper_owned [OF o l])
  let ?u = "upd_sched (\<lambda>c. c\<lparr>sleeping_threads := 0\<rparr>) u"
  have e: "scheduler_remove_timeout t s = Inr ?u"
    using h0 n t u(1) by (simp add: scheduler_remove_timeout_def hd sleeper_thread_def)
  have "mem_state.truncate ?u = mem_state.truncate u" by simp
  then have "owns ?u (L - {(q, 1)})" using u(2) owns_cong by blast
  then show thesis
    using same_heap_kernel [OF u(3)] same_heap_running [OF u(3)]
    by (intro that [OF e]) (simp_all add: sleepers_def sleep_frame_def)
qed

lemma remove_timeout_cases:
  assumes sl: "sleepers s (as @ q # bs)" and b: "total s (as @ q # bs) < 18446744073709551616"
    and o: "owns s L" and l: "(q, 1) \<in> L"
    and first: "\<forall>r \<in> set as. sleeper_thread s r \<noteq> t" and t: "sleeper_thread s q = t"
  obtains u where "scheduler_remove_timeout t s = Inr u" and "owns u (L - {(q, 1)})"
    and "sleep_frame s u (sleeper_node ` set (as @ q # bs))"
    and "if as = [] \<and> bs \<noteq> [] then sleeping_threads (sched u) = sleeper_node q \<and> ring (list_nodes u) (map sleeper_node bs)
      else sleepers u (as @ bs) \<and> wakes u (as @ bs) = wakes s as @ wakes_from (total s as + delay s q) s bs"
proof -
  consider "as \<noteq> []" | "as = []" "bs = []" | y ys where "as = []" "bs = y # ys" by (cases bs) auto
  then show thesis
  proof cases
    case 1
    show thesis
      by (rule remove_timeout_inner [OF sl 1 b o l first t], rule that) (use 1 in \<open>simp_all del: wakes_from.simps\<close>)
  next
    case 2
    have "sleepers s [q]" using sl 2 by simp
    then show thesis
      by (rule remove_timeout_only [OF _ o l t]) (rule that, use 2 in simp_all)
  next
    case 3
    have "sleepers s (q # y # ys)" using sl 3 by simp
    then show thesis
      by (rule remove_timeout_head [OF _ o l t]) (rule that, use 3 in simp_all)
  qed
qed

lemma remove_timeout_missing:
  assumes sl: "sleepers s ps" and none: "\<forall>r \<in> set ps. sleeper_thread s r \<noteq> t"
  obtains m where "scheduler_remove_timeout t s = Inl (Panic m, s)"
proof -
  consider "ps = []" | p where "ps = [p]" | p q rs where "ps = p # q # rs" by (metis list.exhaust)
  then show thesis
  proof cases
    case 1
    with sleepers_empty [OF sl] show thesis by (intro that) (simp add: scheduler_remove_timeout_def)
  next
    case (2 p)
    have "sleeping_threads (sched s) = sleeper_node p" using sleepers_ring(2) sl 2 by blast
    moreover have "list_next (list_nodes s (sleeper_node p)) = sleeper_node p"
      using sleepers_next [of s "[]" p "[]"] sl 2 calculation by simp
    moreover have "sleeper_node p \<noteq> 0" using sl 2 by (auto simp: sleepers_def queue_Cons)
    ultimately show thesis using none 2
      by (intro that) (simp add: scheduler_remove_timeout_def sleeper_thread_def)
  next
    case (3 p q rs)
    define z where "z = last (q # rs)"
    have ps: "ps = (p # butlast (q # rs)) @ [z]" using 3 by (simp add: z_def)
    have sl3: "sleepers s (p # q # rs)" using sl 3 by simp
    have hd: "sleeping_threads (sched s) = sleeper_node p" by (rule sleepers_ring(2) [OF sl3])
    have n: "list_next (list_nodes s (sleeper_node p)) = sleeper_node q"
      using sleepers_next [of s "[]" p "q # rs"] sl3 by simp
    have d: "p \<noteq> q" using sleepers_distinct [OF sl3] by simp
    have nz: "sleeper_node p \<noteq> 0" using sl3 by (simp add: sleepers_def queue_Cons)
    have "remove_timeout_loop t (sleeper_node p) s = Some (Inr (sleeper_node z))"
      using sl none 3 ps by (intro remove_timeout_loop_finds [of s "[]" p "q # rs" "p # butlast (q # rs)" z "[]"]) (auto dest: in_set_butlastD)
    moreover have "sleeper_thread s z \<noteq> t" using none ps by simp
    ultimately show thesis using hd n d nz
      by (intro that) (simp add: scheduler_remove_timeout_def sleeper_thread_def Let_def)
  qed
qed

section \<open>Removing a thread from a semaphore\<close>

lemma sem_remove_loop_stops: "sem_remove_loop (node_thread head) head s = Some (Inr head)"
  by (subst sem_remove_loop.simps) simp

lemma sem_remove_first:
  assumes q: "waiting_at h s (x # y # ts)"
  obtains u where "sem_remove_thread h t s = Inr u"
    and "sems u = (sems s)(h := (sems s h)\<lparr>sem_val := sem_val (sems s h) + 1\<rparr>)" and "sem_waiting (sems s h) = thread_node x"
    and "ring (list_nodes u) (map thread_node (y # ts))"
    and "contexts u = (contexts s)(thr_sp (threads s t) :=
      set_a0 (i32_to_u64 SEM_WAIT_TIMEOUT) (contexts s (thr_sp (threads s t))))"
    and "sleeping u = sleeping s" and "sched u = sched s" and "threads u = threads s"
    and "mem_state.truncate u = mem_state.truncate s"
    and "\<And>n. n \<notin> thread_node ` set (x # y # ts) \<Longrightarrow> list_nodes u n = list_nodes s n"
proof -
  have r: "ring (list_nodes s) (map thread_node (x # y # ts))" and hd: "sem_waiting (sems s h) = thread_node x"
    and z: "thread_node x \<noteq> 0"
    using q by (simp_all add: waiting_at_def thread_queue_at_def queue_Cons)
  have n: "list_next (list_nodes s (thread_node x)) = thread_node y" and d: "x \<noteq> y"
    using ring_next(1) [of "list_nodes s" "[]"] r by (simp_all add: ring_def)
  define u where "u = upd_context (thr_sp (threads s t)) (set_a0 (i32_to_u64 SEM_WAIT_TIMEOUT))
    (upd_nodes (list_unlink (thread_node x)) (upd_sem h (\<lambda>c. c\<lparr>sem_val := sem_val c + 1\<rparr>) s))"
  have "sem_remove_loop x (thread_node x) v = Some (Inr (thread_node x))" for v
    using sem_remove_loop_stops [of "thread_node x" v] by simp
  then have e: "sem_remove_thread h t s = Inr u"
    using z d n by (simp add: sem_remove_thread_def hd Let_def u_def upd_sem_def upd_nodes_def)
  have "ring (list_unlink (thread_node x) (list_nodes s)) (map thread_node (y # ts))"
    using ring_unlink_head [of "list_nodes s" "thread_node x" "map thread_node (y # ts)"] r by simp
  moreover have "list_unlink (thread_node x) (list_nodes s) m = list_nodes s m" if "m \<notin> thread_node ` set (x # y # ts)" for m
    using that by (intro ring_unlink_frame [OF r]) auto
  ultimately show thesis
    using hd by (intro that [OF e]) (simp_all add: u_def upd_defs mem_state.truncate_def)
qed

section \<open>A tick for a thread that waits for a semaphore\<close>

lemma unat_minus_1: "unat (- 1 :: u64) = 2 ^ 64 - 1"
  by (simp add: unsigned_minus_1_eq_mask mask_eq_exp_minus_1)

lemma tick_zero_form:
  assumes "sleepers s (p # ps)" and "delay s p = 0"
  shows "scheduler_tick s = Inr (upd_sleeper p (\<lambda>c. c\<lparr>slp_delta := - 1\<rparr>) s)"
proof -
  have "slp_delta (sleeping s p) = 0" using assms(2) by (simp add: delay_def unat_eq_0)
  then show ?thesis
    using sleepers_ring(2) [OF assms(1)] sleepers_empty [OF assms(1)]
    by (auto simp: scheduler_tick_def Let_def upd_sleeper_def)
qed

lemma tick_zero:
  assumes "timers_ok s ts (p # ps) L" and "delay s p = 0"
  shows "\<exists>u. scheduler_tick s = Inr u \<and> timers_ok u ts (p # ps) L \<and> delay u p = 2 ^ 64 - 1"
proof -
  have "sleepers s (p # ps)" using assms(1) by (simp add: timers_ok_def)
  from tick_zero_form [OF this assms(2)] timers_ok_dec(1) [OF assms(1)] show ?thesis
    by (simp add: delay_def unat_minus_1)
qed

lemma timers_ok_cong:
  assumes "timers_ok s ts ps L" and "sleeping t = sleeping s" and "sched t = sched s"
    and "mem_state.truncate t = mem_state.truncate s"
    and "\<And>n. n \<in> thread_node ` set ts \<union> sleeper_node ` set ps \<Longrightarrow> list_nodes t n = list_nodes s n"
  shows "timers_ok t ts ps L"
proof -
  have "queue (list_nodes t) h (map thread_node ts) = queue (list_nodes s) h (map thread_node ts)"
    "queue (list_nodes t) h (map sleeper_node ps) = queue (list_nodes s) h (map sleeper_node ps)" for h
    by (rule queue_cong, rule assms(5), force)+
  then show ?thesis
    using assms(1) owns_cong [OF assms(4)]
    by (simp add: timers_ok_def sleepers_def ready_queue_def thread_queue_at_def assms(2,3) sleeper_thread_def [abs_def])
qed

text \<open>Leaving a semaphore at which \<open>ws\<close> wait.\<close>

definition after_timeout :: "u64 \<Rightarrow> u64 list \<Rightarrow> (u64 \<Rightarrow> sem_t) \<Rightarrow> u64 \<Rightarrow> sem_t" where
  "after_timeout h ws m = m(h := (m h)\<lparr>sem_val := sem_val (m h) + 1,
     sem_waiting := (if tl ws = [] then 0 else thread_node (hd ws))\<rparr>)"

lemma leave_sem_cases:
  assumes ok: "timers_ok s ts (p # ps) L" and w: "waiting_at h s ws" "ws \<noteq> []" and h: "slp_semaphore (sleeping s p) = h" "h \<noteq> 0"
    and dj: "thread_node ` set ws \<inter> (thread_node ` set ts \<union> sleeper_node ` set (p # ps)) = {}"
  obtains v where "leave_sem p s = Inr v" and "timers_ok v ts (p # ps) L" and "sleeping v = sleeping s" and "sched v = sched s"
    and "sems v = after_timeout h ws (sems s)"
    and "contexts v = (if tl ws = [] then contexts s else (contexts s)(thr_sp (threads s (sleeper_thread s p)) :=
      set_a0 (i32_to_u64 SEM_WAIT_TIMEOUT) (contexts s (thr_sp (threads s (sleeper_thread s p))))))"
proof -
  obtain x xs where ws: "ws = x # xs" using w(2) by (cases ws) auto
  have lv: "leave_sem p s = sem_remove_thread h (sleeper_thread s p) s" using h by (simp add: leave_sem_def)
  show thesis
  proof (cases xs)
    case Nil
    have "sem_remove_thread h (sleeper_thread s p) s = Inr (s\<lparr>sems := timed_out h (sems s)\<rparr>)"
      using remove_only_waiter w(1) h(2) ws Nil by blast
    with lv have "leave_sem p s = Inr (s\<lparr>sems := timed_out h (sems s)\<rparr>)" by simp
    then show thesis by (rule that) (use ok Nil ws h(2) in \<open>simp_all add: timed_out_def after_timeout_def\<close>)
  next
    case (Cons y ys)
    obtain u where u: "sem_remove_thread h (sleeper_thread s p) s = Inr u"
      "sems u = (sems s)(h := (sems s h)\<lparr>sem_val := sem_val (sems s h) + 1\<rparr>)" "sem_waiting (sems s h) = thread_node x"
      "contexts u = (contexts s)(thr_sp (threads s (sleeper_thread s p)) :=
        set_a0 (i32_to_u64 SEM_WAIT_TIMEOUT) (contexts s (thr_sp (threads s (sleeper_thread s p)))))"
      "sleeping u = sleeping s" "sched u = sched s" "mem_state.truncate u = mem_state.truncate s"
      "\<And>n. n \<notin> thread_node ` set (x # y # ys) \<Longrightarrow> list_nodes u n = list_nodes s n"
      by (rule sem_remove_first [OF w(1) [unfolded ws Cons], of "sleeper_thread s p"]) blast
    have "timers_ok u ts (p # ps) L"
    proof (rule timers_ok_cong [OF ok u(5-7)])
      fix n assume "n \<in> thread_node ` set ts \<union> sleeper_node ` set (p # ps)"
      then have "n \<notin> thread_node ` set (x # y # ys)" using dj unfolding ws Cons by blast
      then show "list_nodes u n = list_nodes s n" by (rule u(8))
    qed
    moreover have "sems u = after_timeout h ws (sems s)"
      using u(2,3) by (cases "sems s h") (simp add: after_timeout_def ws Cons)
    moreover have "leave_sem p s = Inr u" using u(1) lv by simp
    ultimately show thesis using u ws Cons by (intro that [of u]) simp_all
  qed
qed

lemma tick_single:
  assumes ok: "timers_ok s ts (p # ps) L" and due: "takeWhile (\<lambda>e. fst e = 1) (wakes s (p # ps)) = [(1, t, h)]"
    and h: "h \<noteq> 0" and w: "waiting_at h s ws"
    and dj: "thread_node ` set ws \<inter> (thread_node ` set ts \<union> sleeper_node ` set (p # ps)) = {}"
  shows "ws = [] \<Longrightarrow> \<exists>u. scheduler_tick s = Inl (Panic ''Thread lost'', u)"
    and "ws \<noteq> [] \<Longrightarrow> \<exists>u. scheduler_tick s = Inr u \<and> timers_ok u (ts @ [t]) ps (L - {(p, 1)})
      \<and> wakes u ps = map (\<lambda>e. (fst e - 1, snd e)) (drop 1 (wakes s (p # ps)))
      \<and> sems u = after_timeout h ws (sems s)
      \<and> contexts u = (if tl ws = [] then contexts s else (contexts s)(thr_sp (threads s t) :=
          set_a0 (i32_to_u64 SEM_WAIT_TIMEOUT) (contexts s (thr_sp (threads s t)))))"
proof -
  let ?s = "upd_sleeper p (\<lambda>c. c\<lparr>slp_delta := slp_delta c - 1\<rparr>) s"
  have sl: "sleepers s (p # ps)" and np: "p \<notin> set ps"
    using ok sleepers_distinct by (fastforce simp: timers_ok_def)+
  have hd: "sleeping_threads (sched s) = sleeper_node p" by (rule sleepers_ring(2) [OF sl])
  have nz: "sleeping_threads (sched s) \<noteq> 0" using sleepers_empty [OF sl] by simp
  have d: "delay s p = 1" "slp_thread (sleeping s p) = t" "slp_semaphore (sleeping s p) = h"
    using due by (auto split: if_splits)
  have later: "delay s (hd ps) \<noteq> 0" if "ps \<noteq> []" using that due by (cases ps) (auto split: if_splits)
  have d1: "slp_delta (sleeping s p) = 1" using d(1) by (simp add: delay_def word_unat_eq_iff)
  have f: "sleeping ?s = (sleeping s)(p := (sleeping s p)\<lparr>slp_delta := 0\<rparr>)" by (simp add: d1)
  have ok1: "timers_ok ?s ts (p # ps) L" and st: "sleeper_thread ?s = sleeper_thread s"
    by (rule timers_ok_dec [OF ok])+
  have w1: "waiting_at h ?s ws" using w by (simp add: waiting_at_def)
  have e: "scheduler_tick s = returned ?s (tick_loop p ?s)"
    using nz by (simp add: scheduler_tick_def hd Let_def d1)
  have z: "slp_delta (sleeping ?s p) = 0" by (simp add: d1)
  show "\<exists>u. scheduler_tick s = Inl (Panic ''Thread lost'', u)" if "ws = []"
  proof -
    have "sem_waiting (sems ?s h) = 0" using w1 that by (simp add: waiting_at_def thread_queue_at_def)
    then have "tick_wake p ?s = Inl (Panic ''Thread lost'', ?s)"
      using h d(3) by (simp add: tick_wake_def sem_remove_thread_def)
    then show ?thesis unfolding e using z by (subst tick_loop.simps) simp
  qed
  show "\<exists>u. scheduler_tick s = Inr u \<and> timers_ok u (ts @ [t]) ps (L - {(p, 1)})
      \<and> wakes u ps = map (\<lambda>e. (fst e - 1, snd e)) (drop 1 (wakes s (p # ps)))
      \<and> sems u = after_timeout h ws (sems s)
      \<and> contexts u = (if tl ws = [] then contexts s else (contexts s)(thr_sp (threads s t) :=
          set_a0 (i32_to_u64 SEM_WAIT_TIMEOUT) (contexts s (thr_sp (threads s t)))))" if ne: "ws \<noteq> []"
  proof -
    obtain v where v: "leave_sem p ?s = Inr v" "timers_ok v ts (p # ps) L" "sleeping v = sleeping ?s" "sched v = sched ?s"
      "sems v = after_timeout h ws (sems ?s)"
      "contexts v = (if tl ws = [] then contexts ?s else (contexts ?s)(thr_sp (threads ?s (sleeper_thread ?s p)) :=
        set_a0 (i32_to_u64 SEM_WAIT_TIMEOUT) (contexts ?s (thr_sp (threads ?s (sleeper_thread ?s p))))))"
      by (rule leave_sem_cases [OF ok1 w1 ne _ h dj]) (use d(3) in simp_all)
    have sv: "sleeper_thread v p = t" using v(3) d(2) by (simp add: sleeper_thread_def)
    have sl1: "sleepers ?s (p # ps)" using ok1 by (simp add: timers_ok_def)
    obtain u where u: "tick_wake p ?s = Inr (ps \<noteq> [], u)" "timers_ok u (ts @ [t]) ps (L - {(p, 1)})"
      "sleeping u = sleeping ?s" "tick_frame v u (thread_node ` set (ts @ [t]) \<union> sleeper_node ` set (p # ps))"
      by (rule tick_wake_step [OF v(1) sl1 v(3,2)]) (unfold sv, blast)
    have "tick_loop (hd ps) u = Some (Inr u)" if "ps \<noteq> []"
      using later [OF that] np that u(3) by (subst tick_loop.simps) (auto simp: delay_def unat_eq_0)
    moreover have "sleeping_threads (sched u) = sleeper_node (hd ps)" if "ps \<noteq> []"
      using that u(2) sleepers_ring(2) by (cases ps) (auto simp: timers_ok_def)
    ultimately have "tick_loop p ?s = Some (Inr u)"
      using u(1) z by (subst tick_loop.simps) simp
    then have "scheduler_tick s = Inr u" by (simp add: e)
    moreover have "wakes_from 1 s ps = map (\<lambda>e. (1 + fst e, snd e)) (wakes s ps)"
      using wakes_from_shift [of 0 1 s ps] by simp
    then have "map (\<lambda>e. (fst e - 1, snd e)) (drop 1 (wakes s (p # ps))) = wakes s ps" by (simp add: d(1) o_def)
    moreover have "wakes u ps = wakes s ps" using np u(3) by (intro wakes_cong(1)) auto
    moreover have "sems u = sems v" "contexts u = contexts v" using u(4) by (simp_all add: tick_frame_def)
    ultimately show ?thesis using u(2) v(5,6) by (simp add: st sleeper_thread_def d(2))
  qed
qed

section \<open>A sample state with two sleeping threads\<close>

text \<open>Threads 64 and 128 sleep for 3 and 5 ticks in structures at 5120 and 5184.\<close>

definition two_sleepers :: kernel where
  "two_sleepers = blank_kernel\<lparr>
     mem_index := (\<lambda>_. 0)(0 := 16, 15 := 16, 16 := 1, 17 := 1, 18 := -238, 255 := -238),
     list_nodes := (\<lambda>_. \<lparr>list_next = 5144, list_prev = 5144\<rparr>)(5144 := \<lparr>list_next = 5208, list_prev = 5208\<rparr>),
     sleeping := (\<lambda>_. \<lparr>slp_thread = 64, slp_semaphore = 0, slp_delta = 3\<rparr>)
       (5184 := \<lparr>slp_thread = 128, slp_semaphore = 0, slp_delta = 2\<rparr>),
     sched := \<lparr>user_thread_count = 2, ready_threads = 0, sleeping_threads = 5144,
       thread_current = 0, sch_kernel_main = 0\<rparr>\<rparr>"

lemma two_sleepers_cells:
  assumes "0 \<le> j" and "j < 18446744073709551616"
  shows "cell two_sleepers j = (if j = 0 \<or> j = 15 then 16 else if j = 16 \<or> j = 17 then 1
    else if j = 18 \<or> j = 255 then -238 else 0)"
  using assms by (simp add: cell_def two_sleepers_def word_of_int_eq_u64)

lemma two_sleepers_fields:
  "n_mem_blocks two_sleepers = 256" "HEAP_START_ADDR two_sleepers = 4096" "HEAP_END_ADDR two_sleepers = 20480"
  by (simp_all add: two_sleepers_def blank_kernel_fields)

lemma two_sleepers_heap: "mem_rep two_sleepers [16, 1, 1, -238]"
proof -
  have "run_at (cell two_sleepers) 0 16" "run_at (cell two_sleepers) 16 1" "run_at (cell two_sleepers) 17 1"
    "run_at (cell two_sleepers) 18 (-238)"
    by (simp_all add: run_at_def two_sleepers_cells)
  moreover have "heap_shape two_sleepers" by (simp add: heap_shape_def two_sleepers_fields)
  ultimately show ?thesis by (simp add: mem_rep_def mem_lay_def two_sleepers_fields)
qed

lemma two_sleepers_owns: "owns two_sleepers {(4096, 16), (5120, 1), (5184, 1)}"
  unfolding owns_def
  by (rule exI [of _ "[16, 1, 1, -238]"])
     (auto simp: two_sleepers_heap two_sleepers_cells two_sleepers_fields block_addr_def)

lemma two_sleepers_list:
  "sleepers two_sleepers [5120, 5184]" "wakes two_sleepers [5120, 5184] = [(3, 64, 0), (5, 128, 0)]"
  "total two_sleepers [5120, 5184] = 5"
  by (simp_all add: sleepers_def queue_def ring_def two_sleepers_def sleeper_node_def delay_def)

lemma two_sleepers_ok: "sleep_ok two_sleepers [] [5120, 5184] {(4096, 16), (5120, 1), (5184, 1)}"
  unfolding sleep_ok_def timers_ok_def using two_sleepers_owns two_sleepers_list(1)
  by (simp add: ready_queue_def thread_queue_at_def) (simp add: two_sleepers_def sleeper_thread_def
    thread_node_def sleeper_node_def)

text \<open>The first of them waits for a semaphore, alone, and is due.\<close>

definition timed_waiter :: kernel where
  "timed_waiter = two_sleepers\<lparr>
     list_nodes := (list_nodes two_sleepers)(104 := \<lparr>list_next = 104, list_prev = 104\<rparr>),
     sleeping := (sleeping two_sleepers)(5120 := \<lparr>slp_thread = 64, slp_semaphore = 6000, slp_delta = 1\<rparr>),
     sems := \<lambda>_. \<lparr>sem_val = -1, sem_init = 0, sem_waiting = 104\<rparr>\<rparr>"

lemma timed_waiter_sem: "sems timed_waiter 6000 = \<lparr>sem_val = -1, sem_init = 0, sem_waiting = 104\<rparr>"
  by (simp add: timed_waiter_def)

lemma timed_waiter_ok: "timers_ok timed_waiter [] [5120, 5184] {(4096, 16), (5120, 1), (5184, 1)}"
proof -
  have "owns timed_waiter L = owns two_sleepers L" for L
    by (rule owns_cong) (simp add: timed_waiter_def mem_state.truncate_def)
  moreover have "sleepers timed_waiter [5120, 5184]"
    by (simp add: sleepers_def queue_def ring_def timed_waiter_def two_sleepers_def sleeper_node_def)
  ultimately show ?thesis
    unfolding timers_ok_def using two_sleepers_owns
    by (simp add: ready_queue_def thread_queue_at_def)
       (simp add: timed_waiter_def two_sleepers_def sleeper_thread_def thread_node_def sleeper_node_def)
qed

section \<open>Properties\<close>

text \<open>C16. \<open>__scheduler_timeout\<close> puts the thread to sleep for exactly \<open>time\<close> ticks and disturbs no other
  sleeping thread: the list of wake-up times afterwards is the old one with the new entry inserted by its
  time, in sorted order and with no 64-bit wrap-around in the stored differences, and apart from the list
  and the block the entry occupies nothing changes.\<close>

theorem scheduler_timeout_inserts:
  assumes "sleepers s ps" and "total s ps < 2 ^ 64"
    and "owns s L" and "\<forall>p \<in> set ps. (p, 1) \<in> L"
    and "mem_alloc 1 s = Inr (q, v)" and "q \<noteq> 0"
  shows "\<exists>u qs. scheduler_timeout t time h s = Inr u \<and> sleepers u qs
    \<and> wakes u qs = insert_wake (unat time, t, h) (wakes s ps)
    \<and> mset (wakes u qs) = add_mset (unat time, t, h) (mset (wakes s ps)) \<and> sorted (map fst (wakes u qs))
    \<and> total u qs < 2 ^ 64 \<and> owns u (insert (q, 1) L) \<and> sleep_frame s u (sleeper_node ` set qs)"
proof -
  have b: "total s ps < 18446744073709551616" using assms(2) by simp
  obtain u qs where "scheduler_timeout t time h s = Inr u" "sleepers u qs"
    "wakes u qs = insert_wake (unat time, t, h) (wakes s ps)" "total u qs < 18446744073709551616"
    "owns u (insert (q, 1) L)" "sleep_frame s u (sleeper_node ` set qs)"
    by (rule timeout_inserts [OF assms(1) b assms(3-6)]) blast
  then show ?thesis using sorted_wakes [of 0 u qs]
    by (intro exI [of _ u] exI [of _ qs]) (simp add: mset_insert_wake)
qed

theorem scheduler_timeout_inserts_witness:
  "\<exists>u qs. scheduler_timeout 192 4 0 two_sleepers = Inr u \<and> sleepers u qs
    \<and> wakes u qs = [(3, 64, 0), (4, 192, 0), (5, 128, 0)]"
proof -
  have "mem_rep two_sleepers [16, 1, 1, -238]" by (rule two_sleepers_heap)
  then obtain v where "mem_alloc 1 two_sleepers = Inr (block_addr two_sleepers 18, v)"
    by (rule mem_alloc_Some [of two_sleepers _ 1]) simp_all
  moreover have "block_addr two_sleepers 18 = 5248"
    by (simp add: block_addr_def two_sleepers_def blank_kernel_fields)
  ultimately have a: "mem_alloc 1 two_sleepers = Inr (5248, v)" by simp
  show ?thesis
    using scheduler_timeout_inserts [OF two_sleepers_list(1) _ two_sleepers_owns _ a, of 192 4 0]
    by (auto simp: two_sleepers_list insert_rest_def simp del: wakes_from.simps total_simps)
qed

text \<open>C17. A timer tick brings every sleeping thread one tick closer to its wake-up and makes ready exactly
  those whose time has come, in the order of the list, at the end of the ready queue; their structures are
  freed and the remaining threads keep their wake-up times. The loop ends. The threads that are due may wait
  for no semaphore or alone at one, which then has nobody waiting and one permit more. When one thread is
  due that waits for a semaphore, the tick also does this with others waiting there, but the head of the
  semaphore's queue stays where it was, whichever thread timed out, and only then the thread reads the code of
  the timeout; with nobody waiting there the kernel panics. A first entry with the time 0 does not wake up:
  its counter wraps around.\<close>

theorem scheduler_tick_wakes:
  assumes "timers_ok s ts (p # ps) L"
    and "due = takeWhile (\<lambda>e. fst e = 1) (wakes s (p # ps))" and "rs = drop (length due) (p # ps)"
    and "M = L - (\<lambda>p. (p, 1)) ` set (take (length due) (p # ps))"
    and "later = map (\<lambda>e. (fst e - 1, snd e)) (drop (length due) (wakes s (p # ps)))"
  shows "(0 < delay s p \<and> (\<forall>(w, t, h) \<in> set due. h = 0 \<or> waiting_at h s [t]) \<longrightarrow>
      (\<exists>u. scheduler_tick s = Inr u \<and> timers_ok u (ts @ map (\<lambda>e. fst (snd e)) due) rs M \<and> wakes u rs = later
        \<and> sems u = fold (\<lambda>(w, t, h). timed_out h) due (sems s)
        \<and> tick_frame (s\<lparr>sems := sems u\<rparr>) u
            (thread_node ` (set ts \<union> sleeper_thread s ` set (p # ps)) \<union> sleeper_node ` set (p # ps))))
    \<and> (\<forall>t h ws. due = [(1, t, h)] \<and> h \<noteq> 0 \<and> waiting_at h s ws
        \<and> thread_node ` set ws \<inter> (thread_node ` set ts \<union> sleeper_node ` set (p # ps)) = {} \<longrightarrow>
      (if ws = [] then \<exists>u. scheduler_tick s = Inl (Panic ''Thread lost'', u)
       else \<exists>u. scheduler_tick s = Inr u \<and> timers_ok u (ts @ [t]) rs M \<and> wakes u rs = later
        \<and> sems u = (sems s)(h := (sems s h)\<lparr>sem_val := sem_val (sems s h) + 1,
            sem_waiting := (if tl ws = [] then 0 else thread_node (hd ws))\<rparr>)
        \<and> contexts u = (if tl ws = [] then contexts s else (contexts s)(thr_sp (threads s t) :=
            set_a0 (i32_to_u64 SEM_WAIT_TIMEOUT) (contexts s (thr_sp (threads s t)))))))
    \<and> (delay s p = 0 \<longrightarrow> (\<exists>u. scheduler_tick s = Inr u \<and> timers_ok u ts (p # ps) L \<and> delay u p = 2 ^ 64 - 1))"
proof (intro conjI impI allI)
  assume a: "0 < delay s p \<and> (\<forall>(w, t, h) \<in> set due. h = 0 \<or> waiting_at h s [t])"
  show "\<exists>u. scheduler_tick s = Inr u \<and> timers_ok u (ts @ map (\<lambda>e. fst (snd e)) due) rs M \<and> wakes u rs = later
        \<and> sems u = fold (\<lambda>(w, t, h). timed_out h) due (sems s)
        \<and> tick_frame (s\<lparr>sems := sems u\<rparr>) u
            (thread_node ` (set ts \<union> sleeper_thread s ` set (p # ps)) \<union> sleeper_node ` set (p # ps))"
    unfolding assms(3-5) unfolding assms(2)
    by (rule timers_tick [OF assms(1) a [THEN conjunct1] a [THEN conjunct2, unfolded assms(2)]])
next
  fix t h ws
  assume a: "due = [(1, t, h)] \<and> h \<noteq> 0 \<and> waiting_at h s ws
        \<and> thread_node ` set ws \<inter> (thread_node ` set ts \<union> sleeper_node ` set (p # ps)) = {}"
  then have d: "takeWhile (\<lambda>e. fst e = 1) (wakes s (p # ps)) = [(1, t, h)]" using assms(2) by metis
  have e: "rs = ps" "M = L - {(p, 1)}" "later = map (\<lambda>e. (fst e - 1, snd e)) (drop 1 (wakes s (p # ps)))"
    using a by (simp_all add: assms(3-5))
  show "if ws = [] then \<exists>u. scheduler_tick s = Inl (Panic ''Thread lost'', u)
       else \<exists>u. scheduler_tick s = Inr u \<and> timers_ok u (ts @ [t]) rs M \<and> wakes u rs = later
        \<and> sems u = (sems s)(h := (sems s h)\<lparr>sem_val := sem_val (sems s h) + 1,
            sem_waiting := (if tl ws = [] then 0 else thread_node (hd ws))\<rparr>)
        \<and> contexts u = (if tl ws = [] then contexts s else (contexts s)(thr_sp (threads s t) :=
            set_a0 (i32_to_u64 SEM_WAIT_TIMEOUT) (contexts s (thr_sp (threads s t)))))"
  proof (cases "ws = []")
    case True
    have "\<exists>u. scheduler_tick s = Inl (Panic ''Thread lost'', u)"
      by (rule tick_single(1) [OF assms(1) d _ _ _ True]) (simp_all only: a simp_thms)
    then show ?thesis by (subst if_P [OF True])
  next
    case False
    have "\<exists>u. scheduler_tick s = Inr u \<and> timers_ok u (ts @ [t]) ps (L - {(p, 1)})
      \<and> wakes u ps = map (\<lambda>e. (fst e - 1, snd e)) (drop 1 (wakes s (p # ps)))
      \<and> sems u = after_timeout h ws (sems s)
      \<and> contexts u = (if tl ws = [] then contexts s else (contexts s)(thr_sp (threads s t) :=
          set_a0 (i32_to_u64 SEM_WAIT_TIMEOUT) (contexts s (thr_sp (threads s t)))))"
      by (rule tick_single(2) [OF assms(1) d _ _ _ False]) (simp_all only: a simp_thms)
    then show ?thesis unfolding e after_timeout_def by (subst if_not_P [OF False])
  qed
next
  assume "delay s p = 0"
  then show "\<exists>u. scheduler_tick s = Inr u \<and> timers_ok u ts (p # ps) L \<and> delay u p = 2 ^ 64 - 1"
    by (rule tick_zero [OF assms(1)])
qed

theorem scheduler_tick_wakes_witness:
  "(\<exists>u. scheduler_tick two_sleepers = Inr u \<and> ready_queue u [] \<and> wakes u [5120, 5184] = [(2, 64, 0), (4, 128, 0)])
    \<and> (\<exists>u. scheduler_tick timed_waiter = Inr u \<and> ready_queue u [64] \<and> wakes u [5184] = [(2, 128, 0)]
        \<and> sem_waiting (sems u 6000) = 0 \<and> sem_val (sems u 6000) = 0)"
proof
  have "[] = takeWhile (\<lambda>e. fst e = 1) (wakes two_sleepers [5120, 5184])"
    "[5120, 5184] = drop (length ([] :: (nat \<times> u64 \<times> u64) list)) [5120 :: u64, 5184]"
    "[(2, 64, 0), (4, 128, 0)] = map (\<lambda>e. (fst e - 1, snd e)) (drop (length ([] :: (nat \<times> u64 \<times> u64) list))
      (wakes two_sleepers [5120, 5184]))"
    by (simp_all only: two_sleepers_list(2)) simp_all
  note t = scheduler_tick_wakes [OF two_sleepers_ok [unfolded sleep_ok_def, THEN conjunct1] this(1,2) refl this(3),
      THEN conjunct1, THEN mp]
  have "0 < delay two_sleepers 5120 \<and> (\<forall>(w, t, h) \<in> set []. h = 0 \<or> waiting_at h two_sleepers [t])"
    by (simp add: two_sleepers_def delay_def)
  from t [OF this] show "\<exists>u. scheduler_tick two_sleepers = Inr u \<and> ready_queue u [] \<and> wakes u [5120, 5184] = [(2, 64, 0), (4, 128, 0)]"
    by (elim exE conjE) (intro exI conjI, assumption, simp add: timers_ok_def)
  have w: "wakes timed_waiter [5120, 5184] = [(1, 64, 6000), (3, 128, 0)]"
    by (simp add: timed_waiter_def two_sleepers_def delay_def)
  let ?due = "[(1, 64, 6000)] :: (nat \<times> u64 \<times> u64) list"
  have q: "waiting_at 6000 timed_waiter [64]"
    by (simp add: waiting_at_def thread_queue_at_def queue_Cons ring_singleton timed_waiter_def thread_node_def)
  have "?due = takeWhile (\<lambda>e. fst e = 1) (wakes timed_waiter [5120, 5184])"
    "[5184] = drop (length ?due) [5120 :: u64, 5184]"
    "[(2, 128, 0)] = map (\<lambda>e. (fst e - 1, snd e)) (drop (length ?due) (wakes timed_waiter [5120, 5184]))"
    by (simp_all only: w) simp_all
  note t = scheduler_tick_wakes [OF timed_waiter_ok this(1,2) refl this(3), THEN conjunct1, THEN mp]
  have "0 < delay timed_waiter 5120 \<and> (\<forall>(w, t, h) \<in> set ?due. h = 0 \<or> waiting_at h timed_waiter [t])"
    using q by (simp add: timed_waiter_def delay_def)
  from t [OF this] show "\<exists>u. scheduler_tick timed_waiter = Inr u \<and> ready_queue u [64] \<and> wakes u [5184] = [(2, 128, 0)]
        \<and> sem_waiting (sems u 6000) = 0 \<and> sem_val (sems u 6000) = 0"
    by (elim exE conjE) (intro exI conjI, assumption, simp_all add: timers_ok_def timed_out_def timed_waiter_sem)
qed

text \<open>When a thread that is not the first of the sleeping ones is taken out early,
  \<open>__scheduler_remove_timeout\<close> leaves the wake-up times of all others as they were and frees the entry.\<close>

lemma scheduler_remove_timeout_keeps_others:
  assumes "sleepers s (ws @ q # zs)" and "ws \<noteq> []" and "total s (ws @ q # zs) < 2 ^ 64"
    and "owns s L" and "(q, 1) \<in> L"
    and "\<forall>r \<in> set ws. sleeper_thread s r \<noteq> t" and "sleeper_thread s q = t"
  shows "\<exists>u. scheduler_remove_timeout t s = Inr u \<and> sleepers u (ws @ zs)
    \<and> wakes u (ws @ zs) = wakes s ws @ wakes_from (total s ws + delay s q) s zs \<and> owns u (L - {(q, 1)})"
proof -
  have "total s (ws @ q # zs) < 18446744073709551616" using assms(3) by simp
  then show ?thesis
    by - (rule remove_timeout_inner [OF assms(1,2) _ assms(4-7)], assumption, blast)
qed

text \<open>Taking out the first of several sleeping threads goes wrong: the list head still points into
  the entry that has just been freed, while the ring no longer contains it.\<close>

lemma scheduler_remove_timeout_dangling:
  assumes "sleepers s (p # q # zs)" and "owns s L" and "(p, 1) \<in> L" and "sleeper_thread s p = t"
  shows "\<exists>u. scheduler_remove_timeout t s = Inr u \<and> sleeping_threads (sched u) = sleeper_node p
    \<and> owns u (L - {(p, 1)}) \<and> ring (list_nodes u) (map sleeper_node (q # zs))
    \<and> sleeper_node p \<notin> set (map sleeper_node (q # zs))"
proof -
  have "p \<notin> set (q # zs)" using sleepers_distinct [OF assms(1)] by simp
  then have "sleeper_node p \<notin> set (map sleeper_node (q # zs))" by auto
  then show ?thesis by - (rule remove_timeout_head [OF assms], blast)
qed

lemma scheduler_remove_timeout_dangling_witness:
  "\<exists>u. scheduler_remove_timeout 64 two_sleepers = Inr u \<and> sleeping_threads (sched u) = 5144
    \<and> owns u {(4096, 16), (5184, 1)}"
proof -
  have "sleeper_thread two_sleepers 5120 = 64" by (simp add: two_sleepers_def sleeper_thread_def)
  moreover have "{(4096, 16), (5120, 1), (5184, 1)} - {(5120, 1)} = {(4096 :: u64, 16 :: int), (5184, 1)}" by auto
  ultimately show ?thesis
    using scheduler_remove_timeout_dangling [OF two_sleepers_list(1) two_sleepers_owns, of 64]
    by (auto simp: sleeper_node_def)
qed

text \<open>An entry that is stored with the time 0 does not wake up at the next tick: its counter wraps
  around and it sleeps for \<open>2\<^sup>6\<^sup>4 - 1\<close> more ticks.\<close>

lemma scheduler_tick_zero_wraps:
  assumes "sleepers s (p # ps)" and "delay s p = 0"
  shows "\<exists>u. scheduler_tick s = Inr u \<and> sleepers u (p # ps) \<and> delay u p = 2 ^ 64 - 1"
  unfolding tick_zero_form [OF assms] using assms(1) by (auto simp: sleepers_def delay_def unat_minus_1)

lemma scheduler_tick_zero_wraps_witness:
  "\<exists>s u. sleepers s [5120] \<and> scheduler_tick s = Inr u \<and> delay u 5120 = 18446744073709551615"
proof -
  let ?s = "blank_kernel\<lparr>list_nodes := \<lambda>_. \<lparr>list_next = 5144, list_prev = 5144\<rparr>,
    sched := (sched blank_kernel)\<lparr>sleeping_threads := 5144\<rparr>\<rparr>"
  have "sleepers ?s [5120]" by (simp add: sleepers_def queue_def ring_singleton sleeper_node_def)
  then show ?thesis using scheduler_tick_zero_wraps [of ?s 5120 "[]"]
    by (auto simp: delay_def blank_kernel_def)
qed

text \<open>\<open>__sem_remove_thread\<close> does not take out the thread it is given: with two or more threads waiting
  it unlinks the first one, whichever thread has timed out, leaves the semaphore's head pointer on the
  unlinked thread and stores the timeout result in the context of the thread it was given.\<close>

lemma sem_remove_thread_takes_first:
  assumes "waiting_at h s (x # y # ts)"
  shows "\<exists>u. sem_remove_thread h t s = Inr u \<and> sem_waiting (sems u h) = thread_node x
    \<and> sem_val (sems u h) = sem_val (sems s h) + 1
    \<and> ring (list_nodes u) (map thread_node (y # ts))
    \<and> x_a0 (contexts u (thr_sp (threads s t))) = i32_to_u64 SEM_WAIT_TIMEOUT"
  by (rule sem_remove_first [OF assms, of t]) (force simp: set_a0_def)

definition two_waiting :: kernel where
  "two_waiting = blank_kernel\<lparr>
     list_nodes := (\<lambda>_. \<lparr>list_next = 104, list_prev = 104\<rparr>)(104 := \<lparr>list_next = 168, list_prev = 168\<rparr>),
     sems := (\<lambda>_. \<lparr>sem_val = -2, sem_init = 0, sem_waiting = 104\<rparr>)\<rparr>"

lemma sem_remove_thread_takes_first_witness:
  "\<exists>u. sem_remove_thread 5120 128 two_waiting = Inr u \<and> sem_waiting (sems u 5120) = 104
    \<and> ring (list_nodes u) [168]"
proof -
  have "waiting_at 5120 two_waiting [64, 128]"
    by (simp add: waiting_at_def two_waiting_def thread_queue_at_def queue_def ring_def thread_node_def)
  from sem_remove_thread_takes_first [OF this, of 128] show ?thesis by (auto simp: thread_node_def)
qed

text \<open>A thread that waits alone and times out is taken off the semaphore, but its result register is
  not set: it sees whatever the register held, not the timeout code.\<close>

lemma sem_remove_thread_single:
  assumes "waiting_at h s [x]" and "h \<noteq> 0"
  shows "\<exists>u. sem_remove_thread h t s = Inr u \<and> sem_waiting (sems u h) = 0
    \<and> sem_val (sems u h) = sem_val (sems s h) + 1 \<and> contexts u = contexts s"
  using remove_only_waiter [OF assms] assms(2) by (simp add: timed_out_def)

lemma sem_remove_thread_single_witness:
  "\<exists>s u. sem_remove_thread 5120 64 s = Inr u \<and> contexts u = contexts s"
proof -
  let ?s = "blank_kernel\<lparr>list_nodes := \<lambda>_. \<lparr>list_next = 104, list_prev = 104\<rparr>,
    sems := \<lambda>_. \<lparr>sem_val = -1, sem_init = 0, sem_waiting = 104\<rparr>\<rparr>"
  have "waiting_at 5120 ?s [64]"
    by (simp add: waiting_at_def thread_queue_at_def queue_def ring_singleton thread_node_def)
  moreover have "(5120 :: u64) \<noteq> 0" by simp
  ultimately show ?thesis using sem_remove_thread_single [of 5120 ?s 64 64] by blast
qed

end
