(* ===== verification/Semaphore.thy ===== *)
theory Semaphore
  imports Timeout
begin

text \<open>
  Semaphores, \<open>src/semaphore.c\<close>: opening and closing, waiting, signalling and waiting with a timeout, and
  the two print routines. \<open>__sem_remove_thread\<close> is in the theory \<open>Timeout\<close>, whose tick calls it.
  \<open>sem_view\<close> reads a semaphore and the ready queue as two lists; the theorems say how the operations
  move threads between them and that a negative value counts the threads that wait.
\<close>

section \<open>Operations\<close>

definition SEM_CREATE_NO_MEMORY :: i32 where "SEM_CREATE_NO_MEMORY = -1"
definition SEM_CLOSED_EXTERNALLY :: i32 where "SEM_CLOSED_EXTERNALLY = -1"
definition SEM_SIGNAL_NO_THREADS :: i32 where "SEM_SIGNAL_NO_THREADS = -1"

text \<open>\<open>semaphores\<close> is an array of ten pointers; writing past it is a fault of the model.\<close>

definition sem_open :: "u64 \<Rightarrow> u32 \<Rightarrow> kernel \<Rightarrow> (i32, kernel) res" where
  "sem_open handle init s =
     seqr (mem_alloc (size_in_blocks sizeof_sem) s) (\<lambda>(new_sem, s).
     if new_sem = 0 then Inr (SEM_CREATE_NO_MEMORY, s)
     else
       (let s = upd_sem new_sem (\<lambda>c. c\<lparr>sem_waiting := 0\<rparr>) s;
            s = upd_sem new_sem (\<lambda>c. c\<lparr>sem_init := init\<rparr>) s;
            s = upd_sem new_sem (\<lambda>c. c\<lparr>sem_val := init\<rparr>) s;
            s = s\<lparr>words := (words s)(handle := new_sem)\<rparr>;
            s = (if first_semaphore s = 0 then s\<lparr>first_semaphore := new_sem\<rparr> else s)
        in if sem_cnt s < 10
           then Inr (0, s\<lparr>semaphores := (semaphores s)[unat (sem_cnt s) := new_sem],
                          sem_cnt := sem_cnt s + 1\<rparr>)
           else Inl (OutOfBounds ''semaphores'', s)))"

partial_function (option) sem_close_loop :: "u64 \<Rightarrow> u64 \<Rightarrow> kernel \<Rightarrow> kernel vres option" where
  "sem_close_loop first_thread current_thread s =
     (let next_thread = list_next (list_nodes s current_thread);
          thread = node_thread current_thread;
          context = thr_sp (threads s thread);
          s = scheduler_push thread s;
          s = upd_context context (set_a0 (i32_to_u64 SEM_CLOSED_EXTERNALLY)) s
      in if next_thread \<noteq> first_thread then sem_close_loop first_thread next_thread s
         else Some (Inr s))"

definition sem_close :: "u64 \<Rightarrow> kernel \<Rightarrow> (i32, kernel) res" where
  "sem_close handle s =
     seqr (if sem_waiting (sems s handle) \<noteq> 0
           then returned s (sem_close_loop (sem_waiting (sems s handle)) (sem_waiting (sems s handle)) s)
           else Inr s) (\<lambda>s.
     let (res, s) = mem_free handle s in
     if res \<noteq> 0 then Inl (Panic (line ''Failed to free semaphore, memory corruption''), s)
     else Inr (0, s))"

definition sem_push :: "u64 \<Rightarrow> u64 \<Rightarrow> kernel \<Rightarrow> kernel" where
  "sem_push handle thread s =
     (let (head, ns) = ring_push (sem_waiting (sems s handle)) (thread_node thread) (list_nodes s)
      in upd_sem handle (\<lambda>c. c\<lparr>sem_waiting := head\<rparr>) (s\<lparr>list_nodes := ns\<rparr>))"

definition sem_wait :: "u64 \<Rightarrow> kernel \<Rightarrow> i32 \<times> kernel" where
  "sem_wait handle s =
     (let s = upd_sem handle (\<lambda>c. c\<lparr>sem_val := sem_val c - 1\<rparr>) s in
      if sem_val (sems s handle) <s 0 then
        (let thread_current = scheduler_current s;
             (thread_next, s) = scheduler_next s;
             s = yield thread_current thread_next s;
             s = sem_push handle thread_current s
         in (1, s))
      else (0, s))"

definition sem_next :: "u64 \<Rightarrow> kernel \<Rightarrow> u64 \<times> kernel" where
  "sem_next handle s =
     (let next_thread = node_thread (sem_waiting (sems s handle));
          (head, ns) = ring_pop (sem_waiting (sems s handle)) (list_nodes s)
      in (next_thread, upd_sem handle (\<lambda>c. c\<lparr>sem_waiting := head\<rparr>) (s\<lparr>list_nodes := ns\<rparr>)))"

definition sem_unblock_thread :: "u64 \<Rightarrow> kernel \<Rightarrow> (i32, kernel) res" where
  "sem_unblock_thread handle s =
     (let (unblocked_thread, s) = sem_next handle s in
      seqr (if thr_time_left (threads s unblocked_thread) = 0
            then scheduler_remove_timeout unblocked_thread s else Inr s) (\<lambda>s.
      let context = thr_sp (threads s unblocked_thread);
          s = upd_context context (set_a0 0) s
      in Inr (0, scheduler_push unblocked_thread s)))"

definition sem_signal :: "u64 \<Rightarrow> kernel \<Rightarrow> (i32, kernel) res" where
  "sem_signal handle s =
     (let s = upd_sem handle (\<lambda>c. c\<lparr>sem_val := sem_val c + 1\<rparr>) s in
      if sem_val (sems s handle) \<le>s 0 then
        (if sem_waiting (sems s handle) = 0 then Inr (SEM_SIGNAL_NO_THREADS, s)
         else seqr (sem_unblock_thread handle s) (\<lambda>(_, s). Inr (0, s)))
      else Inr (0, s))"

definition sem_timed_wait :: "u64 \<Rightarrow> u64 \<Rightarrow> kernel \<Rightarrow> (i32, kernel) res" where
  "sem_timed_wait handle time s =
     (let thread_current = scheduler_current s;
          s = upd_thread thread_current (\<lambda>c. c\<lparr>thr_time_left := 0\<rparr>) s
      in seqr (scheduler_timeout thread_current time handle s) (\<lambda>s. Inr (sem_wait handle s)))"

section \<open>Printing\<close>

definition sem_first_print :: "kernel \<Rightarrow> kernel vres" where
  "sem_first_print s =
     (if first_semaphore s = 0 then Inr (print_str (line ''No semaphores yet'') s)
      else if sem_waiting (sems s (first_semaphore s)) = 0
      then Inr (print_str (line ''Semaphore waiting thread list empty'') s)
      else
        (let s = print_str (line ''Semaphore waiting thread list:'') s;
             head = sem_waiting (sems s (first_semaphore s))
         in seqr (returned s (print_ring_loop head head s)) (\<lambda>s.
            Inr (print_str (line ''Semaphore waiting thread list over'') s))))"

text \<open>The body of the loop of \<open>__sem_all_print\<close>; \<open>i\<close> is below 10, so it is within the array.\<close>

definition sem_print_one :: "u64 \<Rightarrow> kernel \<Rightarrow> kernel vres" where
  "sem_print_one i s =
     (let semaphore = semaphores s ! unat i;
          s = print_str ''Semaphore '' s;
          s = print_u64 i s;
          s = print_str '' '' s;
          s = print_i32 (sem_val (sems s semaphore)) s;
          s = print_str (line []) s
      in if sem_waiting (sems s semaphore) = 0
         then Inr (print_str (line ''Semaphore waiting thread list empty'') s)
         else
           (let s = print_str (line ''Semaphore waiting thread list:'') s;
                head = sem_waiting (sems s semaphore)
            in seqr (returned s (print_ring_loop head head s)) (\<lambda>s.
               Inr (print_str (line ''Semaphore waiting thread list over'') s))))"

partial_function (option) sem_all_print_loop :: "u64 \<Rightarrow> kernel \<Rightarrow> kernel vres option" where
  "sem_all_print_loop i s =
     (if i < sem_cnt s then
        (if unat i < length (semaphores s) then
           (case sem_print_one i s of Inl e \<Rightarrow> Some (Inl e) | Inr s \<Rightarrow> sem_all_print_loop (i + 1) s)
         else Some (Inl (OutOfBounds ''semaphores'', s)))
      else Some (Inr s))"

definition sem_all_print :: "kernel \<Rightarrow> kernel vres" where
  "sem_all_print s = (let s = print_mem ''Semaphore count'' (sem_cnt s) s
                      in returned s (sem_all_print_loop 0 s))"

section \<open>The waiting queue\<close>

lemma sem_push_fields:
  "sems (sem_push h t s) = (sems s)(h := (sems s h)\<lparr>sem_waiting :=
     fst (ring_push (sem_waiting (sems s h)) (thread_node t) (list_nodes s))\<rparr>)"
  "list_nodes (sem_push h t s) = snd (ring_push (sem_waiting (sems s h)) (thread_node t) (list_nodes s))"
  "threads (sem_push h t s) = threads s" "contexts (sem_push h t s) = contexts s"
  "sched (sem_push h t s) = sched s" "running (sem_push h t s) = running s"
  "mem_state.truncate (sem_push h t s) = mem_state.truncate s" "sleeping (sem_push h t s) = sleeping s"
  by (simp_all add: sem_push_def split_beta Let_def upd_sem_def running_def mem_state.truncate_def)

lemma sem_next_fields:
  "fst (sem_next h s) = node_thread (sem_waiting (sems s h))"
  "sems (snd (sem_next h s)) = (sems s)(h := (sems s h)\<lparr>sem_waiting :=
     fst (ring_pop (sem_waiting (sems s h)) (list_nodes s))\<rparr>)"
  "list_nodes (snd (sem_next h s)) = snd (ring_pop (sem_waiting (sems s h)) (list_nodes s))"
  "threads (snd (sem_next h s)) = threads s" "contexts (snd (sem_next h s)) = contexts s"
  "sched (snd (sem_next h s)) = sched s" "running (snd (sem_next h s)) = running s"
  "sleeping (snd (sem_next h s)) = sleeping s" "mem_state.truncate (snd (sem_next h s)) = mem_state.truncate s"
  by (simp_all add: sem_next_def split_beta Let_def upd_sem_def running_def mem_state.truncate_def)

lemma waiting_push:
  assumes "waiting_at h s ws" and "t \<notin> set ws" and "thread_node t \<noteq> 0"
  shows "waiting_at h (sem_push h t s) (ws @ [t])"
  using thread_queue_push assms by (simp add: waiting_at_def sem_push_fields)

lemma waiting_next:
  assumes "waiting_at h s (t # ws)"
  shows "fst (sem_next h s) = t" and "waiting_at h (snd (sem_next h s)) ws"
  using thread_queue_pop [OF assms [unfolded waiting_at_def]]
  by (simp_all add: waiting_at_def sem_next_fields)

interpretation waiting: thread_queue "sem_push h" "sem_next h" "waiting_at h" for h
proof unfold_locales
  show "waiting_at h s ts \<Longrightarrow> t \<notin> set ts \<Longrightarrow> thread_node t \<noteq> 0 \<Longrightarrow> waiting_at h (sem_push h t s) (ts @ [t])"
    for s ts t by (rule waiting_push)
  show "waiting_at h s (t # ts) \<Longrightarrow> \<exists>u. sem_next h s = (t, u) \<and> waiting_at h u ts" for s t ts
    using waiting_next [of h s t ts] by (metis prod.collapse)
  show "waiting_at h s ts \<Longrightarrow> distinct ts" for s ts
    by (simp add: waiting_at_def thread_queue_distinct)
  show "waiting_at h s ts \<Longrightarrow> t \<in> set ts \<Longrightarrow> thread_node t \<noteq> 0" for s ts t
    by (auto simp: waiting_at_def thread_queue_at_def queue_def image_iff split: if_splits)
qed

section \<open>Ready and waiting threads together\<close>

definition sem_view :: "u64 \<Rightarrow> kernel \<Rightarrow> u64 list \<Rightarrow> u64 list \<Rightarrow> bool" where
  "sem_view h s ts ws \<longleftrightarrow> ready_queue s ts \<and> waiting_at h s ws \<and> distinct (ts @ ws)"

lemma thread_queue_cong:
  assumes "\<And>t. t \<in> set ts \<Longrightarrow> ns' (thread_node t) = ns (thread_node t)"
  shows "thread_queue_at ns' p ts = thread_queue_at ns p ts"
  unfolding thread_queue_at_def by (rule queue_cong) (auto simp: assms)

lemma view_push_ready:
  assumes "sem_view h s ts ws" and "t \<notin> set (ts @ ws)" and "thread_node t \<noteq> 0"
  shows "sem_view h (scheduler_push t s) (ts @ [t]) ws"
proof -
  have r: "ready_queue s ts" using assms(1) by (simp add: sem_view_def)
  have "list_nodes (scheduler_push t s) (thread_node w) = list_nodes s (thread_node w)" if "w \<in> set ws" for w
    using assms(1,2) that by (intro ready_push_frame [OF r]) (auto simp: sem_view_def)
  then have "waiting_at h (scheduler_push t s) ws = waiting_at h s ws"
    unfolding waiting_at_def by (simp only: scheduler_push_same) (rule thread_queue_cong)
  with assms ready_push [OF r, of t] show ?thesis by (auto simp: sem_view_def)
qed

lemma view_next_ready:
  assumes "sem_view h s ts ws"
  shows "sem_view h (snd (scheduler_next s)) (tl ts) ws"
proof -
  have r: "ready_queue s ts" using assms(1) by (simp add: sem_view_def)
  have "list_nodes (snd (scheduler_next s)) (thread_node w) = list_nodes s (thread_node w)" if "w \<in> set ws" for w
    using assms(1) that by (intro ready_next_frame [OF r]) (auto simp: sem_view_def)
  then have "waiting_at h (snd (scheduler_next s)) ws = waiting_at h s ws"
    unfolding waiting_at_def by (simp only: scheduler_next_same) (rule thread_queue_cong)
  with assms scheduler_next_cases(2) [OF r] show ?thesis by (cases ts) (auto simp: sem_view_def)
qed

lemma view_push_waiting:
  assumes "sem_view h s ts ws" and "t \<notin> set (ts @ ws)" and "thread_node t \<noteq> 0"
  shows "sem_view h (sem_push h t s) ts (ws @ [t])"
proof -
  have w: "waiting_at h s ws" using assms(1) by (simp add: sem_view_def)
  have "list_nodes (sem_push h t s) (thread_node x) = list_nodes s (thread_node x)" if "x \<in> set ts" for x
    unfolding sem_push_fields
    using assms(1,2) that
    by (intro ring_push_frame [OF w [unfolded waiting_at_def thread_queue_at_def]]) (auto simp: sem_view_def)
  then have "ready_queue (sem_push h t s) ts = ready_queue s ts"
    unfolding ready_queue_def by (simp only: sem_push_fields(5)) (rule thread_queue_cong)
  with assms waiting_push [OF w, of t] show ?thesis by (auto simp: sem_view_def)
qed

lemma view_next_waiting:
  assumes "sem_view h s ts (t # ws)"
  shows "sem_view h (snd (sem_next h s)) ts ws" and "fst (sem_next h s) = t"
proof -
  have w: "waiting_at h s (t # ws)" using assms(1) by (simp add: sem_view_def)
  have "list_nodes (snd (sem_next h s)) (thread_node x) = list_nodes s (thread_node x)" if "x \<in> set ts" for x
    unfolding sem_next_fields
    using assms(1) that
    by (intro ring_pop_frame [OF w [unfolded waiting_at_def thread_queue_at_def]]) (auto simp: sem_view_def)
  then have "ready_queue (snd (sem_next h s)) ts = ready_queue s ts"
    unfolding ready_queue_def by (simp only: sem_next_fields(6)) (rule thread_queue_cong)
  with assms waiting_next [OF w] show "sem_view h (snd (sem_next h s)) ts ws" "fst (sem_next h s) = t"
    by (auto simp: sem_view_def)
qed

lemma view_valid: "sem_view h s ts ws \<Longrightarrow> t \<in> set (ts @ ws) \<Longrightarrow> thread_node t \<noteq> 0"
  using ready.held_valid waiting.held_valid by (auto simp: sem_view_def)

lemma view_yield: "sem_view h (yield t u s) ts ws = sem_view h s ts ws"
  by (simp add: sem_view_def ready_queue_def waiting_at_def)

lemma view_upd:
  "sem_view h (upd_context p g s) ts ws = sem_view h s ts ws"
  "(\<And>c. sem_waiting (f c) = sem_waiting c) \<Longrightarrow> sem_view h (upd_sem h f s) ts ws = sem_view h s ts ws"
  by (simp_all add: sem_view_def ready_queue_def waiting_at_def upd_defs)

section \<open>Waiting and signalling: correctness\<close>

lemma upd_sem_simps [simp]:
  "sems (upd_sem h f s) = (sems s)(h := f (sems s h))" "sched (upd_sem h f s) = sched s"
  "threads (upd_sem h f s) = threads s" "contexts (upd_sem h f s) = contexts s"
  "list_nodes (upd_sem h f s) = list_nodes s" "running (upd_sem h f s) = running s"
  "sleeping (upd_sem h f s) = sleeping s" "csr_sscratch (upd_sem h f s) = csr_sscratch s"
  "csr_sepc (upd_sem h f s) = csr_sepc s" "csr_sstatus (upd_sem h f s) = csr_sstatus s"
  by (simp_all add: upd_sem_def running_def)

lemma sem_wait_passes:
  assumes "0 < sint (sem_val (sems s h))"
  shows "sem_wait h s = (0, upd_sem h (\<lambda>c. c\<lparr>sem_val := sem_val c - 1\<rparr>) s)"
proof -
  have "sint (sem_val (sems s h) - 1) = sint (sem_val (sems s h)) - 1"
    using assms sint_i32_bounds [of "sem_val (sems s h)"] sint_sub_i32 [of "sem_val (sems s h)" 1] by simp
  then show ?thesis using assms by (simp add: sem_wait_def slt_0_iff)
qed

lemma sem_wait_blocks:
  assumes v: "sint (sem_val (sems s h)) \<le> 0" "- 2147483648 < sint (sem_val (sems s h))"
    and q: "sem_view h s ts ws" and c: "c = scheduler_current s" "c \<notin> set (ts @ ws)" "thread_node c \<noteq> 0"
    and n: "n = (if ts = [] then sch_kernel_main (sched s) else hd ts)" "c \<noteq> n"
  obtains u where "sem_wait h s = (1, u)" and "sem_view h u (tl ts) (ws @ [c])"
    and "sem_val (sems u h) = sem_val (sems s h) - 1" and "scheduler_current u = n"
    and "running u = saved n s" and "saved c u = running s"
    and "\<And>x. x \<noteq> c \<Longrightarrow> threads u x = threads s x" and "contexts u = contexts s"
proof -
  let ?s = "upd_sem h (\<lambda>c. c\<lparr>sem_val := sem_val c - 1\<rparr>) s"
  let ?t = "snd (scheduler_next ?s)"
  define u where "u = sem_push h c (yield c n ?t)"
  have lt: "sem_val (sems s h) - 1 <s 0"
    using v sint_sub_i32 [of "sem_val (sems s h)" 1] by (simp add: slt_0_iff)
  have qs: "sem_view h ?s ts ws" using q by (simp add: view_upd)
  then have "ready_queue ?s ts" by (simp add: sem_view_def)
  then have "fst (scheduler_next ?s) = n" using scheduler_next_cases(1) n(1) by simp
  then have e: "sem_wait h s = (1, u)"
    using lt c(1) by (simp add: sem_wait_def u_def Let_def split_beta scheduler_current_def)
  have "sem_view h (yield c n ?t) (tl ts) ws" using view_next_ready [OF qs] by (simp add: view_yield)
  moreover have "c \<notin> set (tl ts @ ws)" using c(2) by (cases ts) auto
  ultimately have w: "sem_view h u (tl ts) (ws @ [c])" unfolding u_def using c(3) by (rule view_push_waiting)
  show thesis
  proof (rule that [OF e w])
    show "sem_val (sems u h) = sem_val (sems s h) - 1" by (simp add: u_def sem_push_fields)
    show "scheduler_current u = n"
      using scheduler_next_current [of ?s] \<open>fst (scheduler_next ?s) = n\<close>
      by (simp add: u_def sem_push_fields scheduler_current_def)
    have "running ?t = running s" "saved n ?t = saved n s" by (simp_all add: running_def saved_def)
    moreover have "saved c u = saved c (yield c n ?t)" by (simp add: u_def saved_def sem_push_fields)
    ultimately show "running u = saved n s" "saved c u = running s"
      using yield_switch(1,2) [OF n(2), of ?t] by (simp_all add: u_def sem_push_fields)
    show "threads u x = threads s x" if "x \<noteq> c" for x
      using yield_threads [OF n(2), of ?t] that by (simp add: u_def sem_push_fields)
    show "contexts u = contexts s" by (simp add: u_def sem_push_fields)
  qed
qed

lemma sem_signal_free:
  assumes "0 \<le> sint (sem_val (sems s h))" and "sint (sem_val (sems s h)) < 2147483647"
  shows "sem_signal h s = Inr (0, upd_sem h (\<lambda>c. c\<lparr>sem_val := sem_val c + 1\<rparr>) s)"
proof -
  have "sint (sem_val (sems s h) + 1) = sint (sem_val (sems s h)) + 1"
    using assms sint_sub_i32 [of "sem_val (sems s h)" "- 1"] by simp
  then show ?thesis using assms by (simp add: sem_signal_def sle_0_iff)
qed

lemma sem_signal_nobody:
  assumes "sint (sem_val (sems s h)) < 0" and "waiting_at h s []"
  shows "sem_signal h s = Inr (SEM_SIGNAL_NO_THREADS, upd_sem h (\<lambda>c. c\<lparr>sem_val := sem_val c + 1\<rparr>) s)"
proof -
  have "sem_val (sems s h) + 1 \<le>s 0"
    using assms(1) sint_sub_i32 [of "sem_val (sems s h)" "- 1"] sint_i32_bounds [of "sem_val (sems s h)"]
    by (simp add: sle_0_iff)
  then show ?thesis using assms(2) by (simp add: sem_signal_def waiting_at_def thread_queue_at_def)
qed

text \<open>A signal with threads waiting: the first of them leaves the queue, its timeout is taken back when its
  time slice counter is 0, and it becomes ready.\<close>

lemma sem_signal_form:
  assumes v: "sint (sem_val (sems s h)) < 0" and q: "sem_view h s ts (t # ws)"
  obtains m where "sem_signal h s = seqr (if thr_time_left (threads s t) = 0 then scheduler_remove_timeout t m else Inr m)
      (\<lambda>v. Inr (0, scheduler_push t (upd_context (thr_sp (threads v t)) (set_a0 0) v)))"
    and "sem_view h m ts ws" and "sem_val (sems m h) = sem_val (sems s h) + 1"
    and "\<forall>k. k \<noteq> h \<longrightarrow> sems m k = sems s k" and "contexts m = contexts s" and "threads m = threads s"
    and "running m = running s" and "sched m = sched s" and "sleeping m = sleeping s"
    and "mem_state.truncate m = mem_state.truncate s"
    and "\<forall>n. n \<notin> thread_node ` set (t # ws) \<longrightarrow> list_nodes m n = list_nodes s n"
proof -
  let ?s = "upd_sem h (\<lambda>c. c\<lparr>sem_val := sem_val c + 1\<rparr>) s"
  let ?m = "snd (sem_next h ?s)"
  have le: "sem_val (sems s h) + 1 \<le>s 0"
    using v sint_sub_i32 [of "sem_val (sems s h)" "- 1"] sint_i32_bounds [of "sem_val (sems s h)"]
    by (simp add: sle_0_iff)
  have qs: "sem_view h ?s ts (t # ws)" using q by (simp add: view_upd)
  have w: "waiting_at h s (t # ws)" using q by (simp add: sem_view_def)
  then have nz: "sem_waiting (sems s h) \<noteq> 0" by (auto simp: waiting_at_def thread_queue_at_def queue_Cons)
  have f: "fst (sem_next h ?s) = t" by (rule view_next_waiting(2) [OF qs])
  show thesis
  proof (rule that)
    show "sem_signal h s = seqr (if thr_time_left (threads s t) = 0 then scheduler_remove_timeout t ?m else Inr ?m)
        (\<lambda>v. Inr (0, scheduler_push t (upd_context (thr_sp (threads v t)) (set_a0 0) v)))"
      using le nz f
      by (cases "scheduler_remove_timeout t ?m")
        (simp_all add: sem_signal_def sem_unblock_thread_def Let_def split_beta sem_next_fields)
    show "sem_view h ?m ts ws" by (rule view_next_waiting(1) [OF qs])
    show "\<forall>n. n \<notin> thread_node ` set (t # ws) \<longrightarrow> list_nodes ?m n = list_nodes s n"
      unfolding sem_next_fields
      using ring_pop_frame [OF w [unfolded waiting_at_def thread_queue_at_def]] by (simp add: sem_next_fields)
  qed (simp_all add: sem_next_fields)
qed

text \<open>The state after the first of the waiting threads \<open>ws\<close> has been made ready behind \<open>ts\<close>.\<close>

definition first_woken :: "u64 \<Rightarrow> kernel \<Rightarrow> u64 list \<Rightarrow> u64 list \<Rightarrow> kernel \<Rightarrow> bool" where
  "first_woken h s ts ws u \<longleftrightarrow> sem_view h u (ts @ [hd ws]) (tl ws)
     \<and> sem_val (sems u h) = sem_val (sems s h) + 1 \<and> (\<forall>k. k \<noteq> h \<longrightarrow> sems u k = sems s k)
     \<and> contexts u = (contexts s)(thr_sp (threads s (hd ws)) := set_a0 0 (contexts s (thr_sp (threads s (hd ws)))))
     \<and> threads u = (threads s)(hd ws := (threads s (hd ws))\<lparr>thr_time_left := DEFAULT_TIME_SLICE\<rparr>)
     \<and> running u = running s \<and> scheduler_current u = scheduler_current s"

lemma first_wokenI:
  assumes "sem_view h v ts (tl ws)" and "sem_view h s ts ws" and "ws \<noteq> []"
    and "sem_val (sems v h) = sem_val (sems s h) + 1" and "\<forall>k. k \<noteq> h \<longrightarrow> sems v k = sems s k"
    and "contexts v = contexts s" and "threads v = threads s" and "running v = running s"
    and "scheduler_current v = scheduler_current s"
  shows "first_woken h s ts ws (scheduler_push (hd ws) (upd_context (thr_sp (threads v (hd ws))) (set_a0 0) v))"
proof -
  obtain t rs where ws: "ws = t # rs" using assms(3) by (cases ws) auto
  have "t \<notin> set (ts @ rs)" "thread_node t \<noteq> 0" using assms(2) view_valid [OF assms(2), of t] ws by (auto simp: sem_view_def)
  then have "sem_view h (scheduler_push t (upd_context (thr_sp (threads v t)) (set_a0 0) v)) (ts @ [t]) rs"
    using assms(1) ws by (intro view_push_ready) (simp_all add: view_upd)
  then show ?thesis unfolding first_woken_def ws list.sel
    using assms(4-9) by (simp add: scheduler_push_fields upd_context_def running_def scheduler_current_def)
qed

lemma sem_signal_wakes_first:
  assumes v: "sint (sem_val (sems s h)) < 0" and q: "sem_view h s ts ws" and ne: "ws \<noteq> []"
    and tl: "thr_time_left (threads s (hd ws)) \<noteq> 0"
  obtains u where "sem_signal h s = Inr (0, u)" and "first_woken h s ts ws u"
proof -
  obtain t rs where ws: "ws = t # rs" using ne by (cases ws) auto
  obtain m where m: "sem_signal h s = seqr (if thr_time_left (threads s t) = 0 then scheduler_remove_timeout t m else Inr m)
      (\<lambda>v. Inr (0, scheduler_push t (upd_context (thr_sp (threads v t)) (set_a0 0) v)))"
    "sem_view h m ts rs" "sem_val (sems m h) = sem_val (sems s h) + 1" "\<forall>k. k \<noteq> h \<longrightarrow> sems m k = sems s k"
    "contexts m = contexts s" "threads m = threads s" "running m = running s" "sched m = sched s"
    by (rule sem_signal_form [OF v q [unfolded ws]])
  have e: "sem_signal h s = Inr (0, scheduler_push (hd ws) (upd_context (thr_sp (threads m (hd ws))) (set_a0 0) m))"
    using m(1) tl ws by simp
  show thesis
    by (rule that [OF e first_wokenI [OF _ q ne m(3-7)]]) (use m(2,8) ws in \<open>simp_all add: scheduler_current_def\<close>)
qed

lemma sem_signal_wakes:
  assumes v: "sint (sem_val (sems s h)) < 0" and q: "sem_view h s ts (t # ws)"
    and tl: "thr_time_left (threads s t) \<noteq> 0"
  obtains u where "sem_signal h s = Inr (0, u)" and "sem_view h u (ts @ [t]) ws"
    and "sem_val (sems u h) = sem_val (sems s h) + 1"
    and "contexts u = (contexts s)(thr_sp (threads s t) := set_a0 0 (contexts s (thr_sp (threads s t))))"
    and "threads u = (threads s)(t := (threads s t)\<lparr>thr_time_left := 2\<rparr>)"
    and "running u = running s" and "scheduler_current u = scheduler_current s"
  by (rule sem_signal_wakes_first [OF v q]) (use tl in simp, use tl in simp, simp add: first_woken_def)

section \<open>Signalling a thread that waits with a timeout\<close>

text \<open>The entries of the sleeping threads: the first one of the thread is taken out. When it is the first
  of several, the head of the list stays on it.\<close>

definition timeout_removed :: "kernel \<Rightarrow> kernel \<Rightarrow> u64 list \<Rightarrow> u64 \<Rightarrow> u64 list \<Rightarrow> bool" where
  "timeout_removed s u as p bs \<longleftrightarrow>
     (if as = [] \<and> bs \<noteq> [] then sleeping_threads (sched u) = sleeper_node p \<and> ring (list_nodes u) (map sleeper_node bs)
      else sleepers u (as @ bs) \<and> wakes u (as @ bs) = wakes s as @ wakes_from (total s as + delay s p) s bs)"

lemma timeout_removed_cong:
  assumes "\<And>q. q \<in> set (as @ bs) \<Longrightarrow> list_nodes u (sleeper_node q) = list_nodes v (sleeper_node q)"
    and "sleeping_threads (sched u) = sleeping_threads (sched v)" and "sleeping u = sleeping v"
  shows "timeout_removed s u as p bs = timeout_removed s v as p bs"
proof -
  have "ring (list_nodes u) (map sleeper_node bs) = ring (list_nodes v) (map sleeper_node bs)"
    by (rule ring_cong) (use assms(1) in auto)
  moreover have "queue (list_nodes u) h (map sleeper_node (as @ bs)) = queue (list_nodes v) h (map sleeper_node (as @ bs))" for h
    by (rule queue_cong) (use assms(1) in auto)
  moreover have "wakes u (as @ bs) = wakes v (as @ bs)" by (rule wakes_cong(1)) (simp add: assms(3))
  ultimately show ?thesis by (simp only: timeout_removed_def sleepers_def assms(2))
qed

text \<open>What a signal does to a thread that waits with a timeout, whose entry is \<open>p\<close>.\<close>

lemma sem_signal_timed:
  assumes v: "sint (sem_val (sems s h)) < 0" and q: "sem_view h s ts ws" and ne: "ws \<noteq> []"
    and tl: "thr_time_left (threads s (hd ws)) = 0"
    and sl: "sleepers s (as @ p # bs)" and b: "total s (as @ p # bs) < 18446744073709551616"
    and o: "owns s L" and l: "(p, 1) \<in> L"
    and first: "\<forall>r \<in> set as. sleeper_thread s r \<noteq> hd ws" and th: "sleeper_thread s p = hd ws"
    and dj: "thread_node ` set (ts @ ws) \<inter> sleeper_node ` set (as @ p # bs) = {}"
  obtains u where "sem_signal h s = Inr (0, u)" and "first_woken h s ts ws u"
    and "owns u (L - {(p, 1)})" and "timeout_removed s u as p bs"
proof -
  obtain t rs where ws: "ws = t # rs" using ne by (cases ws) auto
  obtain m where m: "sem_signal h s = seqr (if thr_time_left (threads s t) = 0 then scheduler_remove_timeout t m else Inr m)
      (\<lambda>v. Inr (0, scheduler_push t (upd_context (thr_sp (threads v t)) (set_a0 0) v)))"
    "sem_view h m ts rs" "sem_val (sems m h) = sem_val (sems s h) + 1" "\<forall>k. k \<noteq> h \<longrightarrow> sems m k = sems s k"
    "contexts m = contexts s" "threads m = threads s" "running m = running s" "sched m = sched s"
    "sleeping m = sleeping s" "mem_state.truncate m = mem_state.truncate s"
    "\<forall>n. n \<notin> thread_node ` set (t # rs) \<longrightarrow> list_nodes m n = list_nodes s n"
    by (rule sem_signal_form [OF v q [unfolded ws]])
  have nm: "list_nodes m n = list_nodes s n" if "n \<in> sleeper_node ` set (as @ p # bs)" for n
  proof -
    have "n \<notin> thread_node ` set (ts @ ws)" using that dj by blast
    then show ?thesis unfolding ws by (intro m(11) [rule_format]) auto
  qed
  have "queue (list_nodes m) a (map sleeper_node (as @ p # bs)) = queue (list_nodes s) a (map sleeper_node (as @ p # bs))" for a
    by (rule queue_cong) (use nm in auto)
  then have slm: "sleepers m (as @ p # bs)" using sl unfolding sleepers_def m(8) by simp
  have W: "wakes_from a m xs = wakes_from a s xs" "total m xs = total s xs" for a xs
    by (rule wakes_cong, simp only: m(9))+
  have dl: "delay m p = delay s p" and stm: "sleeper_thread m = sleeper_thread s"
    by (simp_all add: delay_def sleeper_thread_def [abs_def] m(9))
  have om: "owns m L" using o owns_cong [OF m(10)] by simp
  obtain w where w: "scheduler_remove_timeout t m = Inr w" "owns w (L - {(p, 1)})"
    "sleep_frame m w (sleeper_node ` set (as @ p # bs))"
    "if as = [] \<and> bs \<noteq> [] then sleeping_threads (sched w) = sleeper_node p \<and> ring (list_nodes w) (map sleeper_node bs)
      else sleepers w (as @ bs) \<and> wakes w (as @ bs) = wakes m as @ wakes_from (total m as + delay m p) m bs"
    by (rule remove_timeout_cases [OF slm _ om l, of t]) (use b first th ws in \<open>simp_all add: W stm dl\<close>)
  have r: "timeout_removed s w as p bs" using w(4) unfolding timeout_removed_def W dl .
  have fr: "threads w = threads m" "contexts w = contexts m" "sems w = sems m" "running w = running m"
    "sched w = (sched m)\<lparr>sleeping_threads := sleeping_threads (sched w)\<rparr>"
    "\<And>n. n \<notin> sleeper_node ` set (as @ p # bs) \<Longrightarrow> list_nodes w n = list_nodes m n"
    using w(3) unfolding sleep_frame_def by blast+
  have sc: "ready_threads (sched w) = ready_threads (sched m)" "thread_current (sched w) = thread_current (sched m)"
    by (subst fr(5), simp)+
  have tn: "list_nodes w (thread_node x) = list_nodes m (thread_node x)" if "x \<in> set (ts @ rs)" for x
  proof -
    have "thread_node x \<in> thread_node ` set (ts @ ws)" by (rule imageI) (use that ws in auto)
    then have "thread_node x \<notin> sleeper_node ` set (as @ p # bs)" using dj by blast
    then show ?thesis by (rule fr(6))
  qed
  have "ready_queue w ts" "waiting_at h w rs"
    using m(2) thread_queue_cong [of ts "list_nodes w" "list_nodes m"] thread_queue_cong [of rs "list_nodes w" "list_nodes m"] tn
    by (simp_all add: sem_view_def ready_queue_def waiting_at_def sc fr(3))
  then have qw: "sem_view h w ts rs" using m(2) by (simp add: sem_view_def)
  let ?c = "upd_context (thr_sp (threads w (hd ws))) (set_a0 0) w"
  let ?u = "scheduler_push (hd ws) ?c"
  have e: "sem_signal h s = Inr (0, ?u)" using m(1) tl w(1) ws by simp
  have f: "first_woken h s ts ws ?u"
    by (rule first_wokenI [OF _ q ne]) (use qw m fr sc ws in \<open>simp_all add: scheduler_current_def\<close>)
  have "mem_state.truncate ?u = mem_state.truncate ?c" by (rule scheduler_push_same(8))
  then have "mem_state.truncate ?u = mem_state.truncate w" by (simp add: upd_context_def mem_state.truncate_def)
  then have ou: "owns ?u (L - {(p, 1)})" using w(2) owns_cong by blast
  have rc: "ready_queue ?c ts" using qw by (simp add: sem_view_def ready_queue_def upd_context_def)
  have "list_nodes ?u (sleeper_node x) = list_nodes w (sleeper_node x)" if "x \<in> set (as @ bs)" for x
  proof -
    have "sleeper_node x \<in> sleeper_node ` set (as @ p # bs)" by (rule imageI) (use that in auto)
    then have "sleeper_node x \<notin> thread_node ` set (ts @ ws)" using dj by blast
    then have "sleeper_node x \<notin> thread_node ` set ts" "sleeper_node x \<noteq> thread_node (hd ws)" using ws by auto
    then have "list_nodes ?u (sleeper_node x) = list_nodes ?c (sleeper_node x)"
      by (rule ready_push_frame [OF rc])
    then show ?thesis by (simp add: upd_context_def)
  qed
  then have "timeout_removed s ?u as p bs = timeout_removed s w as p bs"
    by (rule timeout_removed_cong) (simp_all add: upd_context_def)
  with r show thesis by (intro that [OF e f ou]) simp
qed

lemma sem_signal_lost:
  assumes v: "sint (sem_val (sems s h)) < 0" and q: "sem_view h s ts ws" and ne: "ws \<noteq> []"
    and tl: "thr_time_left (threads s (hd ws)) = 0"
    and sl: "sleepers s ps" and none: "\<forall>r \<in> set ps. sleeper_thread s r \<noteq> hd ws"
    and dj: "thread_node ` set (ts @ ws) \<inter> sleeper_node ` set ps = {}"
  obtains e u where "sem_signal h s = Inl (Panic e, u)"
proof -
  obtain t rs where ws: "ws = t # rs" using ne by (cases ws) auto
  obtain m where m: "sem_signal h s = seqr (if thr_time_left (threads s t) = 0 then scheduler_remove_timeout t m else Inr m)
      (\<lambda>v. Inr (0, scheduler_push t (upd_context (thr_sp (threads v t)) (set_a0 0) v)))"
    "sched m = sched s" "sleeping m = sleeping s"
    "\<forall>n. n \<notin> thread_node ` set (t # rs) \<longrightarrow> list_nodes m n = list_nodes s n"
    by (rule sem_signal_form [OF v q [unfolded ws]])
  have "list_nodes m n = list_nodes s n" if "n \<in> sleeper_node ` set ps" for n
  proof -
    have "n \<notin> thread_node ` set (ts @ ws)" using that dj by blast
    then show ?thesis unfolding ws by (intro m(4) [rule_format]) auto
  qed
  then have "queue (list_nodes m) a (map sleeper_node ps) = queue (list_nodes s) a (map sleeper_node ps)" for a
    by (intro queue_cong) auto
  then have "sleepers m ps" using sl unfolding sleepers_def m(2) by simp
  then obtain e where "scheduler_remove_timeout t m = Inl (Panic e, m)"
    by (rule remove_timeout_missing [of m ps t]) (use none ws m(3) in \<open>simp_all add: sleeper_thread_def\<close>)
  with m(1) tl ws show thesis by (intro that) simp
qed

section \<open>Closing: correctness\<close>

fun next_chain :: "nodes \<Rightarrow> u64 \<Rightarrow> u64 list \<Rightarrow> bool" where
  "next_chain ns end [] = True"
| "next_chain ns end (t # ts) =
     (list_next (ns (thread_node t)) = (if ts = [] then end else thread_node (hd ts)) \<and> next_chain ns end ts)"

lemma next_chain_cong:
  "(\<And>t. t \<in> set ts \<Longrightarrow> ns' (thread_node t) = ns (thread_node t)) \<Longrightarrow> next_chain ns' e ts = next_chain ns e ts"
  by (induction ts) simp_all

lemma links_next_chain: "links ns (map thread_node ts @ [e]) \<Longrightarrow> next_chain ns e ts"
proof (induction ts)
  case (Cons t ts)
  then show ?case by (cases ts) simp_all
qed simp

text \<open>The loop of \<open>__sem_close\<close> on the threads it has not reached yet.\<close>

lemma sem_close_loop_wakes:
  assumes "ready_queue s ts" and "next_chain (list_nodes s) first (w # ws)" and "distinct (ts @ w # ws)"
    and "first \<notin> thread_node ` set ws" and "\<forall>x \<in> set (w # ws). thread_node x \<noteq> 0"
  shows "\<exists>u. sem_close_loop first (thread_node w) s = Some (Inr u) \<and> ready_queue u (ts @ w # ws)
    \<and> (\<forall>x \<in> set (w # ws). x_a0 (contexts u (thr_sp (threads s x))) = i32_to_u64 SEM_CLOSED_EXTERNALLY)
    \<and> (\<forall>p. p \<notin> (\<lambda>x. thr_sp (threads s x)) ` set (w # ws) \<longrightarrow> contexts u p = contexts s p)
    \<and> (\<forall>x. thr_sp (threads u x) = thr_sp (threads s x))
    \<and> mem_state.truncate u = mem_state.truncate s \<and> running u = running s
    \<and> scheduler_current u = scheduler_current s"
  using assms
proof (induction ws arbitrary: s ts w)
  case Nil
  let ?u = "upd_context (thr_sp (threads s w)) (set_a0 (i32_to_u64 SEM_CLOSED_EXTERNALLY)) (scheduler_push w s)"
  have "sem_close_loop first (thread_node w) s = Some (Inr ?u)"
    using Nil by (subst sem_close_loop.simps) (simp add: Let_def)
  moreover have "ready_queue ?u (ts @ [w])"
    using ready_push [OF Nil(1), of w] Nil by (simp add: ready_queue_def upd_context_def)
  ultimately show ?case
    by (intro exI [of _ ?u])
       (simp add: upd_context_def set_a0_def scheduler_push_fields running_def scheduler_current_def mem_state.truncate_def
         scheduler_push_def Let_def split_beta upd_defs)
next
  case (Cons y ws)
  let ?v = "upd_context (thr_sp (threads s w)) (set_a0 (i32_to_u64 SEM_CLOSED_EXTERNALLY)) (scheduler_push w s)"
  have e: "sem_close_loop first (thread_node w) s = sem_close_loop first (thread_node y) ?v"
    using Cons.prems by (subst sem_close_loop.simps) (auto simp: Let_def image_iff)
  have r: "ready_queue ?v (ts @ [w])"
    using ready_push [OF Cons.prems(1), of w] Cons.prems by (simp add: ready_queue_def upd_context_def)
  have "list_nodes ?v (thread_node x) = list_nodes s (thread_node x)" if "x \<in> set (y # ws)" for x
    using Cons.prems(3) that ready_push_frame [OF Cons.prems(1), of "thread_node x" w]
    by (auto simp: upd_context_def)
  then have "next_chain (list_nodes ?v) first (y # ws) = next_chain (list_nodes s) first (y # ws)"
    by (rule next_chain_cong)
  then have ch: "next_chain (list_nodes ?v) first (y # ws)" using Cons.prems(2) by simp
  obtain u where u: "sem_close_loop first (thread_node y) ?v = Some (Inr u)" "ready_queue u ((ts @ [w]) @ y # ws)"
    "\<forall>x \<in> set (y # ws). x_a0 (contexts u (thr_sp (threads ?v x))) = i32_to_u64 SEM_CLOSED_EXTERNALLY"
    "\<forall>p. p \<notin> (\<lambda>x. thr_sp (threads ?v x)) ` set (y # ws) \<longrightarrow> contexts u p = contexts ?v p"
    "\<forall>x. thr_sp (threads u x) = thr_sp (threads ?v x)"
    "mem_state.truncate u = mem_state.truncate ?v" "running u = running ?v"
    "scheduler_current u = scheduler_current ?v"
    using Cons.IH [OF r ch] Cons.prems by auto
  have sp: "thr_sp (threads ?v x) = thr_sp (threads s x)" for x
    by (simp add: upd_context_def scheduler_push_fields)
  have cv: "contexts ?v = (contexts s)(thr_sp (threads s w) :=
      set_a0 (i32_to_u64 SEM_CLOSED_EXTERNALLY) (contexts s (thr_sp (threads s w))))"
    by (simp add: upd_context_def)
  have a0: "x_a0 (contexts u (thr_sp (threads s w))) = i32_to_u64 SEM_CLOSED_EXTERNALLY"
  proof (cases "thr_sp (threads s w) \<in> (\<lambda>x. thr_sp (threads ?v x)) ` set (y # ws)")
    case True
    then obtain x where "x \<in> set (y # ws)" "thr_sp (threads s w) = thr_sp (threads ?v x)" by blast
    with u(3) show ?thesis by metis
  next
    case False
    with u(4) have "contexts u (thr_sp (threads s w)) = contexts ?v (thr_sp (threads s w))" by blast
    then show ?thesis by (simp add: cv set_a0_def)
  qed
  have "contexts u p = contexts s p" if "p \<notin> (\<lambda>x. thr_sp (threads s x)) ` set (w # y # ws)" for p
    using u(4) that unfolding sp by (auto simp: cv)
  moreover have "running ?v = running s" "scheduler_current ?v = scheduler_current s"
    by (simp_all add: running_def scheduler_current_def upd_context_def)
  ultimately show ?case using e u a0 unfolding sp by (intro exI [of _ u]) auto
qed

lemma sem_close_wakes:
  assumes q: "sem_view h s ts ws" and o: "owns s L" and l: "(h, k) \<in> L"
  obtains u where "sem_close h s = Inr (0, u)" and "ready_queue u (ts @ ws)" and "owns u (L - {(h, k)})"
    and "\<forall>x \<in> set ws. x_a0 (contexts u (thr_sp (threads s x))) = i32_to_u64 SEM_CLOSED_EXTERNALLY"
    and "\<forall>p. p \<notin> (\<lambda>x. thr_sp (threads s x)) ` set ws \<longrightarrow> contexts u p = contexts s p"
    and "running u = running s" and "scheduler_current u = scheduler_current s"
proof -
  let ?m = "if sem_waiting (sems s h) \<noteq> 0
           then returned s (sem_close_loop (sem_waiting (sems s h)) (sem_waiting (sems s h)) s) else Inr s"
  have "\<exists>v. ?m = Inr v \<and> ready_queue v (ts @ ws)
    \<and> (\<forall>x \<in> set ws. x_a0 (contexts v (thr_sp (threads s x))) = i32_to_u64 SEM_CLOSED_EXTERNALLY)
    \<and> (\<forall>p. p \<notin> (\<lambda>x. thr_sp (threads s x)) ` set ws \<longrightarrow> contexts v p = contexts s p)
    \<and> mem_state.truncate v = mem_state.truncate s \<and> running v = running s
    \<and> scheduler_current v = scheduler_current s"
  proof (cases ws)
    case Nil
    then have "sem_waiting (sems s h) = 0" using q by (simp add: sem_view_def waiting_at_def thread_queue_at_def)
    with Nil q show ?thesis by (simp add: sem_view_def)
  next
    case (Cons w rs)
    have w: "ring (list_nodes s) (map thread_node (w # rs))" "sem_waiting (sems s h) = thread_node w"
      using q Cons by (simp_all add: sem_view_def waiting_at_def thread_queue_at_def queue_Cons)
    have nz: "\<forall>x \<in> set (w # rs). thread_node x \<noteq> 0" using view_valid [OF q] Cons by simp
    have "next_chain (list_nodes s) (thread_node w) (w # rs)"
      using w(1) by (intro links_next_chain) (simp add: ring_def)
    then show ?thesis
      using sem_close_loop_wakes [of s ts "thread_node w" w rs] q nz Cons w(2)
      by (auto simp: sem_view_def)
  qed
  then obtain v where v: "?m = Inr v" "ready_queue v (ts @ ws)"
    "\<forall>x \<in> set ws. x_a0 (contexts v (thr_sp (threads s x))) = i32_to_u64 SEM_CLOSED_EXTERNALLY"
    "\<forall>p. p \<notin> (\<lambda>x. thr_sp (threads s x)) ` set ws \<longrightarrow> contexts v p = contexts s p"
    "mem_state.truncate v = mem_state.truncate s" "running v = running s"
    "scheduler_current v = scheduler_current s" by blast
  have "owns v L" using o owns_cong [OF v(5)] by simp
  then obtain u where u: "mem_free h v = (0, u)" "owns u (L - {(h, k)})"
    using mem_heap.free_owned l by blast
  have sh: "same_heap v u" by (rule mem_free_same [OF u(1)])
  have e: "sem_close h s = Inr (0, u)" unfolding sem_close_def v(1) by (simp add: u(1))
  show thesis
  proof (rule that [OF e _ u(2)])
    show "ready_queue u (ts @ ws)" using v(2) same_heap_queues(1) [OF sh] by simp
  qed (use v same_heap_kernel [OF sh] same_heap_running [OF sh] in \<open>auto simp: scheduler_current_def\<close>)
qed

section \<open>Properties\<close>

text \<open>C20. \<open>__sem_wait\<close> takes a permit when there is one and changes nothing else; otherwise the running
  thread goes to the end of the semaphore's queue with its context saved, the next ready thread (or the
  kernel's own) runs, and the ready queue loses that thread only.\<close>

theorem sem_wait_takes_or_blocks:
  assumes "sem_view h s ts ws" and "- 2147483648 < sint (sem_val (sems s h))"
    and "c = scheduler_current s" and "c \<notin> set (ts @ ws)" and "thread_node c \<noteq> 0"
    and "n = (if ts = [] then sch_kernel_main (sched s) else hd ts)" and "c \<noteq> n"
  shows "(0 < sint (sem_val (sems s h)) \<longrightarrow>
      sem_wait h s = (0, upd_sem h (\<lambda>c. c\<lparr>sem_val := sem_val c - 1\<rparr>) s))
    \<and> (sint (sem_val (sems s h)) \<le> 0 \<longrightarrow>
      (\<exists>u. sem_wait h s = (1, u) \<and> sem_view h u (tl ts) (ws @ [c])
        \<and> sem_val (sems u h) = sem_val (sems s h) - 1 \<and> scheduler_current u = n
        \<and> running u = saved n s \<and> saved c u = running s \<and> contexts u = contexts s))"
proof (intro conjI impI)
  assume "sint (sem_val (sems s h)) \<le> 0"
  then show "\<exists>u. sem_wait h s = (1, u) \<and> sem_view h u (tl ts) (ws @ [c])
        \<and> sem_val (sems u h) = sem_val (sems s h) - 1 \<and> scheduler_current u = n
        \<and> running u = saved n s \<and> saved c u = running s \<and> contexts u = contexts s"
    by (rule sem_wait_blocks [OF _ assms(2,1,3-7)]) blast
qed (rule sem_wait_passes)

definition busy_sem :: kernel where
  "busy_sem = two_waiting\<lparr>sched := \<lparr>user_thread_count = 3, ready_threads = 0, sleeping_threads = 0,
     thread_current = 192, sch_kernel_main = 256\<rparr>,
     threads := \<lambda>_. \<lparr>thr_sp = 0x9000, thr_bp = 0, thr_sstatus = 0, thr_sepc = 0, thr_time_left = 1\<rparr>\<rparr>"

lemma busy_sem_view: "sem_view 5120 busy_sem [] [64, 128]"
  by (simp add: sem_view_def busy_sem_def two_waiting_def ready_queue_def waiting_at_def thread_queue_at_def
    queue_def ring_def thread_node_def)

theorem sem_wait_takes_or_blocks_witness:
  "\<exists>u. sem_wait 5120 busy_sem = (1, u) \<and> sem_view 5120 u [] [64, 128, 192] \<and> scheduler_current u = 256"
proof -
  have "sint (sem_val (sems busy_sem 5120)) = -2" "scheduler_current busy_sem = 192"
    "sch_kernel_main (sched busy_sem) = 256"
    by (simp_all add: busy_sem_def two_waiting_def scheduler_current_def)
  then show ?thesis
    using sem_wait_takes_or_blocks [OF busy_sem_view _ refl _ _ refl] by (auto simp: thread_node_def)
qed

text \<open>C21. \<open>__sem_signal\<close> returns a permit when nobody waits; otherwise it makes the thread that has waited
  longest ready, with the result 0 in its saved registers and a full time slice, the others keep their
  order, and no other thread, saved context or semaphore changes. With a negative value and nobody waiting
  it returns \<open>SEM_SIGNAL_NO_THREADS\<close>, the value being counted all the same. When the thread waits with a
  timeout (its time slice counter is 0), its first entry among the sleeping threads is freed too and the
  others keep their wake-up times, except when that entry is the first of several: then the head of the list
  stays on the freed entry. Without an entry of the thread the kernel panics.\<close>

theorem sem_signal_returns_or_wakes:
  assumes "sem_view h s ts ws" and "sint (sem_val (sems s h)) < 2147483647"
  shows "(0 \<le> sint (sem_val (sems s h)) \<longrightarrow>
      sem_signal h s = Inr (0, upd_sem h (\<lambda>c. c\<lparr>sem_val := sem_val c + 1\<rparr>) s))
    \<and> (sint (sem_val (sems s h)) < 0 \<and> ws = [] \<longrightarrow>
      sem_signal h s = Inr (SEM_SIGNAL_NO_THREADS, upd_sem h (\<lambda>c. c\<lparr>sem_val := sem_val c + 1\<rparr>) s))
    \<and> (sint (sem_val (sems s h)) < 0 \<and> ws \<noteq> [] \<and> thr_time_left (threads s (hd ws)) \<noteq> 0 \<longrightarrow>
      (\<exists>u. sem_signal h s = Inr (0, u) \<and> first_woken h s ts ws u))
    \<and> (\<forall>ps. sint (sem_val (sems s h)) < 0 \<and> ws \<noteq> [] \<and> thr_time_left (threads s (hd ws)) = 0
        \<and> sleepers s ps \<and> thread_node ` set (ts @ ws) \<inter> sleeper_node ` set ps = {} \<longrightarrow>
      ((\<forall>r \<in> set ps. sleeper_thread s r \<noteq> hd ws) \<longrightarrow> (\<exists>e u. sem_signal h s = Inl (Panic e, u)))
      \<and> (\<forall>as p bs L. ps = as @ p # bs \<and> sleeper_thread s p = hd ws \<and> (\<forall>r \<in> set as. sleeper_thread s r \<noteq> hd ws)
          \<and> total s ps < 2 ^ 64 \<and> owns s L \<and> (p, 1) \<in> L \<longrightarrow>
        (\<exists>u. sem_signal h s = Inr (0, u) \<and> first_woken h s ts ws u \<and> owns u (L - {(p, 1)})
          \<and> timeout_removed s u as p bs)))"
proof (intro conjI impI allI)
  assume a: "sint (sem_val (sems s h)) < 0 \<and> ws = []"
  then have "waiting_at h s []" using assms(1) by (simp add: sem_view_def)
  then show "sem_signal h s = Inr (SEM_SIGNAL_NO_THREADS, upd_sem h (\<lambda>c. c\<lparr>sem_val := sem_val c + 1\<rparr>) s)"
    by (rule sem_signal_nobody [OF a [THEN conjunct1]])
next
  assume "sint (sem_val (sems s h)) < 0 \<and> ws \<noteq> [] \<and> thr_time_left (threads s (hd ws)) \<noteq> 0"
  then show "\<exists>u. sem_signal h s = Inr (0, u) \<and> first_woken h s ts ws u"
    by (elim conjE) (rule sem_signal_wakes_first [OF _ assms(1)], assumption+, blast)
next
  fix ps
  assume "sint (sem_val (sems s h)) < 0 \<and> ws \<noteq> [] \<and> thr_time_left (threads s (hd ws)) = 0
    \<and> sleepers s ps \<and> thread_node ` set (ts @ ws) \<inter> sleeper_node ` set ps = {}"
    and "\<forall>r \<in> set ps. sleeper_thread s r \<noteq> hd ws"
  then show "\<exists>e u. sem_signal h s = Inl (Panic e, u)"
    by (elim conjE) (rule sem_signal_lost [OF _ assms(1)], assumption+, blast)
next
  fix ps as p bs L
  assume a: "sint (sem_val (sems s h)) < 0 \<and> ws \<noteq> [] \<and> thr_time_left (threads s (hd ws)) = 0
      \<and> sleepers s ps \<and> thread_node ` set (ts @ ws) \<inter> sleeper_node ` set ps = {}"
    and b: "ps = as @ p # bs \<and> sleeper_thread s p = hd ws \<and> (\<forall>r \<in> set as. sleeper_thread s r \<noteq> hd ws)
      \<and> total s ps < 2 ^ 64 \<and> owns s L \<and> (p, 1) \<in> L"
  have ps: "ps = as @ p # bs" using b by blast
  have two: "(2 :: nat) ^ 64 = 18446744073709551616" by simp
  have bound: "total s ps < 18446744073709551616" using b unfolding two by blast
  obtain u where "sem_signal h s = Inr (0, u)" "first_woken h s ts ws u" "owns u (L - {(p, 1)})"
    "timeout_removed s u as p bs"
    by (rule sem_signal_timed [OF _ assms(1) _ _ _ bound [unfolded ps], of L])
      (use a b in \<open>unfold ps, blast+\<close>)
  then show "\<exists>u. sem_signal h s = Inr (0, u) \<and> first_woken h s ts ws u \<and> owns u (L - {(p, 1)})
    \<and> timeout_removed s u as p bs" by blast
qed (rule sem_signal_free, simp, rule assms(2))

text \<open>Of the two sleeping threads the second waits for a semaphore.\<close>

definition timed_signal :: kernel where
  "timed_signal = two_sleepers\<lparr>
     list_nodes := (list_nodes two_sleepers)(168 := \<lparr>list_next = 168, list_prev = 168\<rparr>),
     sleeping := (sleeping two_sleepers)(5184 := \<lparr>slp_thread = 128, slp_semaphore = 6000, slp_delta = 2\<rparr>),
     threads := \<lambda>_. \<lparr>thr_sp = 0x9000, thr_bp = 0, thr_sstatus = 0, thr_sepc = 0, thr_time_left = 0\<rparr>,
     sems := \<lambda>_. \<lparr>sem_val = -1, sem_init = 0, sem_waiting = 168\<rparr>\<rparr>"

lemma timed_signal_view: "sem_view 6000 timed_signal [] [128]"
  by (simp add: sem_view_def timed_signal_def two_sleepers_def ready_queue_def waiting_at_def thread_queue_at_def
    queue_Cons ring_singleton thread_node_def)

lemma timed_signal_sleepers:
  "sleepers timed_signal [5120, 5184]" "total timed_signal [5120, 5184] = 5" "wakes timed_signal [5120] = [(3, 64, 0)]"
  by (simp_all add: timed_signal_def sleepers_def queue_def ring_def two_sleepers_def sleeper_node_def delay_def)

lemma timed_signal_fields:
  "sint (sem_val (sems timed_signal k)) = -1" "thr_time_left (threads timed_signal x) = 0"
  "sleeper_thread timed_signal 5120 = 64" "sleeper_thread timed_signal 5184 = 128"
  by (simp_all add: timed_signal_def two_sleepers_def sleeper_thread_def)

theorem sem_signal_returns_or_wakes_witness:
  "(\<exists>u. sem_signal 5120 busy_sem = Inr (0, u) \<and> sem_view 5120 u [64] [128])
    \<and> (\<exists>u. sem_signal 6000 timed_signal = Inr (0, u) \<and> sem_view 6000 u [128] [] \<and> sleepers u [5120]
        \<and> wakes u [5120] = [(3, 64, 0)])"
proof
  have v: "sint (sem_val (sems busy_sem 5120)) = -2" "thr_time_left (threads busy_sem 64) = 1"
    by (simp_all add: busy_sem_def two_waiting_def)
  then have "sint (sem_val (sems busy_sem 5120)) < 2147483647" by simp
  note t = sem_signal_returns_or_wakes [OF busy_sem_view this, THEN conjunct2, THEN conjunct2, THEN conjunct1]
  show "\<exists>u. sem_signal 5120 busy_sem = Inr (0, u) \<and> sem_view 5120 u [64] [128]"
    using t v by (auto simp: first_woken_def)
  have "sint (sem_val (sems timed_signal 6000)) < 2147483647" by (simp add: timed_signal_fields)
  note t = sem_signal_returns_or_wakes [OF timed_signal_view this, THEN conjunct2, THEN conjunct2, THEN conjunct2,
      THEN spec, of "[5120, 5184]", THEN mp]
  have d: "thread_node ` set ([] @ [128]) \<inter> sleeper_node ` set [5120, 5184] = {}"
    by (simp add: thread_node_def sleeper_node_def)
  have "owns timed_signal {(4096, 16), (5120, 1), (5184, 1)}"
    using two_sleepers_owns owns_cong [of timed_signal two_sleepers] by (simp add: timed_signal_def mem_state.truncate_def)
  then have o: "[5120, 5184] = [5120] @ 5184 # [] \<and> sleeper_thread timed_signal 5184 = hd [128]
      \<and> (\<forall>r \<in> set [5120]. sleeper_thread timed_signal r \<noteq> hd [128]) \<and> total timed_signal [5120, 5184] < 2 ^ 64
      \<and> owns timed_signal {(4096, 16), (5120, 1), (5184, 1)} \<and> (5184, 1) \<in> {(4096, 16), (5120, 1), (5184 :: u64, 1 :: int)}"
    by (simp add: timed_signal_fields timed_signal_sleepers(2) del: total_simps)
  have "\<exists>u. sem_signal 6000 timed_signal = Inr (0, u) \<and> first_woken 6000 timed_signal [] [128] u
      \<and> owns u ({(4096, 16), (5120, 1), (5184, 1)} - {(5184, 1)}) \<and> timeout_removed timed_signal u [5120] 5184 []"
    by (rule t [THEN conjunct2, THEN spec, THEN spec, THEN spec, THEN spec, THEN mp, OF _ o])
      (use timed_signal_view timed_signal_sleepers(1) d in \<open>simp add: timed_signal_fields\<close>)
  then obtain u where "sem_signal 6000 timed_signal = Inr (0, u)" "first_woken 6000 timed_signal [] [128] u"
    "timeout_removed timed_signal u [5120] 5184 []" by blast
  then show "\<exists>u. sem_signal 6000 timed_signal = Inr (0, u) \<and> sem_view 6000 u [128] [] \<and> sleepers u [5120]
      \<and> wakes u [5120] = [(3, 64, 0)]"
    using timed_signal_sleepers(3) by (intro exI [of _ u]) (simp add: first_woken_def timeout_removed_def)
qed

text \<open>The queue of a semaphore is first in, first out: threads leave it in the order in which they
  came to wait.\<close>

lemma sem_queue_fifo:
  assumes "waiting_at h s ts" and "distinct (ts @ us)" and "\<forall>u \<in> set us. thread_node u \<noteq> 0"
  shows "\<exists>v. pop_many (sem_next h) (length ts + length us) (fold (sem_push h) us s) = (ts @ us, v)
    \<and> waiting_at h v []"
  by (rule waiting.fifo [OF assms]) blast

lemma sem_queue_fifo_witness:
  "\<exists>v. pop_many (sem_next 5120) 3 (fold (sem_push 5120) [192] busy_sem) = ([64, 128, 192], v)"
  using sem_queue_fifo [of 5120 busy_sem "[64, 128]" "[192]"] busy_sem_view
  by (auto simp: sem_view_def thread_node_def numeral_3_eq_3)

text \<open>C37. \<open>__sem_close\<close> strands nobody: every waiting thread becomes ready, in order, with the result -1 in
  its saved registers, no other saved context changes, and the semaphore's memory is freed.\<close>

theorem sem_close_wakes_all:
  assumes "sem_view h s ts ws" and "owns s L" and "(h, k) \<in> L"
  shows "\<exists>u. sem_close h s = Inr (0, u) \<and> ready_queue u (ts @ ws) \<and> owns u (L - {(h, k)})
    \<and> (\<forall>x \<in> set ws. x_a0 (contexts u (thr_sp (threads s x))) = i32_to_u64 SEM_CLOSED_EXTERNALLY)
    \<and> (\<forall>p. p \<notin> (\<lambda>x. thr_sp (threads s x)) ` set ws \<longrightarrow> contexts u p = contexts s p)
    \<and> running u = running s"
  by (rule sem_close_wakes [OF assms]) blast

theorem sem_close_wakes_all_witness:
  "\<exists>s u. sem_close 5120 s = Inr (0, u) \<and> ready_queue u [64, 128]"
proof -
  let ?s = "busy_sem\<lparr>mem_index := mem_index two_sleepers\<rparr>"
  have "mem_state.truncate ?s = mem_state.truncate two_sleepers"
    by (simp add: mem_state.truncate_def busy_sem_def two_waiting_def two_sleepers_def)
  then have "owns ?s {(4096, 16), (5120, 1), (5184, 1)}" using two_sleepers_owns owns_cong by blast
  moreover have "sem_view 5120 ?s [] [64, 128]"
    using busy_sem_view by (simp add: sem_view_def ready_queue_def waiting_at_def)
  ultimately show ?thesis using sem_close_wakes_all [of 5120 ?s "[]" "[64, 128]" _ 1] by fastforce
qed

text \<open>Opening, when there is room for the semaphore and in the table.\<close>

lemma sem_open_result:
  assumes "mem_alloc 1 s = Inr (p, v)" and "p \<noteq> 0" and "sem_cnt s < 10"
  obtains u where "sem_open handle init s = Inr (0, u)" and "words u = (words s)(handle := p)"
    and "sems u = (sems s)(p := \<lparr>sem_val = init, sem_init = init, sem_waiting = 0\<rparr>)"
    and "semaphores u = (semaphores s)[unat (sem_cnt s) := p]" and "sem_cnt u = sem_cnt s + 1"
    and "sched u = sched s" and "list_nodes u = list_nodes s" and "threads u = threads s" and "contexts u = contexts s"
    and "sleeping u = sleeping s" and "threads_waiting_for_input u = threads_waiting_for_input s"
    and "console_receive_cnt u = console_receive_cnt s" and "running u = running s"
    and "mem_state.truncate u = mem_state.truncate v"
proof -
  note f = same_heap_kernel [OF mem_alloc_same [OF assms(1)]]
  define x where "x = v\<lparr>sems := (sems v)(p := \<lparr>sem_val = init, sem_init = init, sem_waiting = 0\<rparr>),
    words := (words v)(handle := p)\<rparr>"
  define y where "y = (if first_semaphore x = 0 then x\<lparr>first_semaphore := p\<rparr> else x)"
  define w where "w = y\<lparr>semaphores := (semaphores y)[unat (sem_cnt y) := p], sem_cnt := sem_cnt y + 1\<rparr>"
  have x: "upd_sem p (\<lambda>c. c\<lparr>sem_val := init\<rparr>) (upd_sem p (\<lambda>c. c\<lparr>sem_init := init\<rparr>)
      (upd_sem p (\<lambda>c. c\<lparr>sem_waiting := 0\<rparr>) v))\<lparr>words := (words v)(handle := p)\<rparr> = x"
    by (cases "sems v p") (simp add: x_def upd_sem_def)
  have c: "sem_cnt y < 10" using assms(3) by (simp add: y_def x_def f)
  have "sem_open handle init s = Inr (0, w)"
    using assms(2) c x
    by (cases "first_semaphore x = 0") (simp_all add: sem_open_def assms(1) Let_def w_def upd_sem_def y_def)
  then show thesis
    by (rule that) (simp_all add: w_def y_def x_def f running_def mem_state.truncate_def)
qed

text \<open>C38. \<open>__sem_open\<close> hands out a semaphore with the requested number of permits and nobody waiting; the
  first ten calls record it in the table of semaphores, the eleventh (closing a semaphore does not make
  room) writes past the end of the table.\<close>

theorem sem_open_creates:
  assumes "mem_alloc 1 s = Inr (p, v)" and "p \<noteq> 0"
  shows "(sem_cnt s < 10 \<longrightarrow> (\<exists>u. sem_open handle init s = Inr (0, u) \<and> words u handle = p
        \<and> sems u p = \<lparr>sem_val = init, sem_init = init, sem_waiting = 0\<rparr> \<and> waiting_at p u []
        \<and> semaphores u = (semaphores s)[unat (sem_cnt s) := p] \<and> sem_cnt u = sem_cnt s + 1
        \<and> sched u = sched s \<and> list_nodes u = list_nodes s \<and> mem_state.truncate u = mem_state.truncate v))
    \<and> (10 \<le> sem_cnt s \<longrightarrow> (\<exists>u. sem_open handle init s = Inl (OutOfBounds ''semaphores'', u)))"
proof (intro conjI impI)
  assume c: "sem_cnt s < 10"
  obtain u where u: "sem_open handle init s = Inr (0, u)" "words u = (words s)(handle := p)"
    "sems u = (sems s)(p := \<lparr>sem_val = init, sem_init = init, sem_waiting = 0\<rparr>)"
    "semaphores u = (semaphores s)[unat (sem_cnt s) := p]" "sem_cnt u = sem_cnt s + 1"
    "sched u = sched s" "list_nodes u = list_nodes s" "mem_state.truncate u = mem_state.truncate v"
    by (rule sem_open_result [OF assms c, of handle init])
  show "\<exists>u. sem_open handle init s = Inr (0, u) \<and> words u handle = p
        \<and> sems u p = \<lparr>sem_val = init, sem_init = init, sem_waiting = 0\<rparr> \<and> waiting_at p u []
        \<and> semaphores u = (semaphores s)[unat (sem_cnt s) := p] \<and> sem_cnt u = sem_cnt s + 1
        \<and> sched u = sched s \<and> list_nodes u = list_nodes s \<and> mem_state.truncate u = mem_state.truncate v"
    by (rule exI [of _ u], simp only: u) (simp add: waiting_at_def thread_queue_at_def u)
next
  assume "10 \<le> sem_cnt s"
  then show "\<exists>u. sem_open handle init s = Inl (OutOfBounds ''semaphores'', u)"
    using assms(2) same_heap_kernel(15) [OF mem_alloc_same [OF assms(1)]]
    by (simp add: sem_open_def assms(1) upd_sem_def Let_def)
qed

theorem sem_open_creates_witness:
  "\<exists>u. sem_open 0x700 3 blank_kernel = Inr (0, u) \<and> words u 0x700 = 5120
    \<and> sem_val (sems u 5120) = 3"
proof -
  obtain v where "mem_alloc 1 blank_kernel = Inr (5120, v)" by (rule blank_kernel_alloc)
  then show ?thesis using sem_open_creates [of blank_kernel 5120 v "0x700" 3]
    by (auto simp: blank_kernel_def)
qed

text \<open>A timed wait that finds a permit does not take back its timeout: the call returns success, but
  the running thread stays in the list of sleeping threads with the time slice counter 0, so that the
  tick will later take a thread off the semaphore's queue on its behalf.\<close>

lemma sem_timed_wait_keeps_timeout:
  assumes "0 < sint (sem_val (sems s h))" and "sleepers s []" and "owns s L"
    and "mem_alloc 1 s = Inr (q, v)" and "q \<noteq> 0" and "c = scheduler_current s"
  shows "\<exists>u. sem_timed_wait h time s = Inr (0, u) \<and> sleepers u [q]
    \<and> wakes u [q] = [(unat time, c, h)] \<and> thr_time_left (threads u c) = 0 \<and> scheduler_current u = c"
proof -
  let ?s = "upd_thread c (\<lambda>c. c\<lparr>thr_time_left := 0\<rparr>) s"
  obtain v' where v': "mem_alloc 1 ?s = Inr (q, v')" "owns v' (insert (q, uint (1 :: u64)) L)" "same_heap ?s v'"
    by (rule owned_alloc_cong [OF assms(3) _ assms(4,5), of ?s]) simp_all
  have "sleepers ?s []" using assms(2) by (simp add: sleepers_def upd_thread_def)
  moreover have "sleeper_node q \<noteq> 0" by (rule owned_node [OF v'(2)]) simp
  ultimately obtain u where u: "scheduler_timeout c time h ?s = Inr u" "sleepers u [q]"
    "wakes u [q] = [(unat time, c, h)]" "sleep_frame ?s u {sleeper_node q}"
    using timeout_empty [OF _ v'(1), of c time h] by metis
  have "sched u = (sched s)\<lparr>sleeping_threads := sleeping_threads (sched u)\<rparr>"
    using u(4) by (simp add: sleep_frame_def upd_thread_def)
  then have "thread_current (sched u) = thread_current (sched s)" by (metis scheduler_t.ext_inject scheduler_t.surjective scheduler_t.update_convs(3))
  then have f: "sems u = sems s" "threads u = threads ?s" "thread_current (sched u) = thread_current (sched s)"
    using u(4) by (auto simp: sleep_frame_def upd_thread_def)
  let ?u = "upd_sem h (\<lambda>c. c\<lparr>sem_val := sem_val c - 1\<rparr>) u"
  have "sem_wait h u = (0, ?u)" using assms(1) f(1) by (intro sem_wait_passes) simp
  then have "sem_timed_wait h time s = Inr (0, ?u)"
    using u(1) assms(6) by (simp add: sem_timed_wait_def Let_def)
  moreover have "sleepers ?u [q]" using u(2) by (simp add: sleepers_def)
  moreover have "wakes ?u [q] = wakes u [q]" by (simp add: delay_def)
  ultimately show ?thesis using u(3) f assms(6)
    by (intro exI [of _ ?u]) (simp add: scheduler_current_def upd_thread_def)
qed

lemma sem_timed_wait_keeps_timeout_witness:
  "\<exists>s u. sem_timed_wait 64 9 s = Inr (0, u) \<and> wakes u [5120] = [(9, 0, 64)]"
proof -
  let ?s = "blank_kernel\<lparr>sems := \<lambda>_. \<lparr>sem_val = 1, sem_init = 1, sem_waiting = 0\<rparr>\<rparr>"
  have t: "mem_state.truncate ?s = mem_state.truncate blank_kernel" by (simp add: mem_state.truncate_def)
  obtain v0 where a0: "mem_alloc 1 blank_kernel = Inr (5120, v0)" by (rule blank_kernel_alloc)
  obtain v where v: "mem_alloc 1 ?s = Inr (5120, v)"
    by (rule owned_alloc_cong [OF blank_kernel_owns _ a0 _ t]) simp_all
  have "owns ?s {(4096, 16)}" using blank_kernel_owns owns_cong [OF t] by simp
  moreover have "sleepers ?s []" by (simp add: sleepers_def)
  moreover have "scheduler_current ?s = 0" by (simp add: scheduler_current_def blank_kernel_def)
  ultimately have "\<exists>u. sem_timed_wait 64 9 ?s = Inr (0, u) \<and> sleepers u [5120]
    \<and> wakes u [5120] = [(unat (9 :: u64), 0, 64)] \<and> thr_time_left (threads u 0) = 0 \<and> scheduler_current u = 0"
    by (intro sem_timed_wait_keeps_timeout [OF _ _ _ v]) simp_all
  then show ?thesis by (auto simp del: wakes_from.simps)
qed

end
