(* ===== verification/Console_Input.thy ===== *)
theory Console_Input
  imports Semaphore
begin

text \<open>
  The part of \<open>src/console.c\<close> that blocks and wakes threads: the queue of threads that wait for input,
  \<open>__getc\<close> and \<open>__console_receive\<close>. The theorems say that received bytes go to the waiting threads in
  order, one byte each, and that what nobody waits for stays buffered.
\<close>

section \<open>Operations\<close>

definition input_push :: "u64 \<Rightarrow> kernel \<Rightarrow> kernel" where
  "input_push thread s =
     (let (head, ns) = ring_push (threads_waiting_for_input s) (thread_node thread) (list_nodes s)
      in s\<lparr>threads_waiting_for_input := head, list_nodes := ns\<rparr>)"

definition input_pop :: "kernel \<Rightarrow> u64 \<times> kernel" where
  "input_pop s =
     (let next_thread = node_thread (threads_waiting_for_input s);
          (head, ns) = ring_pop (threads_waiting_for_input s) (list_nodes s)
      in (next_thread, s\<lparr>threads_waiting_for_input := head, list_nodes := ns\<rparr>))"

text \<open>A \<open>char\<close> is unsigned on this machine.\<close>

definition getc :: "kernel \<Rightarrow> i32 \<times> kernel" where
  "getc s =
     (if console_receive_cnt s = 0 then
        (let thread_current = scheduler_current s;
             (thread_next, s) = scheduler_next s;
             s = yield thread_current thread_next s;
             s = input_push thread_current s
         in (CONSOLE_RECEIVE_BUFFER_EMPTY, s))
      else
        (let context = thr_sp (threads s (scheduler_current s));
             s = upd_context context (set_a0 (ucast (console_receive_buffer s 0))) s;
             s = s\<lparr>console_receive_cnt := console_receive_cnt s - 1\<rparr>
         in (0, s\<lparr>console_receive_buffer :=
                 shift_loop 1 0 (unat (console_receive_cnt s)) (console_receive_buffer s)\<rparr>)))"

lemma input_pop_receive [simp]:
  "console_receive_cnt (snd (input_pop s)) = console_receive_cnt s"
  "console_receive_buffer (snd (input_pop s)) = console_receive_buffer s"
  by (simp_all add: input_pop_def split_beta Let_def)

lemma upd_context_receive [simp]:
  "console_receive_cnt (upd_context p f s) = console_receive_cnt s"
  "console_receive_buffer (upd_context p f s) = console_receive_buffer s"
  by (simp_all add: upd_context_def)

text \<open>The body of the loop that hands bytes to waiting threads.\<close>

definition deliver :: "u64 \<Rightarrow> kernel \<Rightarrow> kernel" where
  "deliver unblocked_cnt s =
     (let (unblocked_thread, s) = input_pop s;
          context = thr_sp (threads s unblocked_thread);
          s = upd_context context (set_a0 (ucast (console_receive_buffer s (unat unblocked_cnt)))) s
      in scheduler_push unblocked_thread s)"

lemma deliver_receive [simp]:
  "console_receive_cnt (deliver k s) = console_receive_cnt s"
  "console_receive_buffer (deliver k s) = console_receive_buffer s"
  by (simp_all add: deliver_def split_beta Let_def)

function console_deliver_loop :: "u64 \<Rightarrow> kernel \<Rightarrow> u64 \<times> kernel" where
  "console_deliver_loop unblocked_cnt s =
     (if threads_waiting_for_input s \<noteq> 0 \<and> unblocked_cnt < ucast (console_receive_cnt s)
      then console_deliver_loop (unblocked_cnt + 1) (deliver unblocked_cnt s)
      else (unblocked_cnt, s))"
  by pat_completeness auto
termination
proof (relation "measure (\<lambda>(k, s). unat (console_receive_cnt s) - unat k)", goal_cases)
  case (2 k s)
  then have lt: "k < ucast (console_receive_cnt s)" by simp
  then have "unat k < unat (console_receive_cnt s)" by (simp only: word_less_nat_alt unat_ucast_u32)
  with unat_inc [OF lt] show ?case by simp
qed simp

declare console_deliver_loop.simps [simp del]

definition console_receive :: "kernel \<Rightarrow> kernel" where
  "console_receive s =
     (let s = console_fill_loop s;
          (unblocked_cnt, s) = console_deliver_loop 0 s;
          s = s\<lparr>console_receive_cnt := console_receive_cnt s - ucast unblocked_cnt\<rparr>
      in s\<lparr>console_receive_buffer := shift_loop (unat unblocked_cnt) 0 (unat (console_receive_cnt s))
             (console_receive_buffer s)\<rparr>)"

section \<open>The queue of threads waiting for input\<close>

definition input_queue :: "kernel \<Rightarrow> u64 list \<Rightarrow> bool" where
  "input_queue s ws \<longleftrightarrow> thread_queue_at (list_nodes s) (threads_waiting_for_input s) ws"

lemma input_fields:
  "list_nodes (input_push t s) = snd (ring_push (threads_waiting_for_input s) (thread_node t) (list_nodes s))"
  "threads_waiting_for_input (input_push t s) = fst (ring_push (threads_waiting_for_input s) (thread_node t) (list_nodes s))"
  "sched (input_push t s) = sched s" "threads (input_push t s) = threads s" "contexts (input_push t s) = contexts s"
  "running (input_push t s) = running s"
  "fst (input_pop s) = node_thread (threads_waiting_for_input s)"
  "list_nodes (snd (input_pop s)) = snd (ring_pop (threads_waiting_for_input s) (list_nodes s))"
  "threads_waiting_for_input (snd (input_pop s)) = fst (ring_pop (threads_waiting_for_input s) (list_nodes s))"
  "sched (snd (input_pop s)) = sched s" "threads (snd (input_pop s)) = threads s"
  "contexts (snd (input_pop s)) = contexts s" "running (snd (input_pop s)) = running s"
  by (simp_all add: input_push_def input_pop_def split_beta Let_def running_def)

interpretation input: thread_queue input_push input_pop input_queue
proof unfold_locales
  show "input_queue s ts \<Longrightarrow> t \<notin> set ts \<Longrightarrow> thread_node t \<noteq> 0 \<Longrightarrow> input_queue (input_push t s) (ts @ [t])"
    for s ts t using thread_queue_push by (simp add: input_queue_def input_fields)
  show "input_queue s (t # ts) \<Longrightarrow> \<exists>u. input_pop s = (t, u) \<and> input_queue u ts" for s t ts
    using thread_queue_pop [of "list_nodes s" "threads_waiting_for_input s" t ts]
    by (intro exI [of _ "snd (input_pop s)"]) (simp add: input_queue_def input_fields prod_eq_iff)
  show "input_queue s ts \<Longrightarrow> distinct ts" for s ts
    by (simp add: input_queue_def thread_queue_distinct)
  show "input_queue s ts \<Longrightarrow> t \<in> set ts \<Longrightarrow> thread_node t \<noteq> 0" for s ts t
    by (auto simp: input_queue_def thread_queue_at_def queue_def image_iff split: if_splits)
qed

lemma input_queue_head: "input_queue s ws \<Longrightarrow> threads_waiting_for_input s = 0 \<longleftrightarrow> ws = []"
  unfolding input_queue_def thread_queue_at_def by (simp add: queue_null)

definition input_view :: "kernel \<Rightarrow> u64 list \<Rightarrow> u64 list \<Rightarrow> bool" where
  "input_view s ts ws \<longleftrightarrow> ready_queue s ts \<and> input_queue s ws \<and> distinct (ts @ ws)"

lemma input_view_pop:
  assumes "input_view s ts (t # ws)"
  shows "fst (input_pop s) = t" and "input_view (snd (input_pop s)) ts ws"
proof -
  have w: "input_queue s (t # ws)" using assms by (simp add: input_view_def)
  have "list_nodes (snd (input_pop s)) (thread_node x) = list_nodes s (thread_node x)" if "x \<in> set ts" for x
    unfolding input_fields using assms that
    by (intro ring_pop_frame [OF w [unfolded input_queue_def thread_queue_at_def]]) (auto simp: input_view_def)
  then have "ready_queue (snd (input_pop s)) ts = ready_queue s ts"
    unfolding ready_queue_def by (simp only: input_fields) (rule thread_queue_cong)
  with assms input.pop_first [OF w] show "fst (input_pop s) = t" "input_view (snd (input_pop s)) ts ws"
    by (auto simp: input_view_def)
qed

lemma input_view_push_ready:
  assumes "input_view s ts ws" and "t \<notin> set (ts @ ws)" and "thread_node t \<noteq> 0"
  shows "input_view (scheduler_push t s) (ts @ [t]) ws"
proof -
  have r: "ready_queue s ts" using assms(1) by (simp add: input_view_def)
  have "list_nodes (scheduler_push t s) (thread_node w) = list_nodes s (thread_node w)" if "w \<in> set ws" for w
    using assms(1,2) that by (intro ready_push_frame [OF r]) (auto simp: input_view_def)
  then have "input_queue (scheduler_push t s) ws = input_queue s ws"
    unfolding input_queue_def by (simp only: scheduler_push_same) (rule thread_queue_cong)
  with assms ready_push [OF r, of t] show ?thesis by (auto simp: input_view_def)
qed

lemma deliver_step:
  assumes v: "input_view s ts (t # ws)"
  shows "input_view (deliver k s) (ts @ [t]) ws"
    and "contexts (deliver k s) = (contexts s)(thr_sp (threads s t) :=
      set_a0 (ucast (console_receive_buffer s (unat k))) (contexts s (thr_sp (threads s t))))"
    and "thr_sp (threads (deliver k s) x) = thr_sp (threads s x)"
proof -
  let ?c = "upd_context (thr_sp (threads s t)) (set_a0 (ucast (console_receive_buffer s (unat k)))) (snd (input_pop s))"
  have d: "deliver k s = scheduler_push t ?c"
    using input_view_pop(1) [OF v] by (simp add: deliver_def split_beta Let_def input_fields)
  have "input_view ?c ts ws"
    using input_view_pop(2) [OF v] by (simp add: input_view_def ready_queue_def input_queue_def upd_context_def)
  moreover have "t \<notin> set (ts @ ws)" using v by (auto simp: input_view_def)
  moreover have "thread_node t \<noteq> 0" using v input.held_valid by (auto simp: input_view_def)
  ultimately show "input_view (deliver k s) (ts @ [t]) ws" unfolding d by (rule input_view_push_ready)
  show "contexts (deliver k s) = (contexts s)(thr_sp (threads s t) :=
      set_a0 (ucast (console_receive_buffer s (unat k))) (contexts s (thr_sp (threads s t))))"
    "thr_sp (threads (deliver k s) x) = thr_sp (threads s x)"
    by (simp_all add: d upd_context_def input_fields scheduler_push_fields)
qed

lemma console_deliver_result:
  assumes "input_view s ts ws" and "k \<le> ucast (console_receive_cnt s)"
    and "distinct (map (\<lambda>x. thr_sp (threads s x)) ws)"
  shows "\<exists>n t. console_deliver_loop k s = (n, t)
    \<and> unat n = unat k + min (length ws) (unat (console_receive_cnt s) - unat k)
    \<and> input_view t (ts @ take (unat n - unat k) ws) (drop (unat n - unat k) ws)
    \<and> console_receive_cnt t = console_receive_cnt s \<and> console_receive_buffer t = console_receive_buffer s
    \<and> (\<forall>i < unat n - unat k. x_a0 (contexts t (thr_sp (threads s (ws ! i)))) =
          ucast (console_receive_buffer s (unat k + i)))
    \<and> (\<forall>p. p \<notin> (\<lambda>x. thr_sp (threads s x)) ` set (take (unat n - unat k) ws) \<longrightarrow> contexts t p = contexts s p)"
  using assms
proof (induction k s arbitrary: ts ws rule: console_deliver_loop.induct)
  case (1 k s)
  have le: "unat k \<le> unat (console_receive_cnt s)"
    using "1.prems"(2) by (simp only: word_le_nat_alt unat_ucast_u32)
  have h: "threads_waiting_for_input s = 0 \<longleftrightarrow> ws = []"
    using "1.prems"(1) by (intro input_queue_head) (simp add: input_view_def)
  show ?case
  proof (cases "ws \<noteq> [] \<and> k < ucast (console_receive_cnt s)")
    case False
    then have e: "console_deliver_loop k s = (k, s)" using h by (subst console_deliver_loop.simps) auto
    have "ws = [] \<or> unat (console_receive_cnt s) = unat k"
      using False le by (simp only: word_less_nat_alt unat_ucast_u32) auto
    with e "1.prems"(1) show ?thesis by auto
  next
    case True
    then obtain w rs where ws: "ws = w # rs" by (cases ws) auto
    have lt: "unat k < unat (console_receive_cnt s)"
      using True by (simp only: word_less_nat_alt unat_ucast_u32)
    have k1: "unat (k + 1) = Suc (unat k)" using unat_inc True by blast
    have e: "console_deliver_loop k s = console_deliver_loop (k + 1) (deliver k s)"
      using True h by (subst console_deliver_loop.simps) auto
    note d = deliver_step [OF "1.prems"(1) [unfolded ws], of k]
    have k1le: "k + 1 \<le> ucast (console_receive_cnt (deliver k s))"
      unfolding word_le_nat_alt unat_ucast_u32 k1 using lt by simp
    have c: "threads_waiting_for_input s \<noteq> 0 \<and> k < ucast (console_receive_cnt s)" using True h by simp
    have ds: "distinct (map (\<lambda>x. thr_sp (threads (deliver k s) x)) rs)" using "1.prems"(3) ws by (simp add: d(3))
    obtain n t where n: "console_deliver_loop (k + 1) (deliver k s) = (n, t)"
      "unat n = Suc (unat k) + min (length rs) (unat (console_receive_cnt s) - Suc (unat k))"
      "input_view t ((ts @ [w]) @ take (unat n - Suc (unat k)) rs) (drop (unat n - Suc (unat k)) rs)"
      "console_receive_cnt t = console_receive_cnt s" "console_receive_buffer t = console_receive_buffer s"
      "\<forall>i < unat n - Suc (unat k). x_a0 (contexts t (thr_sp (threads s (rs ! i)))) =
          ucast (console_receive_buffer s (Suc (unat k) + i))"
      "\<forall>p. p \<notin> (\<lambda>x. thr_sp (threads s x)) ` set (take (unat n - Suc (unat k)) rs) \<longrightarrow>
          contexts t p = contexts (deliver k s) p"
      using "1.IH" [OF c d(1) k1le ds] unfolding k1 d(3) deliver_receive by blast
    obtain m where m: "unat n - unat k = Suc m" "unat n - Suc (unat k) = m"
      using n(2) by (metis Suc_diff_Suc diff_Suc_1 le_add1 less_Suc_eq_le less_eq_Suc_le add_Suc)
    have sp: "thr_sp (threads s w) \<notin> (\<lambda>x. thr_sp (threads s x)) ` set (take m rs)"
      using "1.prems"(3) ws by (auto dest: in_set_takeD)
    have "x_a0 (contexts t (thr_sp (threads s (ws ! i)))) = ucast (console_receive_buffer s (unat k + i))"
      if "i < Suc m" for i
    proof (cases i)
      case 0
      then show ?thesis using n(7) sp ws d(2) unfolding m by (simp add: set_a0_def)
    next
      case (Suc j)
      then show ?thesis using n(6) that ws unfolding m by simp
    qed
    moreover have "contexts t p = contexts s p"
      if "p \<notin> (\<lambda>x. thr_sp (threads s x)) ` set (take (Suc m) ws)" for p
      using n(7) that ws d(2) unfolding m by simp
    moreover have "unat n = unat k + min (length ws) (unat (console_receive_cnt s) - unat k)"
      unfolding n(2) ws Suc_diff_Suc [OF lt, symmetric] by simp
    ultimately show ?thesis using e n(1,3,4,5) ws
      by - (rule exI [of _ n], rule exI [of _ t], unfold m, simp)
  qed
qed

lemma console_fill_kernel:
  assumes "console_receive_cnt s \<le> 1024"
  shows "input_view (console_fill_loop s) ts ws = input_view s ts ws"
    and "threads (console_fill_loop s) = threads s" and "contexts (console_fill_loop s) = contexts s"
proof -
  obtain b c r n where "console_fill_loop s =
      s\<lparr>console_receive_buffer := b, console_receive_cnt := c, dev_status_reads := r, dev_rx_reads := n\<rparr>"
    using console_fill_result [OF assms] by blast
  then show "input_view (console_fill_loop s) ts ws = input_view s ts ws"
    "threads (console_fill_loop s) = threads s" "contexts (console_fill_loop s) = contexts s"
    by (simp_all add: input_view_def ready_queue_def input_queue_def)
qed

lemma input_view_receive [simp]:
  "input_view (s\<lparr>console_receive_cnt := c\<rparr>) ts ws = input_view s ts ws"
  "input_view (s\<lparr>console_receive_buffer := b\<rparr>) ts ws = input_view s ts ws"
  by (simp_all add: input_view_def ready_queue_def input_queue_def)

lemma input_view_next:
  assumes "input_view s ts ws"
  shows "input_view (snd (scheduler_next s)) (tl ts) ws"
proof -
  have r: "ready_queue s ts" using assms by (simp add: input_view_def)
  have "list_nodes (snd (scheduler_next s)) (thread_node w) = list_nodes s (thread_node w)" if "w \<in> set ws" for w
    using assms that by (intro ready_next_frame [OF r]) (auto simp: input_view_def)
  then have "input_queue (snd (scheduler_next s)) ws = input_queue s ws"
    unfolding input_queue_def by (simp only: scheduler_next_same) (rule thread_queue_cong)
  with assms scheduler_next_cases(2) [OF r] show ?thesis by (cases ts) (auto simp: input_view_def)
qed

lemma input_view_yield: "input_view (yield t u s) ts ws = input_view s ts ws"
  by (simp add: input_view_def ready_queue_def input_queue_def)

lemma input_view_push_waiting:
  assumes "input_view s ts ws" and "t \<notin> set (ts @ ws)" and "thread_node t \<noteq> 0"
  shows "input_view (input_push t s) ts (ws @ [t])"
proof -
  have w: "input_queue s ws" using assms(1) by (simp add: input_view_def)
  have "list_nodes (input_push t s) (thread_node x) = list_nodes s (thread_node x)" if "x \<in> set ts" for x
    unfolding input_fields using assms(1,2) that
    by (intro ring_push_frame [OF w [unfolded input_queue_def thread_queue_at_def]]) (auto simp: input_view_def)
  then have "ready_queue (input_push t s) ts = ready_queue s ts"
    unfolding ready_queue_def by (simp only: input_fields) (rule thread_queue_cong)
  with assms input.push_last [OF w, of t] show ?thesis by (auto simp: input_view_def)
qed

section \<open>Properties\<close>

text \<open>C23. \<open>__console_receive\<close> hands the buffered and newly received bytes to the threads that wait for
  input, first byte to the thread that waited longest: each thread that gets a byte finds it in its saved
  result register and is ready, behind the threads that were ready before; the bytes nobody waits for stay
  buffered in order, threads without a byte keep waiting, and no other saved context changes.\<close>

theorem console_receive_delivers:
  assumes "input_view s ts ws" and "console_receive_cnt s \<le> 1024"
    and "distinct (map (\<lambda>x. thr_sp (threads s x)) ws)"
    and "b = received (console_fill_loop s)" and "n = min (length ws) (length b)"
  shows "input_view (console_receive s) (ts @ take n ws) (drop n ws)
    \<and> received (console_receive s) = drop n b
    \<and> (\<forall>i < n. x_a0 (contexts (console_receive s) (thr_sp (threads s (ws ! i)))) = ucast (b ! i))
    \<and> (\<forall>p. p \<notin> (\<lambda>x. thr_sp (threads s x)) ` set (take n ws) \<longrightarrow>
          contexts (console_receive s) p = contexts s p)"
proof -
  let ?f = "console_fill_loop s"
  note k = console_fill_kernel [OF assms(2)]
  have len: "length b = unat (console_receive_cnt ?f)" by (simp add: assms(4) received_def)
  have v: "input_view ?f ts ws" using assms(1) by (simp only: k(1))
  have d: "distinct (map (\<lambda>x. thr_sp (threads ?f x)) ws)" using assms(3) by (simp only: k(2))
  obtain m t where m: "console_deliver_loop 0 ?f = (m, t)" "unat m = n"
    "input_view t (ts @ take n ws) (drop n ws)"
    "console_receive_cnt t = console_receive_cnt ?f" "console_receive_buffer t = console_receive_buffer ?f"
    "\<forall>i < n. x_a0 (contexts t (thr_sp (threads s (ws ! i)))) = ucast (console_receive_buffer ?f i)"
    "\<forall>p. p \<notin> (\<lambda>x. thr_sp (threads s x)) ` set (take n ws) \<longrightarrow> contexts t p = contexts s p"
    using console_deliver_result [OF v _ d, of 0] unfolding k(2,3) assms(5) len by auto
  let ?c = "console_receive_cnt ?f - ucast m"
  have n: "n \<le> unat (console_receive_cnt ?f)" using assms(5) len by simp
  then have um: "unat (ucast m :: u32) = n"
    using m(2) unat_u32_bound [of "console_receive_cnt ?f"] by (simp add: unsigned_ucast_eq take_bit_nat_eq_self_iff)
  then have c: "unat ?c = unat (console_receive_cnt ?f) - n"
    using n by (simp add: unat_sub_if')
  have e: "console_receive s = t\<lparr>console_receive_cnt := ?c, console_receive_buffer :=
      shift_loop n 0 (unat ?c) (console_receive_buffer ?f)\<rparr>"
    using m(1,2,4,5) by (simp add: console_receive_def Let_def)
  have "received (console_receive s) = drop n b"
    using buffered_drop [OF n c] by (simp add: e received_def assms(4))
  moreover have "b ! i = console_receive_buffer ?f i" if "i < n" for i
    using that n by (simp add: assms(4) received_def buffered_def)
  moreover have "input_view (console_receive s) (ts @ take n ws) (drop n ws)" using m(3) by (simp add: e)
  ultimately show ?thesis using m(6,7) by (simp add: e)
qed

text \<open>Threads 64 and 128 wait for input, thread 192 runs, and the device has one byte.\<close>

definition typing :: kernel where
  "typing = two_waiting\<lparr>threads_waiting_for_input := 104, dev_status := (\<lambda>n. if n = 0 then 1 else 0),
     threads := (\<lambda>t. \<lparr>thr_sp = t + 0x8000, thr_bp = 0, thr_sstatus = 0, thr_sepc = 0, thr_time_left = 1\<rparr>),
     sched := \<lparr>user_thread_count = 3, ready_threads = 0, sleeping_threads = 0,
       thread_current = 192, sch_kernel_main = 256\<rparr>\<rparr>"

lemma typing_view: "input_view typing [] [64, 128]"
  by (simp add: input_view_def typing_def two_waiting_def ready_queue_def input_queue_def thread_queue_at_def
    queue_def ring_def thread_node_def)

lemma typing_received: "received (console_fill_loop typing) = [65]"
  by (simp add: console_fill_loop.simps typing_def two_waiting_def blank_kernel_def read_status_def read_rx_def
    received_def buffered_def)

theorem console_receive_delivers_witness:
  "input_view (console_receive typing) [64] [128] \<and> received (console_receive typing) = []
    \<and> x_a0 (contexts (console_receive typing) 0x8040) = 65"
proof -
  have "thr_sp (threads typing t) = t + 0x8000" "console_receive_cnt typing \<le> 1024" for t
    by (simp_all add: typing_def two_waiting_def blank_kernel_def)
  then show ?thesis
    using console_receive_delivers [OF typing_view _ _ typing_received [symmetric] refl] by simp
qed

text \<open>C32. \<open>__getc\<close> with an empty buffer blocks the running thread: it goes to the end of the queue of
  threads waiting for input, its processor state is saved, and the next ready thread (or the kernel's own)
  runs. Otherwise it takes the oldest byte, and writes it into the context that the thread's structure
  points to.\<close>

theorem getc_takes_or_blocks:
  assumes "input_view s ts ws"
    and "c = scheduler_current s" and "c \<notin> set (ts @ ws)" and "thread_node c \<noteq> 0"
    and "n = (if ts = [] then sch_kernel_main (sched s) else hd ts)" and "c \<noteq> n"
    and "getc s = (r, u)"
  shows "(received s = [] \<longrightarrow> r = CONSOLE_RECEIVE_BUFFER_EMPTY \<and> input_view u (tl ts) (ws @ [c])
      \<and> scheduler_current u = n \<and> running u = saved n s \<and> saved c u = running s \<and> contexts u = contexts s)
    \<and> (\<forall>b bs. received s = b # bs \<longrightarrow> r = 0 \<and> received u = bs \<and> input_view u ts ws
      \<and> scheduler_current u = c \<and> running u = running s
      \<and> contexts u = (contexts s)(thr_sp (threads s c) := set_a0 (ucast b) (contexts s (thr_sp (threads s c)))))"
proof (cases "console_receive_cnt s = 0")
  case True
  let ?t = "snd (scheduler_next s)"
  have r: "ready_queue s ts" using assms(1) by (simp add: input_view_def)
  then have f: "fst (scheduler_next s) = n" using scheduler_next_cases(1) assms(5) by simp
  have u: "r = CONSOLE_RECEIVE_BUFFER_EMPTY" "u = input_push c (yield c n ?t)"
    using True assms(7) f by (auto simp: getc_def Let_def split_beta assms(2))
  have "input_view (yield c n ?t) (tl ts) ws" using input_view_next [OF assms(1)] by (simp add: input_view_yield)
  moreover have "c \<notin> set (tl ts @ ws)" using assms(3) by (cases ts) auto
  ultimately have "input_view u (tl ts) (ws @ [c])"
    unfolding u(2) using assms(4) by (rule input_view_push_waiting)
  moreover have "scheduler_current u = n"
    using scheduler_next_current [of s] f by (simp add: u(2) input_fields scheduler_current_def)
  moreover have "running ?t = running s" "saved n ?t = saved n s" by (simp_all add: running_def saved_def)
  moreover have "saved c u = saved c (yield c n ?t)" by (simp add: u(2) saved_def input_fields)
  ultimately show ?thesis
    using True u yield_switch(1,2) [OF assms(6), of ?t] by (simp add: received_def input_fields)
next
  case False
  let ?p = "thr_sp (threads s c)" and ?c = "console_receive_cnt s - 1"
  have c: "unat ?c = unat (console_receive_cnt s) - 1" using False by (simp add: unat_minus_one)
  have n: "1 \<le> unat (console_receive_cnt s)" using False by (simp add: Suc_le_eq unat_gt_0)
  have u: "r = 0" "u = upd_context ?p (set_a0 (ucast (console_receive_buffer s 0))) s
      \<lparr>console_receive_cnt := ?c, console_receive_buffer := shift_loop 1 0 (unat ?c) (console_receive_buffer s)\<rparr>"
    using False assms(7) by (auto simp: getc_def Let_def upd_context_def assms(2))
  have "received u = drop 1 (received s)"
    using buffered_drop [OF n c, of "console_receive_buffer s"] by (simp add: u(2) received_def)
  moreover have "received s \<noteq> []" "hd (received s) = console_receive_buffer s 0"
    using n by (simp_all add: received_def buffered_def hd_map)
  moreover have "input_view u ts ws = input_view s ts ws"
    by (simp add: u(2)) (simp add: input_view_def ready_queue_def input_queue_def upd_context_def)
  moreover have "scheduler_current u = c" "running u = running s"
    "contexts u = (contexts s)(?p := set_a0 (ucast (console_receive_buffer s 0)) (contexts s ?p))"
    by (simp_all add: u(2) upd_context_def scheduler_current_def running_def assms(2))
  ultimately show ?thesis using assms(1) u(1) by auto
qed

theorem getc_takes_or_blocks_witness:
  "\<exists>u. getc typing = (CONSOLE_RECEIVE_BUFFER_EMPTY, u) \<and> input_view u [] [64, 128, 192]
    \<and> scheduler_current u = 256"
proof -
  obtain r u where g: "getc typing = (r, u)" by (cases "getc typing")
  have "scheduler_current typing = 192" "sch_kernel_main (sched typing) = 256" "received typing = []"
    by (simp_all add: typing_def scheduler_current_def received_def two_waiting_def blank_kernel_def)
  then show ?thesis
    using getc_takes_or_blocks [OF typing_view _ _ _ refl _ g] g by (simp add: thread_node_def)
qed

end
