(* ===== verification/Trap.thy ===== *)
theory Trap
  imports Console_Input
begin

text \<open>
  Traps: the entry code \<open>irq_wrap\<close> of \<open>src/trap.S\<close> and \<open>irq_handler\<close> of \<open>src/main.c\<close>, one definition per
  cause and per system call. The theorems say that a trapped thread resumes with the registers it had,
  when the timer preempts, what a system call returns to its caller, and where the two differ.

  \<open>plic_claim\<close> and \<open>plic_complete\<close> belong to the hardware library: what the first returns is the stream
  \<open>plic_irqs\<close>, the calls of the second are recorded.
\<close>

section \<open>Causes and system call codes\<close>

definition IRQ_TIMER :: u64 where [simp]: "IRQ_TIMER = 0x8000000000000001"
definition IRQ_HW :: u64 where [simp]: "IRQ_HW = 0x8000000000000009"
definition IRQ_ILLEGAL_OP :: u64 where [simp]: "IRQ_ILLEGAL_OP = 0x2"
definition IRQ_ILLEGAL_READ :: u64 where [simp]: "IRQ_ILLEGAL_READ = 0x5"
definition IRQ_ILLEGAL_WRITE :: u64 where [simp]: "IRQ_ILLEGAL_WRITE = 0x7"
definition IRQ_ECALL_USER :: u64 where [simp]: "IRQ_ECALL_USER = 0x8"
definition IRQ_ECALL_KERNEL :: u64 where [simp]: "IRQ_ECALL_KERNEL = 0x9"

definition SYSCALL_MEM_ALLOC :: u64 where [simp]: "SYSCALL_MEM_ALLOC = 0x1"
definition SYSCALL_THREAD_CREATE :: u64 where [simp]: "SYSCALL_THREAD_CREATE = 0x11"
definition SYSCALL_THREAD_EXIT :: u64 where [simp]: "SYSCALL_THREAD_EXIT = 0x12"
definition SYSCALL_THREAD_DISPATCH :: u64 where [simp]: "SYSCALL_THREAD_DISPATCH = 0x13"
definition SYSCALL_SEM_OPEN :: u64 where [simp]: "SYSCALL_SEM_OPEN = 0x21"
definition SYSCALL_SEM_CLOSE :: u64 where [simp]: "SYSCALL_SEM_CLOSE = 0x22"
definition SYSCALL_SEM_WAIT :: u64 where [simp]: "SYSCALL_SEM_WAIT = 0x23"
definition SYSCALL_SEM_SIGNAL :: u64 where [simp]: "SYSCALL_SEM_SIGNAL = 0x24"
definition SYSCALL_SEM_TIMED_WAIT :: u64 where [simp]: "SYSCALL_SEM_TIMED_WAIT = 0x25"
definition SYSCALL_TIMED_SLEEP :: u64 where [simp]: "SYSCALL_TIMED_SLEEP = 0x31"
definition SYSCALL_GETC :: u64 where [simp]: "SYSCALL_GETC = 0x41"
definition SYSCALL_PUTC :: u64 where [simp]: "SYSCALL_PUTC = 0x42"
definition SYSCALL_KERNEL_DISPATCH :: u64 where [simp]: "SYSCALL_KERNEL_DISPATCH = 0x91"

section \<open>Interrupts\<close>

text \<open>The three calls that hand the processor to the next ready thread, with the caller last in the queue.\<close>

definition requeue :: "u64 \<Rightarrow> kernel \<Rightarrow> kernel" where
  "requeue thread s =
     (let s = scheduler_push thread s;
          (thread_next, s) = scheduler_next s
      in yield thread thread_next s)"

definition irq_timer :: "kernel \<Rightarrow> kernel vres" where
  "irq_timer s =
     seqr (scheduler_tick s) (\<lambda>s.
     let thread_current = scheduler_current s;
         s = upd_thread thread_current (\<lambda>c. c\<lparr>thr_time_left := thr_time_left c - 1\<rparr>) s
     in if thr_time_left (threads s thread_current) = 0 then Inr (requeue thread_current s) else Inr s)"

definition plic_claim :: "kernel \<Rightarrow> i32 \<times> kernel" where
  "plic_claim s = (plic_irqs s (plic_claims s), s\<lparr>plic_claims := plic_claims s + 1\<rparr>)"

definition plic_complete :: "i32 \<Rightarrow> kernel \<Rightarrow> kernel" where
  "plic_complete irq s = s\<lparr>plic_completed := plic_completed s @ [irq]\<rparr>"

definition irq_hw :: "kernel \<Rightarrow> kernel" where
  "irq_hw s =
     (let (plic, s) = plic_claim s;
          s = (if plic = 10 then console_send (console_receive s) else s)
      in plic_complete 10 s)"

section \<open>System calls\<close>

text \<open>\<open>context\<close> is the address of the caller's saved registers, an \<open>int\<close> result is sign-extended into the
  64-bit register.\<close>

definition sys_mem_alloc :: "u64 \<Rightarrow> kernel \<Rightarrow> kernel vres" where
  "sys_mem_alloc ctx s =
     seqr (mem_alloc (x_a1 (contexts s ctx)) s) (\<lambda>(result, s).
     Inr (upd_context ctx (set_a0 result) s))"

definition sys_getc :: "kernel \<Rightarrow> kernel vres" where
  "sys_getc s = Inr (snd (getc s))"

definition sys_putc :: "u64 \<Rightarrow> kernel \<Rightarrow> kernel vres" where
  "sys_putc ctx s =
     (let (res, s) = putc (ucast (x_a1 (contexts s ctx))) s in
      if res \<noteq> 0 then
        (let s = s\<lparr>csr_sepc := csr_sepc s - 4\<rparr>;
             sepc = csr_sepc s;
             thread_current = scheduler_current s;
             s = upd_thread thread_current (\<lambda>c. c\<lparr>thr_sepc := sepc - 4\<rparr>) s
         in Inr (requeue thread_current s))
      else Inr s)"

definition sys_thread_create :: "u64 \<Rightarrow> kernel \<Rightarrow> kernel vres" where
  "sys_thread_create ctx s =
     (let thread_new = x_a1 (contexts s ctx);
          start_f = x_a2 (contexts s ctx);
          arg = x_a3 (contexts s ctx);
          stack_space = x_a4 (contexts s ctx)
      in seqr (thread_create thread_new start_f arg stack_space EXEC_MODE_USER s) (\<lambda>(result, s).
         Inr (upd_context ctx (set_a0 (i32_to_u64 result)) s)))"

definition sys_thread_dispatch :: "kernel \<Rightarrow> kernel vres" where
  "sys_thread_dispatch s = Inr (requeue (scheduler_current s) s)"

definition sys_sem_open :: "u64 \<Rightarrow> kernel \<Rightarrow> kernel vres" where
  "sys_sem_open ctx s =
     (let semaphore = x_a1 (contexts s ctx);
          init = x_a2 (contexts s ctx)
      in seqr (sem_open semaphore (ucast init) s) (\<lambda>(res, s).
         Inr (upd_context ctx (set_a0 (i32_to_u64 res)) s)))"

definition sys_sem_close :: "u64 \<Rightarrow> kernel \<Rightarrow> kernel vres" where
  "sys_sem_close ctx s =
     seqr (sem_close (x_a1 (contexts s ctx)) s) (\<lambda>(res, s).
     Inr (upd_context ctx (set_a0 (i32_to_u64 res)) s))"

definition sys_sem_wait :: "u64 \<Rightarrow> kernel \<Rightarrow> kernel vres" where
  "sys_sem_wait ctx s =
     (let (res, s) = sem_wait (x_a1 (contexts s ctx)) s
      in if res \<noteq> 0 then Inr s else Inr (upd_context ctx (set_a0 0) s))"

definition sys_sem_signal :: "u64 \<Rightarrow> kernel \<Rightarrow> kernel vres" where
  "sys_sem_signal ctx s =
     seqr (sem_signal (x_a1 (contexts s ctx)) s) (\<lambda>(res, s).
     Inr (upd_context ctx (set_a0 (i32_to_u64 res)) s))"

definition sys_sem_timed_wait :: "u64 \<Rightarrow> kernel \<Rightarrow> kernel vres" where
  "sys_sem_timed_wait ctx s =
     seqr (sem_timed_wait (x_a1 (contexts s ctx)) (x_a2 (contexts s ctx)) s) (\<lambda>(res, s).
     if res \<noteq> 0 then Inr s else Inr (upd_context ctx (set_a0 0) s))"

definition sys_timed_sleep :: "u64 \<Rightarrow> kernel \<Rightarrow> kernel vres" where
  "sys_timed_sleep ctx s =
     (let time = x_a1 (contexts s ctx);
          s = upd_context ctx (set_a0 0) s
      in if time = 0 then Inr s
         else
           (let thread_current = scheduler_current s in
            seqr (scheduler_timeout thread_current time 0 s) (\<lambda>s.
            let (thread_next, s) = scheduler_next s
            in Inr (yield thread_current thread_next s))))"

definition irq_ecall_user :: "kernel \<Rightarrow> kernel vres" where
  "irq_ecall_user s =
     (let ctx = csr_sscratch s;
          s = s\<lparr>csr_sepc := csr_sepc s + 4\<rparr>;
          syscall_code = x_a0 (contexts s ctx)
      in if syscall_code = SYSCALL_MEM_ALLOC then sys_mem_alloc ctx s
         else if syscall_code = SYSCALL_GETC then sys_getc s
         else if syscall_code = SYSCALL_PUTC then sys_putc ctx s
         else if syscall_code = SYSCALL_THREAD_CREATE then sys_thread_create ctx s
         else if syscall_code = SYSCALL_THREAD_EXIT then thread_exit s
         else if syscall_code = SYSCALL_THREAD_DISPATCH then sys_thread_dispatch s
         else if syscall_code = SYSCALL_SEM_OPEN then sys_sem_open ctx s
         else if syscall_code = SYSCALL_SEM_CLOSE then sys_sem_close ctx s
         else if syscall_code = SYSCALL_SEM_WAIT then sys_sem_wait ctx s
         else if syscall_code = SYSCALL_SEM_SIGNAL then sys_sem_signal ctx s
         else if syscall_code = SYSCALL_SEM_TIMED_WAIT then sys_sem_timed_wait ctx s
         else if syscall_code = SYSCALL_TIMED_SLEEP then sys_timed_sleep ctx s
         else Inr s)"

definition kernel_dispatch :: "kernel \<Rightarrow> kernel" where
  "kernel_dispatch s =
     (let thread_current = scheduler_current s;
          (thread_next, s) = scheduler_next s;
          s = yield thread_current thread_next s
      in s\<lparr>csr_sscratch := thr_sp (threads s thread_next)\<rparr>)"

definition irq_ecall_kernel :: "kernel \<Rightarrow> kernel" where
  "irq_ecall_kernel s =
     (let ctx = csr_sscratch s;
          s = s\<lparr>csr_sepc := csr_sepc s + 4\<rparr>
      in if x_a0 (contexts s ctx) = SYSCALL_KERNEL_DISPATCH then kernel_dispatch s else s)"

section \<open>The handler and its entry code\<close>

definition irq_handler :: "kernel \<Rightarrow> kernel vres" where
  "irq_handler s =
     (if csr_scause s = IRQ_TIMER then irq_timer s
      else if csr_scause s = IRQ_HW then Inr (irq_hw s)
      else if csr_scause s = IRQ_ILLEGAL_OP then Inl (Panic (line ''Illegal operation''), s)
      else if csr_scause s = IRQ_ILLEGAL_READ then Inl (Panic (line ''Illegal read''), s)
      else if csr_scause s = IRQ_ILLEGAL_WRITE then Inl (Panic (line ''Illegal write''), s)
      else if csr_scause s = IRQ_ECALL_USER then irq_ecall_user s
      else if csr_scause s = IRQ_ECALL_KERNEL then Inr (irq_ecall_kernel s)
      else Inr s)"

text \<open>
  \<open>irq_wrap\<close> on the register file of the trapped code. The 32 stores are one write of a context, below the
  stack pointer, which has been lowered before it is stored itself; register 0 reads as 0. The loads
  after the handler use the stack pointer that the second of them has loaded. The handler runs with the
  global and thread pointers of the trapped code.
\<close>

definition trap_save :: "context_t \<Rightarrow> kernel \<Rightarrow> kernel" where
  "trap_save regs s =
     (let sp = x_sp regs - 0x100;
          s = upd_context sp (\<lambda>_. regs\<lparr>x_zero := 0, x_sp := sp\<rparr>) s
      in s\<lparr>csr_sscratch := sp, reg_gp := x_gp regs, reg_tp := x_tp regs\<rparr>)"

definition trap_restore :: "kernel \<Rightarrow> context_t \<times> kernel" where
  "trap_restore s =
     (let sp = csr_sscratch s;
          ra = x_ra (contexts s sp);
          sp = x_sp (contexts s sp);
          regs = (contexts s sp)\<lparr>x_zero := 0, x_ra := ra, x_sp := sp + 0x100\<rparr>
      in (regs, s\<lparr>csr_sip := csr_sip s AND NOT 0x2\<rparr>))"

definition irq_wrap :: "context_t \<Rightarrow> kernel \<Rightarrow> (context_t, kernel) res" where
  "irq_wrap regs s = seqr (irq_handler (trap_save regs s)) (\<lambda>s. Inr (trap_restore s))"

section \<open>Handing over the processor\<close>

lemma requeue_same [simp]:
  "contexts (requeue t s) = contexts s" "sleeping (requeue t s) = sleeping s" "sems (requeue t s) = sems s"
  "mem_state.truncate (requeue t s) = mem_state.truncate s"
  "sleeping_threads (sched (requeue t s)) = sleeping_threads (sched s)"
  "sch_kernel_main (sched (requeue t s)) = sch_kernel_main (sched s)"
  "user_thread_count (sched (requeue t s)) = user_thread_count (sched s)"
  by (simp_all add: requeue_def split_beta Let_def)

text \<open>The thread that gets the processor after \<open>c\<close> was put at the end of the ready queue \<open>ts\<close>.\<close>

lemma requeue_ready:
  assumes "ready_queue s ts" and "c \<notin> set ts" and "thread_node c \<noteq> 0"
  shows "ready_queue (requeue c s) (tl (ts @ [c]))" and "scheduler_current (requeue c s) = hd (ts @ [c])"
    and "requeue c s = yield c (hd (ts @ [c])) (snd (scheduler_next (scheduler_push c s)))"
proof -
  let ?s = "scheduler_push c s"
  have q: "ready_queue ?s (ts @ [c])" by (rule ready_push [OF assms])
  have f: "fst (scheduler_next ?s) = hd (ts @ [c])" using scheduler_next_cases(1) [OF q] by simp
  then show e: "requeue c s = yield c (hd (ts @ [c])) (snd (scheduler_next ?s))"
    by (simp add: requeue_def split_beta Let_def)
  show "ready_queue (requeue c s) (tl (ts @ [c]))"
    using scheduler_next_cases(2) [OF q] by (simp add: e ready_queue_def)
  show "scheduler_current (requeue c s) = hd (ts @ [c])"
    using scheduler_next_current [of ?s] f by (simp add: e scheduler_current_def)
qed

lemma requeue_alone:
  assumes "ready_queue s []" and "thread_node c \<noteq> 0"
  shows "running (requeue c s) = running s"
    and "threads (requeue c s) = (threads s)(c := (threads s c)\<lparr>thr_time_left := 2, thr_sp := csr_sscratch s\<rparr>)"
  using requeue_ready(3) [OF assms(1) _ assms(2)]
  by (simp_all add: yield_self yield_def upd_defs scheduler_push_fields running_def)

lemma requeue_switch:
  assumes "ready_queue s (t # ts)" and "c \<notin> set (t # ts)" and "thread_node c \<noteq> 0"
  shows "running (requeue c s) = saved t s" and "saved c (requeue c s) = running s"
    and "threads (requeue c s) = (threads s)(c := (threads s c)\<lparr>thr_time_left := 2, thr_sp := csr_sscratch s,
      thr_sstatus := csr_sstatus s, thr_sepc := csr_sepc s\<rparr>)"
proof -
  let ?t = "snd (scheduler_next (scheduler_push c s))"
  have ne: "c \<noteq> t" using assms(2) by simp
  have e: "requeue c s = yield c t ?t" using requeue_ready(3) [OF assms] by simp
  have "running ?t = running s" "saved t ?t = saved t s"
    using ne by (simp_all add: running_def saved_def scheduler_push_fields)
  then show "running (requeue c s) = saved t s" "saved c (requeue c s) = running s"
    using yield_switch(1,2) [OF ne, of ?t] by (simp_all add: e)
  show "threads (requeue c s) = (threads s)(c := (threads s c)\<lparr>thr_time_left := 2, thr_sp := csr_sscratch s,
      thr_sstatus := csr_sstatus s, thr_sepc := csr_sepc s\<rparr>)"
    by (simp add: e yield_threads [OF ne] scheduler_push_fields)
qed

section \<open>Entry and exit\<close>

lemma trap_save_simps [simp]:
  "threads (trap_save regs s) = threads s" "sched (trap_save regs s) = sched s"
  "list_nodes (trap_save regs s) = list_nodes s" "sems (trap_save regs s) = sems s"
  "csr_scause (trap_save regs s) = csr_scause s" "csr_sepc (trap_save regs s) = csr_sepc s"
  "csr_sstatus (trap_save regs s) = csr_sstatus s"
  "csr_sscratch (trap_save regs s) = x_sp regs - 0x100"
  "contexts (trap_save regs s) (x_sp regs - 0x100) = regs\<lparr>x_zero := 0, x_sp := x_sp regs - 0x100\<rparr>"
  "mem_state.truncate (trap_save regs s) = mem_state.truncate s"
  "console_receive_cnt (trap_save regs s) = console_receive_cnt s"
  "console_receive_buffer (trap_save regs s) = console_receive_buffer s"
  "threads_waiting_for_input (trap_save regs s) = threads_waiting_for_input s"
  by (simp_all add: trap_save_def upd_context_def Let_def mem_state.truncate_def)

lemma trap_save_contexts:
  "contexts (trap_save regs s) = (contexts s)(x_sp regs - 0x100 := regs\<lparr>x_zero := 0, x_sp := x_sp regs - 0x100\<rparr>)"
  by (simp add: trap_save_def upd_context_def Let_def)

text \<open>Restoring from a context that was saved gives back its registers, with a result in \<open>a0\<close>.\<close>

lemma trap_restore_saved:
  assumes "csr_sscratch t = x_sp regs - 0x100"
    and "contexts t (x_sp regs - 0x100) = regs\<lparr>x_zero := 0, x_sp := x_sp regs - 0x100, x_a0 := a\<rparr>"
  shows "fst (trap_restore t) = regs\<lparr>x_zero := 0, x_a0 := a\<rparr>" and "running (snd (trap_restore t)) = running t"
  using assms by (cases regs; simp add: trap_restore_def Let_def running_def)+

lemma set_a0_regs: "regs\<lparr>x_zero := 0, x_sp := p\<rparr> = regs\<lparr>x_zero := 0, x_sp := p, x_a0 := x_a0 regs\<rparr>"
  by (cases regs) simp

section \<open>Properties\<close>

text \<open>C18. A trapped thread resumes with the registers it had. Whatever happened between its trap and the
  trap that returns to it: if its context was not written except for the result register, and the handler
  has made it the running thread, then the exit code leaves all its registers as they were at its own trap,
  the stack pointer included, with that result in \<open>a0\<close>.\<close>

theorem trapped_thread_resumes:
  assumes "contexts t (x_sp regs - 0x100) =
      (contexts (trap_save regs s) (x_sp regs - 0x100))\<lparr>x_a0 := a\<rparr>"
    and "irq_handler (trap_save regs' s') = Inr t" and "running t = (st, pc, x_sp regs - 0x100)"
  shows "\<exists>u. irq_wrap regs' s' = Inr (regs\<lparr>x_zero := 0, x_a0 := a\<rparr>, u) \<and> running u = running t"
proof -
  have p: "csr_sscratch t = x_sp regs - 0x100" using assms(3) by (simp add: running_def)
  have c: "contexts t (x_sp regs - 0x100) = regs\<lparr>x_zero := 0, x_sp := x_sp regs - 0x100, x_a0 := a\<rparr>"
    using assms(1) by simp
  note r = trap_restore_saved [OF p c]
  have "irq_wrap regs' s' = Inr (trap_restore t)" by (simp add: irq_wrap_def assms(2))
  with r show ?thesis by (metis prod.collapse)
qed

text \<open>Thread 64, trapped with stack pointer 0x9000, is ready; thread 192 runs on the last tick of its slice.\<close>

definition sample_regs :: context_t where
  "sample_regs = blank_context\<lparr>x_sp := 0x9000, x_s1 := 7, x_a0 := 2\<rparr>"

definition paused :: kernel where
  "paused = one_ready\<lparr>contexts := contexts (trap_save sample_regs blank_kernel),
     threads := (\<lambda>_. \<lparr>thr_sp = 0x8F00, thr_bp = 0, thr_sstatus = 0, thr_sepc = 0x500, thr_time_left = 1\<rparr>),
     sched := (sched one_ready)\<lparr>thread_current := 192\<rparr>, csr_scause := IRQ_ECALL_USER\<rparr>"

lemma paused_ready: "ready_queue paused [64]"
  using one_ready_queue by (simp add: paused_def ready_queue_def)

lemma paused_fields:
  "scheduler_current paused = 192" "csr_scause paused = 8" "saved t paused = (0, 0x500, 0x8F00)"
  "thr_time_left (threads paused t) = 1" "contexts paused = contexts (trap_save sample_regs blank_kernel)"
  "sleeping_threads (sched paused) = 0"
  by (simp_all add: paused_def scheduler_current_def saved_def one_ready_def blank_kernel_def)

theorem trapped_thread_resumes_witness:
  "\<exists>u. irq_wrap (blank_context\<lparr>x_a0 := SYSCALL_THREAD_DISPATCH, x_sp := 0xA000\<rparr>) paused = Inr (sample_regs, u)
    \<and> csr_sepc u = 0x500"
proof -
  let ?r = "blank_context\<lparr>x_a0 := SYSCALL_THREAD_DISPATCH, x_sp := 0xA000\<rparr>"
  let ?v = "(trap_save ?r paused)\<lparr>csr_sepc := csr_sepc paused + 4\<rparr>" and ?t = "requeue 192 ((trap_save ?r paused)\<lparr>csr_sepc := csr_sepc paused + 4\<rparr>)"
  have h: "irq_handler (trap_save ?r paused) = Inr ?t"
    by (simp add: irq_handler_def irq_ecall_user_def sys_thread_dispatch_def Let_def paused_fields trap_save_contexts
      scheduler_current_def [of "_\<lparr>csr_sepc := _\<rparr>"] paused_fields(1) [unfolded scheduler_current_def])
  have q: "ready_queue ?v [64]" using paused_ready by (simp add: ready_queue_def)
  have "running ?t = saved 64 ?v" by (rule requeue_switch(1) [OF q]) (simp_all add: thread_node_def)
  also have "saved 64 ?v = saved 64 paused" by (simp add: saved_def)
  finally have r: "running ?t = (0, 0x500, 0x8F00)" by (simp add: paused_fields)
  have p: "x_sp sample_regs = 0x9000" by (simp add: sample_regs_def)
  have c: "contexts ?t (x_sp sample_regs - 0x100) =
      (contexts (trap_save sample_regs blank_kernel) (x_sp sample_regs - 0x100))\<lparr>x_a0 := 2\<rparr>"
    by (simp add: trap_save_def [of ?r] upd_context_def Let_def p paused_fields)
       (simp add: paused_fields trap_save_contexts sample_regs_def blank_context_def)
  have "sample_regs = sample_regs\<lparr>x_zero := 0, x_a0 := 2\<rparr>" by (simp add: sample_regs_def blank_context_def)
  with trapped_thread_resumes [OF c h, of 0 "0x500"] r p show ?thesis by (auto simp: running_def)
qed

text \<open>C22. The timer preempts exactly when the time slice is used up: after the tick, the running thread's
  counter goes down by one; when it reaches 0 the thread goes to the end of the ready queue with a full
  slice and its state saved, and the head of the queue runs, which is the same thread when no other is
  ready. A counter that was 0 already (\<open>__sem_timed_wait\<close> sets it so) wraps around instead.\<close>

theorem timer_preempts:
  assumes "scheduler_tick s = Inr v" and "ready_queue v ts"
    and "c = scheduler_current v" and "c \<notin> set ts" and "thread_node c \<noteq> 0"
  shows "(thr_time_left (threads v c) \<noteq> 1 \<longrightarrow>
      irq_timer s = Inr (upd_thread c (\<lambda>x. x\<lparr>thr_time_left := thr_time_left x - 1\<rparr>) v))
    \<and> (thr_time_left (threads v c) = 1 \<longrightarrow> (\<exists>u. irq_timer s = Inr u
      \<and> ready_queue u (tl (ts @ [c])) \<and> scheduler_current u = hd (ts @ [c])
      \<and> running u = (if ts = [] then running v else saved (hd ts) v)
      \<and> (ts \<noteq> [] \<longrightarrow> saved c u = running v)
      \<and> thr_time_left (threads u c) = DEFAULT_TIME_SLICE))"
proof -
  let ?v = "upd_thread c (\<lambda>x. x\<lparr>thr_time_left := thr_time_left x - 1\<rparr>) v"
  have e: "irq_timer s = (if thr_time_left (threads v c) = 1 then Inr (requeue c ?v) else Inr ?v)"
    using assms(1,3) by (simp add: irq_timer_def Let_def upd_thread_def)
  have q: "ready_queue ?v ts" using assms(2) by (simp add: ready_queue_def upd_thread_def)
  have r: "running ?v = running v" by (simp add: running_def upd_thread_def)
  have h: "saved x ?v = saved x v" for x by (simp add: saved_def upd_thread_def)
  have "running (requeue c ?v) = (if ts = [] then running v else saved (hd ts) v)
      \<and> (ts \<noteq> [] \<longrightarrow> saved c (requeue c ?v) = running v)
      \<and> thr_time_left (threads (requeue c ?v) c) = DEFAULT_TIME_SLICE"
  proof (cases ts)
    case Nil
    with q have "ready_queue ?v []" by simp
    from requeue_alone [OF this assms(5)] show ?thesis using Nil by (simp add: r)
  next
    case (Cons x xs)
    with q assms(4) have "ready_queue ?v (x # xs)" "c \<notin> set (x # xs)" by simp_all
    from requeue_switch [OF this assms(5)] show ?thesis using Cons assms(4) by (simp add: r h)
  qed
  then show ?thesis using e requeue_ready(1,2) [OF q assms(4,5)] by simp
qed

theorem timer_preempts_witness:
  "\<exists>u. irq_timer paused = Inr u \<and> scheduler_current u = 64 \<and> ready_queue u [192]
    \<and> running u = (0, 0x500, 0x8F00)"
proof -
  have "scheduler_tick paused = Inr paused" by (simp add: scheduler_tick_def paused_fields)
  from timer_preempts [OF this paused_ready, of 192] show ?thesis
    by (auto simp: paused_fields thread_node_def)
qed

text \<open>C34. A system call whose code the handler does not know, such as that of \<open>mem_free\<close> (2) or \<open>sem_trywait\<close>
  (0x26), does nothing: execution goes on after the call with all registers unchanged, so that the caller
  reads the code itself as the result.\<close>

theorem unknown_syscall_ignored:
  assumes "csr_scause s = IRQ_ECALL_USER"
    and "x_a0 regs \<notin> {SYSCALL_MEM_ALLOC, SYSCALL_GETC, SYSCALL_PUTC, SYSCALL_THREAD_CREATE, SYSCALL_THREAD_EXIT,
      SYSCALL_THREAD_DISPATCH, SYSCALL_SEM_OPEN, SYSCALL_SEM_CLOSE, SYSCALL_SEM_WAIT, SYSCALL_SEM_SIGNAL,
      SYSCALL_SEM_TIMED_WAIT, SYSCALL_TIMED_SLEEP}"
  shows "irq_wrap regs s = Inr (regs\<lparr>x_zero := 0\<rparr>,
      (trap_save regs s)\<lparr>csr_sepc := csr_sepc s + 4, csr_sip := csr_sip s AND NOT 0x2\<rparr>)"
proof -
  have "irq_handler (trap_save regs s) = Inr ((trap_save regs s)\<lparr>csr_sepc := csr_sepc s + 4\<rparr>)"
    using assms by (simp add: irq_handler_def irq_ecall_user_def Let_def)
  then show ?thesis
    by (cases regs) (simp add: irq_wrap_def trap_restore_def Let_def trap_save_def upd_context_def)
qed

theorem unknown_syscall_ignored_witness:
  "\<exists>u. irq_wrap sample_regs paused = Inr (sample_regs, u) \<and> csr_sepc u = 4"
proof -
  have "sample_regs = sample_regs\<lparr>x_zero := 0\<rparr>" "x_a0 sample_regs = 2" "csr_sepc paused = 0"
    by (simp_all add: sample_regs_def blank_context_def paused_def one_ready_def blank_kernel_def scheduler_push_def
      ring_push_def Let_def upd_defs)
  with unknown_syscall_ignored [of paused sample_regs] show ?thesis by (simp add: paused_fields)
qed

text \<open>The contexts saved at two addresses, 256 bytes each, do not overlap; the differences wrap around.\<close>

definition frames_apart :: "u64 \<Rightarrow> u64 \<Rightarrow> bool" where
  "frames_apart p q \<longleftrightarrow> 0x100 \<le> p - q \<and> 0x100 \<le> q - p"

text \<open>C33. \<open>__getc\<close> delivers a buffered byte to the wrong place when the thread's structure does not hold the
  address of its current context: the byte is taken from the buffer, but the caller reads back the system
  call's code. Only when the stack pointer at the call is the one of the thread's last switch does the
  caller get the byte. The two saved frames are the same or do not overlap; with fewer than 256 bytes between
  them, on one stack, the byte lands in the slot of another register, which the model does not show.\<close>

theorem getc_result_misplaced:
  assumes "csr_scause s = IRQ_ECALL_USER" and "x_a0 regs = SYSCALL_GETC" and "received s = b # bs"
    and "thr_sp (threads s (scheduler_current s)) = x_sp regs - 0x100
      \<or> frames_apart (thr_sp (threads s (scheduler_current s))) (x_sp regs - 0x100)"
  shows "\<exists>u. irq_wrap regs s = Inr (regs\<lparr>x_zero := 0, x_a0 :=
        (if thr_sp (threads s (scheduler_current s)) = x_sp regs - 0x100 then ucast b else SYSCALL_GETC)\<rparr>, u)
    \<and> received u = bs"
proof -
  let ?v = "(trap_save regs s)\<lparr>csr_sepc := csr_sepc s + 4\<rparr>" and ?p = "thr_sp (threads s (scheduler_current s))"
  let ?c = "console_receive_cnt s - 1"
  have nz: "console_receive_cnt s \<noteq> 0" using assms(3) by (auto simp: received_def)
  then have n: "1 \<le> unat (console_receive_cnt s)" by (simp add: Suc_le_eq unat_gt_0)
  have b: "b = console_receive_buffer s 0"
    using assms(3) n by (simp add: received_def buffered_def upt_conv_Cons)
  let ?t = "(upd_context ?p (set_a0 (ucast b)) ?v)\<lparr>console_receive_cnt := ?c,
      console_receive_buffer := shift_loop 1 0 (unat ?c) (console_receive_buffer s)\<rparr>"
  have h: "irq_handler (trap_save regs s) = Inr ?t"
    using assms(1,2) nz by (simp add: irq_handler_def irq_ecall_user_def sys_getc_def getc_def Let_def b
      scheduler_current_def upd_context_def)
  have "csr_sscratch ?t = x_sp regs - 0x100" by (simp add: upd_context_def)
  moreover have "contexts ?t (x_sp regs - 0x100) = regs\<lparr>x_zero := 0, x_sp := x_sp regs - 0x100,
      x_a0 := (if ?p = x_sp regs - 0x100 then ucast b else SYSCALL_GETC)\<rparr>"
  proof -
    let ?r = "regs\<lparr>x_zero := 0, x_sp := x_sp regs - 0x100\<rparr>"
    have "contexts ?t (x_sp regs - 0x100) = (if ?p = x_sp regs - 0x100 then set_a0 (ucast b) ?r else ?r)"
      by (simp add: upd_context_def)
    also have "\<dots> = regs\<lparr>x_zero := 0, x_sp := x_sp regs - 0x100,
        x_a0 := (if ?p = x_sp regs - 0x100 then ucast b else SYSCALL_GETC)\<rparr>"
      using assms(2) by (cases regs) (simp add: set_a0_def)
    finally show ?thesis .
  qed
  ultimately have "fst (trap_restore ?t) = regs\<lparr>x_zero := 0, x_a0 :=
      (if ?p = x_sp regs - 0x100 then ucast b else SYSCALL_GETC)\<rparr>"
    by (rule trap_restore_saved)
  moreover have "unat ?c = unat (console_receive_cnt s) - 1" using nz by (simp add: unat_minus_one)
  with n have "received (snd (trap_restore ?t)) = drop 1 (received s)"
    using buffered_drop [of 1 "console_receive_cnt s" ?c "console_receive_buffer s"]
    by (simp add: trap_restore_def Let_def received_def)
  ultimately show ?thesis
    by (intro exI [of _ "snd (trap_restore ?t)"]) (simp add: irq_wrap_def h assms(3) prod_eq_iff)
qed

theorem getc_result_misplaced_witness:
  "\<exists>s u. received s = [65] \<and> irq_wrap (sample_regs\<lparr>x_a0 := SYSCALL_GETC\<rparr>) s =
      Inr (sample_regs\<lparr>x_a0 := SYSCALL_GETC\<rparr>, u) \<and> received u = []"
proof -
  let ?s = "blank_kernel\<lparr>csr_scause := IRQ_ECALL_USER, console_receive_cnt := 1, console_receive_buffer := \<lambda>_. 65\<rparr>"
  have r: "received ?s = [65]" by (simp add: received_def buffered_def)
  have "thr_sp (threads ?s t) = 0" for t by (simp add: blank_kernel_def)
  moreover have "frames_apart 0 (x_sp (sample_regs\<lparr>x_a0 := SYSCALL_GETC\<rparr>) - 0x100)"
    by (simp add: frames_apart_def sample_regs_def)
  ultimately obtain u where "irq_wrap (sample_regs\<lparr>x_a0 := SYSCALL_GETC\<rparr>) ?s =
      Inr (sample_regs\<lparr>x_a0 := SYSCALL_GETC\<rparr>\<lparr>x_zero := 0, x_a0 := SYSCALL_GETC\<rparr>, u)" "received u = []"
    using getc_result_misplaced [OF _ _ r, of "sample_regs\<lparr>x_a0 := SYSCALL_GETC\<rparr>"]
    by (auto simp: sample_regs_def)
  moreover have "sample_regs\<lparr>x_a0 := SYSCALL_GETC\<rparr>\<lparr>x_zero := 0, x_a0 := SYSCALL_GETC\<rparr> =
      sample_regs\<lparr>x_a0 := SYSCALL_GETC\<rparr>"
    by (simp add: sample_regs_def blank_context_def)
  ultimately show ?thesis using r by metis
qed

text \<open>C31. A thread that writes to a full console is not blocked but made to try again: its program counter is
  put back to the call, it goes to the end of the ready queue and the head of the queue runs. Its registers
  are not touched, so that the call it repeats is the same, and no byte is lost.\<close>

theorem putc_full_retries:
  assumes "ready_queue s (t # ts)" and "c = scheduler_current s" and "c \<notin> set (t # ts)" and "thread_node c \<noteq> 0"
    and "console_send_cnt s \<le> 1024"
    and "putc (ucast (x_a1 (contexts s ctx))) s = (CONSOLE_SEND_BUFFER_FULL, v)"
  shows "\<exists>u. sys_putc ctx s = Inr u \<and> saved c u = (csr_sstatus s, csr_sepc s - 4, csr_sscratch s)
    \<and> running u = saved t s \<and> scheduler_current u = t \<and> ready_queue u (ts @ [c])
    \<and> contexts u = contexts s \<and> output_of u = output_of s"
proof -
  obtain o: "output_only s v" "output_of v = output_of s"
    by (rule putc_cases [OF assms(5), of "ucast (x_a1 (contexts s ctx))"])
       (use assms(6) in \<open>auto simp: CONSOLE_SEND_BUFFER_FULL_def\<close>)
  let ?v = "upd_thread c (\<lambda>x. x\<lparr>thr_sepc := csr_sepc v - 8\<rparr>) (v\<lparr>csr_sepc := csr_sepc v - 4\<rparr>)"
  obtain b n r x where v: "v = s\<lparr>console_send_buffer := b, console_send_cnt := n, dev_status_reads := r, dev_tx := x\<rparr>"
    using o(1) unfolding output_only_def by blast
  have e: "sys_putc ctx s = Inr (requeue c ?v)"
    using assms(2,6) by (simp add: sys_putc_def Let_def CONSOLE_SEND_BUFFER_FULL_def v scheduler_current_def)
  have q: "ready_queue ?v (t # ts)" using assms(1) by (simp add: ready_queue_def upd_thread_def v)
  note r = requeue_switch [OF q assms(3,4)] requeue_ready [OF q assms(3,4)]
  have "running ?v = (csr_sstatus s, csr_sepc s - 4, csr_sscratch s)" "saved t ?v = saved t s"
    "contexts ?v = contexts s" "output_of ?v = output_of v"
    using assms(3) by (auto simp: running_def saved_def upd_thread_def v output_of_def pending_output_def)
  moreover have "output_of (requeue c ?v) = output_of ?v"
    by (simp add: requeue_def scheduler_push_def scheduler_next_def yield_def upd_defs Let_def split_beta
      output_of_def pending_output_def)
  ultimately show ?thesis using e r(1,2,4,5) o(2) by (intro exI [of _ "requeue c ?v"]) simp
qed

theorem putc_full_retries_witness:
  "\<exists>s u. sys_putc 0x8F00 s = Inr u \<and> csr_sepc s = 104 \<and> saved 192 u = (0, 100, 0) \<and> scheduler_current u = 64
    \<and> ready_queue u [192]"
proof -
  let ?s = "paused\<lparr>console_send_cnt := 1024, dev_status := \<lambda>_. 0, csr_sepc := 104, csr_sstatus := 0, csr_sscratch := 0\<rparr>"
  have q: "ready_queue ?s [64]" using paused_ready by (simp add: ready_queue_def)
  obtain v where "putc (ucast (x_a1 (contexts ?s 0x8F00))) ?s = (CONSOLE_SEND_BUFFER_FULL, v)"
    by (simp add: putc_def console_send_def console_send_loop.simps read_status_def)
  from putc_full_retries [OF q _ _ _ _ this, of 192] obtain u where "sys_putc 0x8F00 ?s = Inr u"
    "saved 192 u = (0, 100, 0)" "scheduler_current u = 64" "ready_queue u [192]"
    using paused_fields(1) by (auto simp: scheduler_current_def thread_node_def)
  moreover have "csr_sepc ?s = 104" by simp
  ultimately show ?thesis by blast
qed

end
