(* ===== verification/OS_Spec.thy ===== *)
theory OS_Spec
  imports Timeout
begin

text \<open>
  What the kernel promises, without memory: an abstract operating system whose threads are in lists, and one
  function \<open>spec\<close> that says what each event does to it. \<open>allowed\<close> is the discipline that user programs follow,
  \<open>fresh\<close> what the allocator guarantees of new objects; every event that keeps to both keeps the invariant \<open>os_ok\<close>.
\<close>

section \<open>Abstract states\<close>

text \<open>
  \<open>o_idle\<close> is the kernel's own thread, which runs when no other is ready. \<open>o_threads\<close> are the threads that
  exist, \<open>o_sems\<close> the open semaphores and \<open>o_blocks\<close> the memory that user programs have allocated. A sleeping
  thread is paired with the number of ticks until it wakes up. A thread holds a semaphore from the wait
  that succeeds, at once or by being woken, to its signal.
\<close>

record os =
  o_current :: u64
  o_idle :: u64
  o_ready :: "u64 list"
  o_input :: "u64 list"
  o_sleeping :: "(nat \<times> u64) list"
  o_waiting :: "u64 \<Rightarrow> u64 list"
  o_permits :: "u64 \<Rightarrow> int"
  o_limit :: "u64 \<Rightarrow> nat"
  o_holders :: "u64 \<Rightarrow> u64 set"
  o_threads :: "u64 set"
  o_sems :: "u64 set"
  o_blocks :: "u64 set"

text \<open>
  The events, with what they depend on beside the abstract state: whether the timer preempts the running
  thread, how many bytes have been received, whether there was no byte to read or no room to write, and
  the address of a new object, 0 when there is no memory.
\<close>

datatype event =
    Run
  | Wait u64
  | Signal u64
  | Dispatch
  | Idle
  | Tick bool
  | Device nat
  | Read_char bool
  | Write_char bool
  | Sleep nat
  | Allocate u64
  | Create u64
  | Exit u64
  | Open u64 nat
  | Close u64
  | Ignored

section \<open>What events do\<close>

definition run_next :: "os \<Rightarrow> os" where
  "run_next a = (case o_ready a of
     [] \<Rightarrow> a\<lparr>o_current := o_idle a\<rparr>
   | t # ts \<Rightarrow> a\<lparr>o_current := t, o_ready := ts\<rparr>)"

definition hand_over :: "os \<Rightarrow> os" where
  "hand_over a = run_next (a\<lparr>o_ready := o_ready a @ [o_current a]\<rparr>)"

definition spec_wait :: "u64 \<Rightarrow> os \<Rightarrow> os" where
  "spec_wait h a =
     (let c = o_current a; b = a\<lparr>o_permits := (o_permits a)(h := o_permits a h - 1)\<rparr>
      in if 0 < o_permits a h then b\<lparr>o_holders := (o_holders a)(h := insert c (o_holders a h))\<rparr>
         else run_next (b\<lparr>o_waiting := (o_waiting a)(h := o_waiting a h @ [c])\<rparr>))"

definition spec_signal :: "u64 \<Rightarrow> os \<Rightarrow> os" where
  "spec_signal h a =
     (let H = o_holders a h - {o_current a}; b = a\<lparr>o_permits := (o_permits a)(h := o_permits a h + 1)\<rparr>
      in case o_waiting a h of
           [] \<Rightarrow> b\<lparr>o_holders := (o_holders a)(h := H)\<rparr>
         | t # ts \<Rightarrow> b\<lparr>o_ready := o_ready a @ [t], o_waiting := (o_waiting a)(h := ts),
             o_holders := (o_holders a)(h := insert t H)\<rparr>)"

text \<open>The threads whose time has come, and the others one tick later.\<close>

definition due :: "(nat \<times> 'a) list \<Rightarrow> (nat \<times> 'a) list" where
  "due es = takeWhile (\<lambda>e. fst e = 1) es"

definition ticked :: "(nat \<times> 'a) list \<Rightarrow> (nat \<times> 'a) list" where
  "ticked es = map (\<lambda>e. (fst e - 1, snd e)) (dropWhile (\<lambda>e. fst e = 1) es)"

definition spec_wake :: "os \<Rightarrow> os" where
  "spec_wake a = a\<lparr>o_ready := o_ready a @ map snd (due (o_sleeping a)), o_sleeping := ticked (o_sleeping a)\<rparr>"

definition spec_open :: "u64 \<Rightarrow> nat \<Rightarrow> os \<Rightarrow> os" where
  "spec_open h n a = a\<lparr>o_sems := insert h (o_sems a), o_permits := (o_permits a)(h := int n),
     o_limit := (o_limit a)(h := n), o_holders := (o_holders a)(h := {}), o_waiting := (o_waiting a)(h := [])\<rparr>"

definition spec_close :: "u64 \<Rightarrow> os \<Rightarrow> os" where
  "spec_close h a = a\<lparr>o_sems := o_sems a - {h}, o_ready := o_ready a @ o_waiting a h,
     o_waiting := (o_waiting a)(h := []), o_holders := (o_holders a)(h := {})\<rparr>"

definition spec_exit :: "u64 \<Rightarrow> os \<Rightarrow> os" where
  "spec_exit b a = run_next (a\<lparr>o_threads := o_threads a - {o_current a}, o_blocks := o_blocks a - {b}\<rparr>)"

fun spec :: "event \<Rightarrow> os \<Rightarrow> os" where
  "spec Run a = a"
| "spec (Wait h) a = spec_wait h a"
| "spec (Signal h) a = spec_signal h a"
| "spec Dispatch a = hand_over a"
| "spec Idle a = run_next a"
| "spec (Tick preempts) a = (if preempts then hand_over (spec_wake a) else spec_wake a)"
| "spec (Device n) a = a\<lparr>o_ready := o_ready a @ take n (o_input a), o_input := drop n (o_input a)\<rparr>"
| "spec (Read_char blocks) a = (if blocks then run_next (a\<lparr>o_input := o_input a @ [o_current a]\<rparr>) else a)"
| "spec (Write_char retries) a = (if retries then hand_over a else a)"
| "spec (Sleep w) a =
     (if w = 0 then a else run_next (a\<lparr>o_sleeping := insert_wake (w, o_current a) (o_sleeping a)\<rparr>))"
| "spec (Allocate p) a = (if p = 0 then a else a\<lparr>o_blocks := insert p (o_blocks a)\<rparr>)"
| "spec (Create t) a = (if t = 0 then a else a\<lparr>o_ready := o_ready a @ [t], o_threads := insert t (o_threads a)\<rparr>)"
| "spec (Exit b) a = spec_exit b a"
| "spec (Open h n) a = (if h = 0 then a else spec_open h n a)"
| "spec (Close h) a = spec_close h a"
| "spec Ignored a = a"

text \<open>
  What user programs may ask. The kernel's own thread makes no call that blocks; semaphores are used while
  they are open, and are signalled by those that hold them; a thread exits when it holds none, and its
  stack is memory that was allocated for it.
\<close>

fun allowed :: "event \<Rightarrow> os \<Rightarrow> bool" where
  "allowed (Wait h) a \<longleftrightarrow> h \<in> o_sems a \<and> o_current a \<noteq> o_idle a \<and> o_current a \<notin> o_holders a h"
| "allowed (Signal h) a \<longleftrightarrow> h \<in> o_sems a \<and> o_current a \<in> o_holders a h"
| "allowed Idle a \<longleftrightarrow> o_current a = o_idle a"
| "allowed (Read_char b) a \<longleftrightarrow> o_current a \<noteq> o_idle a"
| "allowed (Sleep w) a \<longleftrightarrow> o_current a \<noteq> o_idle a"
| "allowed (Exit b) a \<longleftrightarrow> o_current a \<noteq> o_idle a \<and> b \<in> o_blocks a \<and> (\<forall>h \<in> o_sems a. o_current a \<notin> o_holders a h)"
| "allowed (Open h n) a \<longleftrightarrow> n < 2147483648"
| "allowed (Close h) a \<longleftrightarrow> h \<in> o_sems a"
| "allowed e a \<longleftrightarrow> True"

fun fresh :: "event \<Rightarrow> os \<Rightarrow> bool" where
  "fresh (Create t) a \<longleftrightarrow> t = 0 \<or> t \<notin> insert (o_idle a) (o_threads a)"
| "fresh (Open h n) a \<longleftrightarrow> h = 0 \<or> h \<notin> o_sems a"
| "fresh e a \<longleftrightarrow> True"

section \<open>The invariant\<close>

text \<open>All threads, each as often as it is somewhere.\<close>

definition queued :: "u64 set \<Rightarrow> (u64 \<Rightarrow> u64 list) \<Rightarrow> u64 multiset" where
  "queued S W = (\<Sum>h \<in> S. mset (W h))"

definition blocked :: "os \<Rightarrow> u64 multiset" where
  "blocked a = mset (o_input a) + mset (map snd (o_sleeping a)) + queued (o_sems a) (o_waiting a)"

definition everyone :: "os \<Rightarrow> u64 multiset" where
  "everyone a = add_mset (o_current a) (mset (o_ready a) + blocked a)"

definition semaphore_ok :: "os \<Rightarrow> u64 \<Rightarrow> bool" where
  "semaphore_ok a h \<longleftrightarrow> o_holders a h \<subseteq> o_threads a - set (o_waiting a h) \<and> card (o_holders a h) \<le> o_limit a h
     \<and> (o_waiting a h \<noteq> [] \<longrightarrow> card (o_holders a h) = o_limit a h)
     \<and> o_permits a h = int (o_limit a h) - int (card (o_holders a h)) - int (length (o_waiting a h))
     \<and> o_limit a h < 2147483648"

text \<open>\<open>M\<close> are the threads that are somewhere; in between it may lack the running one.\<close>

definition os_ok_with :: "u64 multiset \<Rightarrow> os \<Rightarrow> bool" where
  "os_ok_with M a \<longleftrightarrow> (\<forall>t. count M t \<le> 1) \<and> set_mset M - {o_idle a} = o_threads a
     \<and> o_idle a \<notin># blocked a \<and> o_idle a \<notin> o_threads a \<and> finite (o_sems a)
     \<and> (\<forall>h \<in> o_sems a. semaphore_ok a h)
     \<and> sorted (map fst (o_sleeping a)) \<and> (\<forall>e \<in> set (o_sleeping a). 0 < fst e)"

definition os_ok :: "os \<Rightarrow> bool" where
  "os_ok a \<longleftrightarrow> os_ok_with (everyone a) a"

section \<open>The invariant is kept\<close>

lemma queued_split: "finite S \<Longrightarrow> h \<in> S \<Longrightarrow> queued S W = mset (W h) + queued (S - {h}) W"
  unfolding queued_def by (rule sum.remove)

lemma queued_other [simp]: "h \<notin> S \<Longrightarrow> queued S (W(h := x)) = queued S W"
  unfolding queued_def by (rule sum.cong) auto

lemma queued_upd: "finite S \<Longrightarrow> h \<in> S \<Longrightarrow> queued S (W(h := x)) = mset x + queued (S - {h}) W"
  using queued_split [of S h "W(h := x)"] by simp

lemma run_next_simps [simp]:
  "o_idle (run_next a) = o_idle a" "o_input (run_next a) = o_input a" "o_sleeping (run_next a) = o_sleeping a"
  "o_waiting (run_next a) = o_waiting a" "o_permits (run_next a) = o_permits a" "o_limit (run_next a) = o_limit a"
  "o_holders (run_next a) = o_holders a" "o_threads (run_next a) = o_threads a" "o_sems (run_next a) = o_sems a"
  "o_blocks (run_next a) = o_blocks a" "blocked (run_next a) = blocked a"
  "o_ready (run_next a) = tl (o_ready a)" "semaphore_ok (run_next a) h = semaphore_ok a h"
  "o_current (run_next a) = (if o_ready a = [] then o_idle a else hd (o_ready a))"
  by (auto simp: run_next_def blocked_def semaphore_ok_def split: list.splits)

lemma run_next_ok:
  assumes "os_ok_with (mset (o_ready a) + blocked a) a"
  shows "os_ok (run_next a)"
proof (cases "o_ready a")
  case Nil
  then have e: "everyone (run_next a) = add_mset (o_idle a) (blocked a)"
    by (simp add: everyone_def run_next_def blocked_def)
  have "count (blocked a) t \<le> 1" "count (blocked a) (o_idle a) = 0" for t
    using assms Nil by (simp_all add: os_ok_with_def not_in_iff)
  then have "\<forall>t. count (everyone (run_next a)) t \<le> 1" unfolding e by simp
  then show ?thesis using assms Nil unfolding os_ok_def os_ok_with_def by (simp add: e)
next
  case (Cons t ts)
  then have e: "everyone (run_next a) = mset (o_ready a) + blocked a"
    by (simp add: everyone_def run_next_def blocked_def)
  show ?thesis using assms unfolding os_ok_def os_ok_with_def by (simp add: e)
qed

text \<open>What two states have in common when threads have moved.\<close>

lemma os_ok_withI:
  assumes "os_ok_with M a" and "N = M" and "o_threads b = o_threads a" and "o_idle b = o_idle a" and "o_sems b = o_sems a"
    and "o_idle a \<notin># blocked b" and "\<And>h. h \<in> o_sems a \<Longrightarrow> semaphore_ok a h \<Longrightarrow> semaphore_ok b h"
    and "sorted (map fst (o_sleeping b))" and "\<forall>e \<in> set (o_sleeping b). 0 < fst e"
  shows "os_ok_with N b"
  using assms by (simp add: os_ok_with_def)

lemma os_ok_withD:
  assumes "os_ok_with M a"
  shows "\<And>t. count M t \<le> 1" and "set_mset M - {o_idle a} = o_threads a" and "o_idle a \<notin># blocked a"
    and "o_idle a \<notin> o_threads a" and "finite (o_sems a)" and "\<And>h. h \<in> o_sems a \<Longrightarrow> semaphore_ok a h"
    and "sorted (map fst (o_sleeping a))" and "\<And>e. e \<in> set (o_sleeping a) \<Longrightarrow> 0 < fst e" and "finite (o_threads a)"
  using assms by (auto simp: os_ok_with_def dest: sym [of _ "o_threads a"])

lemmas os_okD = os_ok_withD [OF os_ok_def [THEN iffD1]]

lemma hand_over_ok:
  assumes "os_ok a"
  shows "os_ok (hand_over a)"
  unfolding hand_over_def
proof (rule run_next_ok, rule os_ok_withI [OF assms [unfolded os_ok_def]])
  let ?b = "a\<lparr>o_ready := o_ready a @ [o_current a]\<rparr>"
  show "mset (o_ready ?b) + blocked ?b = everyone a" by (simp add: everyone_def blocked_def)
qed (use os_okD [OF assms] in \<open>auto simp: blocked_def semaphore_ok_def\<close>)

text \<open>A thread is in one place.\<close>

lemma current_elsewhere:
  assumes "os_ok a"
  shows "o_current a \<notin> set (o_ready a)" and "o_current a \<notin># blocked a" and "o_current a \<notin> set (o_input a)"
    and "o_current a \<notin> snd ` set (o_sleeping a)" and "h \<in> o_sems a \<Longrightarrow> o_current a \<notin> set (o_waiting a h)"
    and "o_current a \<noteq> o_idle a \<Longrightarrow> o_current a \<in> o_threads a"
proof -
  have "count (mset (o_ready a) + blocked a) (o_current a) = 0"
    using os_okD(1) [OF assms, of "o_current a"] by (simp add: everyone_def)
  then show r: "o_current a \<notin> set (o_ready a)" and b: "o_current a \<notin># blocked a"
    by (simp_all add: count_eq_zero_iff)
  show "o_current a \<notin> set (o_input a)" "o_current a \<notin> snd ` set (o_sleeping a)" using b by (auto simp: blocked_def)
  show "o_current a \<notin> set (o_waiting a h)" if "h \<in> o_sems a"
    using b queued_split [OF os_okD(5) [OF assms] that, of "o_waiting a"] by (auto simp: blocked_def)
  show "o_current a \<in> o_threads a" if "o_current a \<noteq> o_idle a"
    using os_okD(2) [OF assms] that by (auto simp: everyone_def)
qed

lemma waiting_thread:
  assumes "os_ok a" and "h \<in> o_sems a"
  shows "t \<in> set (o_waiting a h) \<Longrightarrow> t \<in> o_threads a" and "distinct (o_waiting a h)"
proof -
  note q = queued_split [OF os_okD(5) [OF assms(1)] assms(2), of "o_waiting a"]
  show "t \<in> o_threads a" if "t \<in> set (o_waiting a h)"
  proof -
    have "t \<in># blocked a" using q that by (simp add: blocked_def)
    then show ?thesis using os_okD(2,3) [OF assms(1)] by (auto simp: everyone_def)
  qed
  have "mset (o_waiting a h) \<subseteq># everyone a" using q by (simp add: everyone_def blocked_def subset_mset.add_increasing)
  then have "count (mset (o_waiting a h)) x \<le> 1" for x
    using os_okD(1) [OF assms(1), of x] mset_subset_eq_count [of _ _ x] le_trans by blast
  then show "distinct (o_waiting a h)"
    by (auto simp: distinct_count_atmost_1 le_Suc_eq count_eq_zero_iff)
qed

text \<open>Permits.\<close>

lemma semaphore_take:
  assumes "semaphore_ok a h" and "0 < o_permits a h" and "c \<in> o_threads a" and "c \<notin> o_holders a h"
    and "finite (o_threads a)"
  shows "o_waiting a h = []" and "semaphore_ok (a\<lparr>o_permits := (o_permits a)(h := o_permits a h - 1),
      o_holders := (o_holders a)(h := insert c (o_holders a h))\<rparr>) h"
proof -
  show w: "o_waiting a h = []" using assms(1,2) by (cases "o_waiting a h") (auto simp: semaphore_ok_def)
  have "finite (o_holders a h)" using assms(1,5) by (auto simp: semaphore_ok_def intro: finite_subset)
  then show "semaphore_ok (a\<lparr>o_permits := (o_permits a)(h := o_permits a h - 1),
      o_holders := (o_holders a)(h := insert c (o_holders a h))\<rparr>) h"
    using assms w by (simp add: semaphore_ok_def)
qed

lemma semaphore_block:
  assumes "semaphore_ok a h" and "o_permits a h \<le> 0" and "c \<notin> o_holders a h"
  shows "semaphore_ok (a\<lparr>o_permits := (o_permits a)(h := o_permits a h - 1),
      o_waiting := (o_waiting a)(h := o_waiting a h @ [c])\<rparr>) h"
  using assms by (cases "o_waiting a h") (auto simp: semaphore_ok_def)

lemma semaphore_release:
  assumes "semaphore_ok a h" and "o_waiting a h = []" and "c \<in> o_holders a h" and "finite (o_threads a)"
  shows "semaphore_ok (a\<lparr>o_permits := (o_permits a)(h := o_permits a h + 1),
      o_holders := (o_holders a)(h := o_holders a h - {c})\<rparr>) h" and "0 \<le> o_permits a h"
    and "o_permits a h < int (o_limit a h)"
proof -
  have "finite (o_holders a h)" using assms(1,4) by (auto simp: semaphore_ok_def intro: finite_subset)
  then have "card (o_holders a h - {c}) = card (o_holders a h) - 1" "0 < card (o_holders a h)"
    using assms(3) by (auto simp: card_gt_0_iff)
  then show "semaphore_ok (a\<lparr>o_permits := (o_permits a)(h := o_permits a h + 1),
      o_holders := (o_holders a)(h := o_holders a h - {c})\<rparr>) h" "0 \<le> o_permits a h"
    "o_permits a h < int (o_limit a h)"
    using assms(1,2) by (auto simp: semaphore_ok_def)
qed

lemma semaphore_pass:
  assumes "semaphore_ok a h" and "o_waiting a h = t # ts" and "c \<in> o_holders a h" and "finite (o_threads a)"
    and "t \<in> o_threads a" and "distinct (o_waiting a h)"
  shows "semaphore_ok (a\<lparr>o_permits := (o_permits a)(h := o_permits a h + 1), o_waiting := (o_waiting a)(h := ts),
      o_holders := (o_holders a)(h := insert t (o_holders a h - {c}))\<rparr>) h" and "o_permits a h < 0"
proof -
  have f: "finite (o_holders a h)" and t: "t \<notin> o_holders a h"
    using assms(1,2,4) by (auto simp: semaphore_ok_def intro: finite_subset)
  have "card (insert t (o_holders a h - {c})) = Suc (card (o_holders a h - {c}))"
    using f t by (intro card_insert_disjoint) auto
  with card_Suc_Diff1 [OF f assms(3)] have "card (insert t (o_holders a h - {c})) = card (o_holders a h)" by simp
  then show "semaphore_ok (a\<lparr>o_permits := (o_permits a)(h := o_permits a h + 1), o_waiting := (o_waiting a)(h := ts),
      o_holders := (o_holders a)(h := insert t (o_holders a h - {c}))\<rparr>) h" "o_permits a h < 0"
    using assms by (auto simp: semaphore_ok_def)
qed

text \<open>Only what concerns the semaphore itself matters to it.\<close>

lemma semaphore_ok_cong:
  assumes "o_threads b = o_threads a" and "o_waiting b h = o_waiting a h" and "o_holders b h = o_holders a h"
    and "o_permits b h = o_permits a h" and "o_limit b h = o_limit a h"
  shows "semaphore_ok b h = semaphore_ok a h"
  using assms by (simp add: semaphore_ok_def)

lemma wait_ok:
  assumes w: "os_ok a" and "allowed (Wait h) a"
  shows "os_ok (spec_wait h a)"
proof -
  let ?c = "o_current a"
  have h: "h \<in> o_sems a" "?c \<noteq> o_idle a" "?c \<notin> o_holders a h" using assms(2) by simp_all
  note d = os_okD [OF w] and c = current_elsewhere [OF w]
  show ?thesis
  proof (cases "0 < o_permits a h")
    case True
    note t = semaphore_take [OF d(6) [OF h(1)] True c(6) [OF h(2)] h(3) d(9)]
    let ?b = "a\<lparr>o_permits := (o_permits a)(h := o_permits a h - 1), o_holders := (o_holders a)(h := insert ?c (o_holders a h))\<rparr>"
    have "semaphore_ok ?b k" if "semaphore_ok a k" for k
      using that t(2) semaphore_ok_cong [of ?b a k] by (cases "k = h") simp_all
    then have "os_ok ?b"
      unfolding os_ok_def by (intro os_ok_withI [OF w [unfolded os_ok_def]]) (use d in \<open>simp_all add: everyone_def blocked_def\<close>)
    then show ?thesis using True by (simp add: spec_wait_def Let_def)
  next
    case False
    let ?b = "a\<lparr>o_permits := (o_permits a)(h := o_permits a h - 1), o_waiting := (o_waiting a)(h := o_waiting a h @ [?c])\<rparr>"
    have b: "blocked ?b = add_mset ?c (blocked a)"
      using queued_split [OF d(5) h(1), of "o_waiting a"] queued_upd [OF d(5) h(1)] by (simp add: blocked_def)
    have "semaphore_ok ?b k" if "semaphore_ok a k" for k
      using that semaphore_block [of a h ?c] False h(3) semaphore_ok_cong [of ?b a k] by (cases "k = h") simp_all
    then have "os_ok_with (mset (o_ready ?b) + blocked ?b) ?b"
      by (intro os_ok_withI [OF w [unfolded os_ok_def]]) (use d h b in \<open>simp_all add: everyone_def\<close>)
    from run_next_ok [OF this] False show ?thesis by (simp add: spec_wait_def Let_def)
  qed
qed

lemma signal_ok:
  assumes w: "os_ok a" and "allowed (Signal h) a"
  shows "os_ok (spec_signal h a)"
proof -
  let ?c = "o_current a"
  have h: "h \<in> o_sems a" "?c \<in> o_holders a h" using assms(2) by simp_all
  note d = os_okD [OF w]
  note s = d(6) [OF h(1)]
  show ?thesis
  proof (cases "o_waiting a h")
    case Nil
    let ?b = "a\<lparr>o_permits := (o_permits a)(h := o_permits a h + 1), o_holders := (o_holders a)(h := o_holders a h - {?c})\<rparr>"
    have "semaphore_ok ?b k" if "semaphore_ok a k" for k
      using that semaphore_release(1) [OF s Nil h(2) d(9)] semaphore_ok_cong [of ?b a k] by (cases "k = h") simp_all
    then have "os_ok ?b"
      unfolding os_ok_def by (intro os_ok_withI [OF w [unfolded os_ok_def]]) (use d in \<open>simp_all add: everyone_def blocked_def\<close>)
    then show ?thesis using Nil by (simp add: spec_signal_def Let_def)
  next
    case (Cons t ts)
    let ?a = "a\<lparr>o_permits := (o_permits a)(h := o_permits a h + 1), o_waiting := (o_waiting a)(h := ts),
      o_holders := (o_holders a)(h := insert t (o_holders a h - {?c}))\<rparr>"
    let ?b = "?a\<lparr>o_ready := o_ready a @ [t]\<rparr>"
    have q: "blocked a = add_mset t (blocked ?b)"
      using queued_split [OF d(5) h(1), of "o_waiting a"] queued_upd [OF d(5) h(1)] Cons by (simp add: blocked_def)
    have t: "t \<in> o_threads a" "distinct (o_waiting a h)" using waiting_thread [OF w h(1)] Cons by simp_all
    have "semaphore_ok ?b k" if "semaphore_ok a k" for k
      using that semaphore_pass(1) [OF s Cons h(2) d(9) t] semaphore_ok_cong [of ?b ?a k] semaphore_ok_cong [of ?b a k]
      by (cases "k = h") simp_all
    moreover have "everyone ?b = everyone a" using q by (simp add: everyone_def)
    moreover have "o_idle a \<notin># blocked ?b" using d(3) q by auto
    ultimately have "os_ok ?b"
      unfolding os_ok_def by (intro os_ok_withI [OF w [unfolded os_ok_def]]) (use d in simp_all)
    moreover have "spec_signal h a = ?b" using Cons by (simp add: spec_signal_def Let_def)
    ultimately show ?thesis by simp
  qed
qed

text \<open>The timer.\<close>

lemma due_ticked: "mset es = mset (due es) + mset (dropWhile (\<lambda>e. fst e = 1) es)"
  unfolding due_def by (metis mset_append takeWhile_dropWhile_id)

lemma mset_due: "image_mset snd (mset es) = image_mset snd (mset (due es)) + image_mset snd (mset (ticked es))"
  by (subst due_ticked) (simp add: ticked_def image_mset.compositionality o_def)

lemma ticked_late:
  assumes "sorted (map fst es)" and "\<forall>e \<in> set es. (0 :: nat) < fst e" and "e \<in> set (dropWhile (\<lambda>e. fst e = 1) es)"
  shows "1 < fst e"
  using assms by (induction es) (auto split: if_splits simp: less_eq_Suc_le)

lemma ticked_sorted:
  assumes "sorted (map fst es)" and "\<forall>e \<in> set es. (0 :: nat) < fst e"
  shows "sorted (map fst (ticked es))" and "\<forall>e \<in> set (ticked es). 0 < fst e"
proof -
  show "\<forall>e \<in> set (ticked es). 0 < fst e" using ticked_late [OF assms] by (auto simp: ticked_def)
  have "sorted (map fst (dropWhile (\<lambda>e. fst e = 1) es))"
    using assms(1) by (metis dropWhile_eq_drop drop_map sorted_wrt_drop)
  then have "sorted (map (\<lambda>n. n - 1) (map fst (dropWhile (\<lambda>e. fst e = 1) es)))"
    by (simp add: sorted_map sorted_wrt_map) (erule sorted_wrt_mono_rel [rotated], simp)
  then show "sorted (map fst (ticked es))" by (simp add: ticked_def o_def)
qed

lemma wake_ok:
  assumes w: "os_ok a"
  shows "os_ok (spec_wake a)"
proof -
  note d = os_okD [OF w]
  let ?b = "spec_wake a"
  have e: "everyone ?b = everyone a"
    using mset_due [of "o_sleeping a"] by (simp add: everyone_def blocked_def spec_wake_def)
  have "blocked a = blocked ?b + image_mset snd (mset (due (o_sleeping a)))"
    using mset_due [of "o_sleeping a"] by (simp add: blocked_def spec_wake_def)
  then have i: "o_idle a \<notin># blocked ?b" using d(3) by auto
  have "\<forall>e \<in> set (o_sleeping a). 0 < fst e" using d(8) by blast
  note t = ticked_sorted [OF d(7) this]
  show ?thesis
    unfolding os_ok_def e
    by (rule os_ok_withI [OF w [unfolded os_ok_def] refl _ _ _ i])
       (simp_all add: spec_wake_def semaphore_ok_def t)
qed

lemma device_ok:
  assumes w: "os_ok a"
  shows "os_ok (spec (Device n) a)"
proof -
  note d = os_okD [OF w]
  let ?b = "spec (Device n) a"
  define xs ys where "xs = take n (o_input a)" and "ys = drop n (o_input a)"
  have i: "o_input a = xs @ ys" by (simp add: xs_def ys_def)
  have b: "?b = a\<lparr>o_ready := o_ready a @ xs, o_input := ys\<rparr>" by (simp add: xs_def ys_def)
  have e: "everyone ?b = everyone a" unfolding b everyone_def blocked_def i by simp
  have "o_idle a \<notin># blocked ?b" using d(3) unfolding b blocked_def i by simp
  then show ?thesis
    unfolding os_ok_def e by (intro os_ok_withI [OF w [unfolded os_ok_def] refl]) (use d(7,8) in \<open>simp_all add: b semaphore_ok_def\<close>)
qed

text \<open>The running thread blocks elsewhere.\<close>

lemma leave_ok:
  assumes w: "os_ok a" and b: "blocked b = add_mset (o_current a) (blocked a)" and c: "o_current a \<noteq> o_idle a"
    and s: "o_ready b = o_ready a" "o_threads b = o_threads a" "o_idle b = o_idle a" "o_sems b = o_sems a"
      "o_waiting b = o_waiting a" "o_holders b = o_holders a" "o_permits b = o_permits a" "o_limit b = o_limit a"
    and "sorted (map fst (o_sleeping b))" and "\<forall>e \<in> set (o_sleeping b). 0 < fst e"
  shows "os_ok (run_next b)"
proof (rule run_next_ok, rule os_ok_withI [OF w [unfolded os_ok_def]])
  show "mset (o_ready b) + blocked b = everyone a" by (simp add: everyone_def b s)
  show "o_idle a \<notin># blocked b" using os_okD(3) [OF w] c b by simp
qed (use assms in \<open>simp_all add: semaphore_ok_def\<close>)

lemma read_ok:
  assumes w: "os_ok a" and "allowed (Read_char b) a"
  shows "os_ok (spec (Read_char b) a)"
proof (cases b)
  case True
  let ?b = "a\<lparr>o_input := o_input a @ [o_current a]\<rparr>"
  have "os_ok (run_next ?b)"
    by (rule leave_ok [OF w]) (use assms(2) os_okD(7,8) [OF w] in \<open>simp_all add: blocked_def\<close>)
  then show ?thesis using True by simp
qed (use w in simp)

lemma sorted_insert_wake:
  assumes "sorted (map fst es)"
  shows "sorted (map fst (insert_wake x es))"
proof (cases es)
  case (Cons e rs)
  let ?P = "\<lambda>e. fst e < fst x"
  have s: "sorted (map fst rs)" "\<forall>r \<in> set rs. fst e \<le> fst r" using assms Cons by auto
  have d: "\<forall>r \<in> set (dropWhile ?P rs). fst x \<le> fst r"
    using s(1) by (induction rs) (auto simp: not_less intro: le_trans)
  have "sorted (map fst (takeWhile ?P rs) @ map fst (dropWhile ?P rs))"
    using s(1) by (simp flip: map_append)
  then have "sorted (map fst (insert_rest x rs))"
    using d by (auto simp: insert_rest_def sorted_append dest: set_takeWhileD)
  moreover have "\<forall>r \<in> set (insert_rest x rs). r = x \<or> r \<in> set rs"
    by (auto simp: insert_rest_def dest: set_takeWhileD set_dropWhileD)
  ultimately show ?thesis using assms s(2) Cons by fastforce
qed simp

lemma spec_sleep_ok:
  assumes w: "os_ok a" and "allowed (Sleep n) a"
  shows "os_ok (spec (Sleep n) a)"
proof (cases "n = 0")
  case False
  let ?b = "a\<lparr>o_sleeping := insert_wake (n, o_current a) (o_sleeping a)\<rparr>"
  have "mset (o_sleeping ?b) = add_mset (n, o_current a) (mset (o_sleeping a))" by (simp add: mset_insert_wake)
  then have b: "blocked ?b = add_mset (o_current a) (blocked a)" by (simp add: blocked_def)
  have "set (o_sleeping ?b) = insert (n, o_current a) (set (o_sleeping a))"
    using arg_cong [OF mset_insert_wake [of "(n, o_current a)" "o_sleeping a"], of set_mset] by simp
  then have "\<forall>e \<in> set (o_sleeping ?b). 0 < fst e" using False os_okD(8) [OF w] by auto
  moreover have "sorted (map fst (o_sleeping ?b))" using os_okD(7) [OF w] sorted_insert_wake by simp
  ultimately have "os_ok (run_next ?b)" by (intro leave_ok [OF w b]) (use assms(2) in simp_all)
  then show ?thesis using False by simp
qed (use w in simp)

text \<open>Opening and closing a semaphore, creating a thread and leaving.\<close>

lemma open_ok:
  assumes w: "os_ok a" and "allowed (Open h n) a" and "h \<notin> o_sems a"
  shows "os_ok (spec_open h n a)"
proof -
  note d = os_okD [OF w]
  let ?b = "spec_open h n a"
  have h: "h \<notin> o_sems a" "n < 2147483648" using assms(2,3) by simp_all
  have "queued (insert h (o_sems a)) ((o_waiting a)(h := [])) = queued (o_sems a) (o_waiting a)"
    using queued_upd [of "insert h (o_sems a)" h "o_waiting a" "[]"] d(5) h(1) by simp
  then have "blocked ?b = blocked a" by (simp add: blocked_def spec_open_def)
  moreover from this have "everyone ?b = everyone a" by (simp add: everyone_def spec_open_def)
  moreover have "semaphore_ok ?b k" if "k \<in> o_sems ?b" for k
  proof (cases "k = h")
    case False
    then have "semaphore_ok ?b k = semaphore_ok a k" by (intro semaphore_ok_cong) (simp_all add: spec_open_def)
    then show ?thesis using that False d(6) by (simp add: spec_open_def)
  qed (use h(2) in \<open>simp add: semaphore_ok_def spec_open_def\<close>)
  ultimately show ?thesis
    using w unfolding os_ok_def os_ok_with_def by (simp add: spec_open_def)
qed

lemma close_ok:
  assumes w: "os_ok a" and "allowed (Close h) a"
  shows "os_ok (spec_close h a)"
proof -
  note d = os_okD [OF w]
  let ?b = "spec_close h a"
  have h: "h \<in> o_sems a" using assms(2) by simp
  have b: "blocked a = mset (o_waiting a h) + blocked ?b"
    using queued_split [OF d(5) h, of "o_waiting a"] by (simp add: blocked_def spec_close_def)
  then have e: "everyone ?b = everyone a" by (simp add: everyone_def spec_close_def)
  have "semaphore_ok ?b k" if "k \<in> o_sems ?b" for k
  proof -
    have "semaphore_ok ?b k = semaphore_ok a k"
      using that by (intro semaphore_ok_cong) (auto simp: spec_close_def)
    then show ?thesis using that d(6) by (simp add: spec_close_def)
  qed
  moreover have "o_idle a \<notin># blocked ?b" using d(3) b by auto
  ultimately show ?thesis
    using w e unfolding os_ok_def os_ok_with_def by (simp add: spec_close_def)
qed

lemma create_ok:
  assumes w: "os_ok a" and "fresh (Create t) a"
  shows "os_ok (spec (Create t) a)"
proof (cases "t = 0")
  case False
  note d = os_okD [OF w]
  let ?b = "spec (Create t) a"
  have t: "t \<noteq> o_idle a" "t \<notin> o_threads a" using assms(2) False by simp_all
  have e: "everyone ?b = add_mset t (everyone a)" "blocked ?b = blocked a"
    using False by (simp_all add: everyone_def blocked_def)
  have "t \<notin># everyone a" using t d(2) by auto
  then have "count (everyone a) t = 0" by (simp add: count_eq_zero_iff)
  then have "\<forall>x. count (everyone ?b) x \<le> 1" using d(1) unfolding e by simp
  moreover have "set_mset (everyone ?b) - {o_idle a} = insert t (o_threads a)" using d(2) t e by auto
  moreover have "semaphore_ok ?b k" if "k \<in> o_sems a" for k
    using d(6) [OF that] False by (auto simp: semaphore_ok_def)
  ultimately show ?thesis
    using False d t unfolding os_ok_def os_ok_with_def e by simp
qed (use w in simp)

lemma exit_ok:
  assumes w: "os_ok a" and "allowed (Exit b) a"
  shows "os_ok (spec_exit b a)"
proof -
  note d = os_okD [OF w] and c = current_elsewhere [OF w]
  let ?b = "a\<lparr>o_threads := o_threads a - {o_current a}, o_blocks := o_blocks a - {b}\<rparr>"
  have x: "o_current a \<noteq> o_idle a" "\<forall>h \<in> o_sems a. o_current a \<notin> o_holders a h" using assms(2) by simp_all
  let ?M = "mset (o_ready a) + blocked a"
  have e: "everyone a = add_mset (o_current a) ?M" by (simp add: everyone_def)
  have "count ?M t \<le> count (everyone a) t" for t unfolding e by simp
  then have "count ?M t \<le> 1" for t using d(1) le_trans by blast
  moreover have "set_mset ?M - {o_idle a} = o_threads a - {o_current a}"
    using d(2) c(1,2) x(1) unfolding e by auto
  moreover have "semaphore_ok ?b k" if "k \<in> o_sems a" for k
    using d(6) [OF that] x(2) that by (auto simp: semaphore_ok_def)
  moreover have "blocked ?b = blocked a" by (simp add: blocked_def)
  ultimately have "os_ok_with (mset (o_ready ?b) + blocked ?b) ?b"
    using d unfolding os_ok_with_def by simp
  then show ?thesis unfolding spec_exit_def by (rule run_next_ok)
qed

lemma idle_ok:
  assumes w: "os_ok a" and "allowed Idle a"
  shows "os_ok (run_next a)"
proof -
  note d = os_okD [OF w] and c = current_elsewhere [OF w]
  let ?M = "mset (o_ready a) + blocked a"
  have i: "o_current a = o_idle a" using assms(2) by simp
  have e: "everyone a = add_mset (o_idle a) ?M" using i by (simp add: everyone_def)
  have "count ?M t \<le> count (everyone a) t" for t unfolding e by simp
  then have "count ?M t \<le> 1" for t using d(1) le_trans by blast
  moreover have "set_mset ?M - {o_idle a} = o_threads a" using d(2) unfolding e by auto
  ultimately have "os_ok_with ?M a" using d unfolding os_ok_with_def by simp
  then show ?thesis by (rule run_next_ok)
qed

lemma spec_ok:
  assumes "os_ok a" and "allowed e a" and "fresh e a"
  shows "os_ok (spec e a)"
proof (cases e)
  case (Tick preempts)
  then show ?thesis using hand_over_ok wake_ok assms(1) by simp
next
  case (Allocate p)
  let ?b = "a\<lparr>o_blocks := insert p (o_blocks a)\<rparr>"
  have "os_ok ?b" unfolding os_ok_def
    by (rule os_ok_withI [OF assms(1) [unfolded os_ok_def]])
       (use os_okD [OF assms(1)] in \<open>simp_all add: everyone_def blocked_def semaphore_ok_def\<close>)
  then show ?thesis using Allocate assms(1) by simp
next
  case (Read_char b)
  then show ?thesis using read_ok assms by blast
next
  case (Sleep n)
  then show ?thesis using spec_sleep_ok assms by blast
next
  case (Device n)
  then show ?thesis using device_ok assms by blast
next
  case (Create t)
  then show ?thesis using create_ok assms by blast
qed (use assms wait_ok signal_ok hand_over_ok idle_ok exit_ok open_ok close_ok in auto)

end
