(* ===== verification/Places.thy ===== *)
theory Places
  imports Trap OS_Spec
begin

text \<open>
  Where the threads are in memory: the ready queue, the queue of threads waiting for input, the list of
  sleeping threads and the queues of the open semaphores are lists over one set of list nodes. The lemmas
  say how each operation moves threads between them and leaves the other lists alone; the proofs about the
  whole kernel rest on them.
\<close>

section \<open>Many queues over the same nodes\<close>

datatype place = Ready | Input | Asleep | Sem u64

definition lists_at :: "(place \<Rightarrow> u64) \<Rightarrow> nodes \<Rightarrow> place set \<Rightarrow> (place \<Rightarrow> u64 list) \<Rightarrow> bool" where
  "lists_at hs ns Q f \<longleftrightarrow> (\<forall>p \<in> Q. thread_queue_at ns (hs p) (f p))
     \<and> (\<forall>p \<in> Q. \<forall>q \<in> Q. p \<noteq> q \<longrightarrow> set (f p) \<inter> set (f q) = {})"

text \<open>A thread whose node is in no list.\<close>

definition unplaced :: "u64 \<Rightarrow> place set \<Rightarrow> (place \<Rightarrow> u64 list) \<Rightarrow> bool" where
  "unplaced t Q f \<longleftrightarrow> (\<forall>p \<in> Q. t \<notin> set (f p)) \<and> thread_node t \<noteq> 0"

lemma queue_beside_push:
  assumes "thread_queue_at ns p xs" and "thread_queue_at ns q ys"
    and "\<And>y. y \<in> set ys \<Longrightarrow> y \<notin> set xs \<and> y \<noteq> t"
  shows "thread_queue_at (snd (ring_push p (thread_node t) ns)) q ys"
proof -
  have "snd (ring_push p (thread_node t) ns) (thread_node y) = ns (thread_node y)" if "y \<in> set ys" for y
    using assms(3) [OF that] by (intro ring_push_frame [OF assms(1) [unfolded thread_queue_at_def]]) auto
  then show ?thesis
    using assms(2) thread_queue_cong [of ys "snd (ring_push p (thread_node t) ns)" ns q] by blast
qed

lemma queue_beside_pop:
  assumes "thread_queue_at ns p (x # xs)" and "thread_queue_at ns q ys"
    and "\<And>y. y \<in> set ys \<Longrightarrow> y \<notin> set (x # xs)"
  shows "thread_queue_at (snd (ring_pop p ns)) q ys"
proof -
  have "snd (ring_pop p ns) (thread_node y) = ns (thread_node y)" if "y \<in> set ys" for y
    using assms(3) [OF that] by (intro ring_pop_frame [OF assms(1) [unfolded thread_queue_at_def]]) auto
  then show ?thesis using assms(2) thread_queue_cong [of ys "snd (ring_pop p ns)" ns q] by blast
qed

lemma lists_atD:
  assumes "lists_at hs ns Q f" and "p \<in> Q"
  shows "thread_queue_at ns (hs p) (f p)" and "q \<in> Q \<Longrightarrow> q \<noteq> p \<Longrightarrow> x \<in> set (f q) \<Longrightarrow> x \<notin> set (f p)"
    and "distinct (f p)"
  using assms by (auto simp: lists_at_def dest: thread_queue_distinct)

text \<open>Pushing onto one list and popping from one.\<close>

lemma lists_push:
  assumes l: "lists_at hs ns Q f" and p: "p \<in> Q" and u: "unplaced t Q f"
  shows "lists_at (hs(p := fst (ring_push (hs p) (thread_node t) ns))) (snd (ring_push (hs p) (thread_node t) ns))
    Q (f(p := f p @ [t]))"
proof -
  note d = lists_atD [OF l]
  have "thread_queue_at (snd (ring_push (hs p) (thread_node t) ns)) (hs q) (f q)" if "q \<in> Q" "q \<noteq> p" for q
    by (rule queue_beside_push [OF d(1) [OF p] d(1) [OF that(1)]])
       (use d(2) [OF p that] u that(1) in \<open>auto simp: unplaced_def\<close>)
  moreover have "thread_queue_at (snd (ring_push (hs p) (thread_node t) ns))
      (fst (ring_push (hs p) (thread_node t) ns)) (f p @ [t])"
    using thread_queue_push [OF d(1) [OF p]] u p by (simp add: unplaced_def)
  moreover have "set (f q) \<inter> set (f r) = {}" if "q \<in> Q" "r \<in> Q" "q \<noteq> r" for q r
    using d(2) [OF that(1,2)] that by blast
  ultimately show ?thesis using u p by (auto simp: lists_at_def unplaced_def)
qed

lemma lists_pop:
  assumes l: "lists_at hs ns Q f" and p: "p \<in> Q" and f: "f p = t # ts"
  shows "lists_at (hs(p := fst (ring_pop (hs p) ns))) (snd (ring_pop (hs p) ns)) Q (f(p := ts))"
    and "node_thread (hs p) = t" and "unplaced t Q (f(p := ts))"
proof -
  note d = lists_atD [OF l]
  note e = d(1) [OF p, unfolded f]
  have "thread_queue_at (snd (ring_pop (hs p) ns)) (hs q) (f q)" if "q \<in> Q" "q \<noteq> p" for q
    by (rule queue_beside_pop [OF e d(1) [OF that(1)]]) (use d(2) [OF p that] f in auto)
  moreover have "set (f q) \<inter> set (f r) = {}" if "q \<in> Q" "r \<in> Q" "q \<noteq> r" for q r
    using d(2) [OF that(1,2)] that by blast
  ultimately show "lists_at (hs(p := fst (ring_pop (hs p) ns))) (snd (ring_pop (hs p) ns)) Q (f(p := ts))"
    using thread_queue_pop(2) [OF e] f p by (fastforce simp: lists_at_def)
  show "node_thread (hs p) = t" by (rule thread_queue_pop(1) [OF e])
  have "thread_node t \<noteq> 0" using e by (auto simp: thread_queue_at_def queue_def split: if_splits)
  then show "unplaced t Q (f(p := ts))" using d(2,3) p f by (fastforce simp: unplaced_def)
qed

lemma lists_sub: "lists_at hs ns Q f \<Longrightarrow> R \<subseteq> Q \<Longrightarrow> lists_at hs ns R f"
  unfolding lists_at_def by (simp add: subset_iff)

lemma lists_cong:
  assumes "\<And>p. p \<in> Q \<Longrightarrow> hs' p = hs p" and "\<And>p. p \<in> Q \<Longrightarrow> f' p = f p"
  shows "lists_at hs' ns Q f' = lists_at hs ns Q f"
  using assms by (simp add: lists_at_def)

text \<open>Nodes outside the lists do not matter.\<close>

lemma lists_frame:
  assumes "lists_at hs ns Q f" and "\<And>p t. p \<in> Q \<Longrightarrow> t \<in> set (f p) \<Longrightarrow> ns' (thread_node t) = ns (thread_node t)"
  shows "lists_at hs ns' Q f"
proof -
  have "thread_queue_at ns' (hs p) (f p)" if "p \<in> Q" for p
    using lists_atD(1) [OF assms(1) that] thread_queue_cong [of "f p" ns' ns "hs p"] assms(2) [OF that] by blast
  then show ?thesis using assms(1) by (simp add: lists_at_def)
qed

section \<open>The lists of the kernel\<close>

text \<open>The list node of a sleeping thread's entry lies where the node of a thread structure at \<open>slot\<close> would lie,
  so that the list of sleeping threads is a queue like the others.\<close>

definition slot :: "u64 \<Rightarrow> u64" where
  "slot p = node_thread (sleeper_node p)"

lemma slot_node [simp]: "thread_node (slot p) = sleeper_node p"
  by (simp add: slot_def)

lemma slot_eq [simp]: "slot p = slot q \<longleftrightarrow> p = q"
  by (metis node_sleeper_node slot_node)

lemma sleepers_slots: "sleepers s ps \<longleftrightarrow> thread_queue_at (list_nodes s) (sleeping_threads (sched s)) (map slot ps)"
  by (simp add: sleepers_def thread_queue_at_def o_def)

fun head :: "kernel \<Rightarrow> place \<Rightarrow> u64" where
  "head s Ready = ready_threads (sched s)"
| "head s Input = threads_waiting_for_input s"
| "head s Asleep = sleeping_threads (sched s)"
| "head s (Sem h) = sem_waiting (sems s h)"

definition places_of :: "u64 set \<Rightarrow> place set" where
  "places_of S = {Ready, Input, Asleep} \<union> Sem ` S"

lemma places_of_simps [simp]:
  "Ready \<in> places_of S" "Input \<in> places_of S" "Asleep \<in> places_of S" "Sem h \<in> places_of S \<longleftrightarrow> h \<in> S"
  by (auto simp: places_of_def)

lemma unplacedD:
  assumes "unplaced t (places_of S) f"
  shows "t \<notin> set (f Ready)" and "t \<notin> set (f Input)" and "t \<notin> set (f Asleep)" and "h \<in> S \<Longrightarrow> t \<notin> set (f (Sem h))"
    and "thread_node t \<noteq> 0"
  using assms places_of_simps unfolding unplaced_def by blast+

definition places :: "u64 set \<Rightarrow> kernel \<Rightarrow> (place \<Rightarrow> u64 list) \<Rightarrow> bool" where
  "places S s f \<longleftrightarrow> lists_at (head s) (list_nodes s) (places_of S) f"

lemma place_eqI: "f Ready = g Ready \<Longrightarrow> f Input = g Input \<Longrightarrow> f Asleep = g Asleep \<Longrightarrow> (\<And>h. f (Sem h) = g (Sem h)) \<Longrightarrow> f = g"
  by (rule ext) (case_tac x; simp)

lemma places_views:
  assumes "places S s f"
  shows "ready_queue s (f Ready)" and "input_queue s (f Input)" and "h \<in> S \<Longrightarrow> waiting_at h s (f (Sem h))"
    and "f Asleep = map slot ps \<Longrightarrow> sleepers s ps"
proof -
  note d = lists_atD(1) [OF assms [unfolded places_def]]
  show "ready_queue s (f Ready)" "input_queue s (f Input)"
    using d [of Ready] d [of Input] by (simp_all add: ready_queue_def input_queue_def)
  show "waiting_at h s (f (Sem h))" if "h \<in> S" using d [of "Sem h"] that by (simp add: waiting_at_def)
  show "sleepers s ps" if "f Asleep = map slot ps" using d [of Asleep] that by (simp add: sleepers_slots)
qed

lemma places_view:
  assumes "places S s f"
  shows "h \<in> S \<Longrightarrow> sem_view h s (f Ready) (f (Sem h))" and "input_view s (f Ready) (f Input)"
proof -
  note d = lists_atD [OF assms [unfolded places_def]]
  have "distinct (f Ready @ f Input)" using d(2) [of Ready Input] d(3) [of Ready] d(3) [of Input] by auto
  then show "input_view s (f Ready) (f Input)" using places_views [OF assms] by (simp add: input_view_def)
  assume h: "h \<in> S"
  then have "distinct (f Ready @ f (Sem h))" using d(2) [of Ready "Sem h"] d(3) [of Ready] d(3) [of "Sem h"] by auto
  then show "sem_view h s (f Ready) (f (Sem h))" using places_views [OF assms] h by (simp add: sem_view_def)
qed

lemma places_cong:
  assumes "list_nodes t = list_nodes s" and "sems t = sems s"
    and "threads_waiting_for_input t = threads_waiting_for_input s"
    and "ready_threads (sched t) = ready_threads (sched s)"
    and "sleeping_threads (sched t) = sleeping_threads (sched s)"
  shows "places S t f = places S s f"
proof -
  have "head t = head s" by (rule place_eqI) (simp_all add: assms)
  then show ?thesis by (simp add: places_def assms)
qed

lemma places_other [simp]: "h \<notin> S \<Longrightarrow> places S s (f(Sem h := x)) = places S s f"
  unfolding places_def by (rule lists_cong) (auto simp: places_of_def)

lemma places_yield [simp]: "places S (yield t u s) f = places S s f"
  by (rule places_cong) simp_all

lemma places_upd [simp]:
  "places S (upd_context p g s) f = places S s f" "places S (upd_thread t k s) f = places S s f"
  by (rule places_cong; simp add: upd_context_def upd_thread_def)+

lemma places_upd_sem [simp]:
  assumes "\<And>c. sem_waiting (e c) = sem_waiting c"
  shows "places S (upd_sem h e s) f = places S s f"
proof -
  have "head (upd_sem h e s) = head s" by (rule place_eqI) (simp_all add: assms upd_sem_def)
  then show ?thesis by (simp add: places_def)
qed

section \<open>Moving one thread\<close>

lemma places_push_ready:
  assumes "places S s f" and "unplaced t (places_of S) f"
  shows "places S (scheduler_push t s) (f(Ready := f Ready @ [t]))"
proof -
  let ?r = "ring_push (ready_threads (sched s)) (thread_node t) (list_nodes s)"
  have "head (scheduler_push t s) = (head s)(Ready := fst ?r)"
    by (rule place_eqI) (simp_all add: scheduler_push_same scheduler_push_fields)
  moreover have "list_nodes (scheduler_push t s) = snd ?r" by (simp add: scheduler_push_fields)
  ultimately show ?thesis
    using lists_push [OF assms(1) [unfolded places_def] _ assms(2), of Ready] by (simp add: places_def)
qed

lemma places_push_waiting:
  assumes "places S s f" and "unplaced t (places_of S) f" and "h \<in> S"
  shows "places S (sem_push h t s) (f(Sem h := f (Sem h) @ [t]))"
proof -
  let ?r = "ring_push (sem_waiting (sems s h)) (thread_node t) (list_nodes s)"
  have "head (sem_push h t s) = (head s)(Sem h := fst ?r)"
    by (rule place_eqI) (simp_all add: sem_push_fields, simp add: sem_push_def split_beta Let_def upd_sem_def)
  then show ?thesis
    using lists_push [OF assms(1) [unfolded places_def] _ assms(2), of "Sem h"] assms(3)
    by (simp add: places_def sem_push_fields)
qed

lemma places_push_input:
  assumes "places S s f" and "unplaced t (places_of S) f"
  shows "places S (input_push t s) (f(Input := f Input @ [t]))"
proof -
  let ?r = "ring_push (threads_waiting_for_input s) (thread_node t) (list_nodes s)"
  have "head (input_push t s) = (head s)(Input := fst ?r)"
    by (rule place_eqI) (simp_all add: input_fields, simp_all add: input_push_def split_beta Let_def)
  then show ?thesis
    using lists_push [OF assms(1) [unfolded places_def] _ assms(2), of Input] by (simp add: places_def input_fields)
qed

lemma places_next_ready:
  assumes "places S s f"
  shows "places S (snd (scheduler_next s)) (f(Ready := tl (f Ready)))"
proof (cases "f Ready")
  case Nil
  then have "ready_threads (sched s) = 0" using places_views(1) [OF assms] ready_head [of s "[]"] by simp
  moreover have "f(Ready := []) = f" using Nil by (simp add: fun_upd_idem)
  moreover have "places S (snd (scheduler_next s)) f = places S s f"
    using \<open>ready_threads (sched s) = 0\<close> by (intro places_cong) (simp_all add: scheduler_next_def upd_sched_def)
  ultimately show ?thesis using assms Nil by simp
next
  case (Cons x xs)
  let ?r = "ring_pop (ready_threads (sched s)) (list_nodes s)"
  have nz: "ready_threads (sched s) \<noteq> 0" using places_views(1) [OF assms] Cons ready_head [of s "f Ready"] by simp
  then have "head (snd (scheduler_next s)) = (head s)(Ready := fst ?r)" "list_nodes (snd (scheduler_next s)) = snd ?r"
    by - (rule place_eqI, simp_all add: scheduler_next_def Let_def split_beta upd_defs)
  then show ?thesis using lists_pop(1) [OF assms [unfolded places_def] _ Cons] Cons by (simp add: places_def)
qed

lemma places_next_waiting:
  assumes "places S s f" and "h \<in> S" and "f (Sem h) = t # ws"
  shows "fst (sem_next h s) = t" and "places S (snd (sem_next h s)) (f(Sem h := ws))"
    and "unplaced t (places_of S) (f(Sem h := ws))"
proof -
  have "head (snd (sem_next h s)) = (head s)(Sem h := fst (ring_pop (sem_waiting (sems s h)) (list_nodes s)))"
    by (rule place_eqI) (simp_all add: sem_next_fields, simp add: sem_next_def split_beta Let_def upd_sem_def)
  moreover have "Sem h \<in> places_of S" using assms(2) by simp
  note p = lists_pop [OF assms(1) [unfolded places_def] this assms(3)]
  ultimately show "places S (snd (sem_next h s)) (f(Sem h := ws))" using p(1) by (simp add: places_def sem_next_fields)
  show "fst (sem_next h s) = t" using p(2) by (simp add: sem_next_fields)
  show "unplaced t (places_of S) (f(Sem h := ws))" by (rule p(3))
qed

lemma places_pop_input:
  assumes "places S s f" and "f Input = t # zs"
  shows "fst (input_pop s) = t" and "places S (snd (input_pop s)) (f(Input := zs))"
    and "unplaced t (places_of S) (f(Input := zs))"
proof -
  have "head (snd (input_pop s)) = (head s)(Input := fst (ring_pop (threads_waiting_for_input s) (list_nodes s)))"
    by (rule place_eqI) (simp_all add: input_fields, simp_all add: input_pop_def split_beta Let_def)
  moreover note p = lists_pop [OF assms(1) [unfolded places_def] _ assms(2), OF places_of_simps(2)]
  ultimately show "places S (snd (input_pop s)) (f(Input := zs))" using p(1) by (simp add: places_def input_fields)
  show "fst (input_pop s) = t" using p(2) by (simp add: input_fields)
  show "unplaced t (places_of S) (f(Input := zs))" by (rule p(3))
qed

section \<open>Whole operations\<close>

lemma places_requeue:
  assumes "places S s f" and "unplaced c (places_of S) f"
  shows "places S (requeue c s) (f(Ready := tl (f Ready @ [c])))"
  using places_next_ready [OF places_push_ready [OF assms]] by (simp add: requeue_def Let_def split_beta)

lemma unplaced_tl:
  assumes "unplaced c Q f" and "p \<in> Q"
  shows "unplaced c Q (f(p := tl (f p)))"
  using assms by (auto simp: unplaced_def dest: list.set_sel(2) [rotated] split: if_splits) (metis list.sel(2) list.set_sel(2))

lemma places_wait:
  assumes "places S s f" and "unplaced c (places_of S) f" and "h \<in> S" and "c = scheduler_current s"
    and "fst (sem_wait h s) \<noteq> 0"
  shows "places S (snd (sem_wait h s)) (f(Ready := tl (f Ready), Sem h := f (Sem h) @ [c]))"
proof -
  let ?s = "upd_sem h (\<lambda>c. c\<lparr>sem_val := sem_val c - 1\<rparr>) s"
  let ?n = "fst (scheduler_next ?s)" and ?t = "snd (scheduler_next ?s)"
  have e: "snd (sem_wait h s) = sem_push h c (yield c ?n ?t)"
    using assms(4,5) by (auto simp: sem_wait_def Let_def split_beta scheduler_current_def)
  have "places S ?s f" using assms(1) by simp
  from places_next_ready [OF this] have "places S (yield c ?n ?t) (f(Ready := tl (f Ready)))" by simp
  from places_push_waiting [OF this unplaced_tl [OF assms(2)] assms(3)] show ?thesis unfolding e by simp
qed

lemma places_signal:
  assumes "places S s f" and "h \<in> S" and "f (Sem h) = t # ws" and "thr_time_left (threads s t) \<noteq> 0"
    and "sem_val (sems s h) + 1 \<le>s 0" and "sem_signal h s = Inr (r, u)"
  shows "places S u (f(Sem h := ws, Ready := f Ready @ [t]))"
proof -
  let ?s = "upd_sem h (\<lambda>c. c\<lparr>sem_val := sem_val c + 1\<rparr>) s"
  let ?t = "snd (sem_next h ?s)"
  have p: "places S ?s f" using assms(1) by simp
  note n = places_next_waiting [OF p assms(2,3)]
  have nz: "sem_waiting (sems s h) \<noteq> 0"
    using places_views(3) [OF assms(1,2)] assms(3) by (auto simp: waiting_at_def thread_queue_at_def queue_Cons)
  have "u = scheduler_push t (upd_context (thr_sp (threads s t)) (set_a0 0) ?t)"
    using assms(4-6) nz n(1)
    by (auto simp: sem_signal_def sem_unblock_thread_def Let_def split_beta sem_next_fields)
  then show ?thesis using places_push_ready [OF _ n(3)] n(2) by simp
qed

lemma places_getc:
  assumes "places S s f" and "unplaced c (places_of S) f" and "c = scheduler_current s" and "console_receive_cnt s = 0"
  shows "places S (snd (getc s)) (f(Ready := tl (f Ready), Input := f Input @ [c]))"
proof -
  let ?n = "fst (scheduler_next s)" and ?t = "snd (scheduler_next s)"
  have e: "snd (getc s) = input_push c (yield c ?n ?t)"
    using assms(3,4) by (simp add: getc_def Let_def split_beta)
  have "places S (yield c ?n ?t) (f(Ready := tl (f Ready)))" using places_next_ready [OF assms(1)] by simp
  from places_push_input [OF this unplaced_tl [OF assms(2)]] show ?thesis unfolding e by simp
qed

lemma places_deliver:
  assumes "places S s f" and "f Input = t # zs"
  shows "places S (deliver k s) (f(Input := zs, Ready := f Ready @ [t]))" and "deliver k s = scheduler_push t
    (upd_context (thr_sp (threads s t)) (set_a0 (ucast (console_receive_buffer s (unat k)))) (snd (input_pop s)))"
proof -
  note q = places_pop_input [OF assms]
  show d: "deliver k s = scheduler_push t
      (upd_context (thr_sp (threads s t)) (set_a0 (ucast (console_receive_buffer s (unat k)))) (snd (input_pop s)))"
    using q(1) by (simp add: deliver_def Let_def split_beta input_fields)
  show "places S (deliver k s) (f(Input := zs, Ready := f Ready @ [t]))"
    unfolding d using places_push_ready [OF _ q(3)] q(2) by simp
qed

text \<open>Opening a semaphore adds an empty queue.\<close>

lemma places_open:
  assumes p: "places S s f" and "sem_waiting (sems t h) = 0" and "\<And>k. k \<noteq> h \<Longrightarrow> sems t k = sems s k"
    and "list_nodes t = list_nodes s" and "sched t = sched s" and "threads_waiting_for_input t = threads_waiting_for_input s"
  shows "places (insert h S) t (f(Sem h := []))"
proof -
  note l = lists_atD [OF p [unfolded places_def]]
  let ?g = "f(Sem h := [])"
  have other: "r \<in> places_of S" if "r \<in> places_of (insert h S)" "r \<noteq> Sem h" for r
    using that by (auto simp: places_of_def)
  have "thread_queue_at (list_nodes t) (head t r) (?g r)" if r: "r \<in> places_of (insert h S)" for r
  proof (cases "r = Sem h")
    case True
    then show ?thesis using assms(2) by (simp add: thread_queue_at_def queue_def)
  next
    case False
    have "head t r = head s r" using False assms(3,5,6) by (cases r) auto
    then show ?thesis using l(1) [OF other [OF r False]] False by (simp add: assms(4))
  qed
  moreover have "set (?g r) \<inter> set (?g r') = {}"
    if r: "r \<in> places_of (insert h S)" "r' \<in> places_of (insert h S)" "r \<noteq> r'" for r r'
  proof (cases "r = Sem h \<or> r' = Sem h")
    case False
    then show ?thesis using l(2) [OF other [OF r(2)] other [OF r(1)] r(3)] by auto
  qed auto
  ultimately show ?thesis by (simp add: places_def lists_at_def)
qed

text \<open>Closing a semaphore: its threads leave their ring one by one for the ready queue.\<close>

definition wake_closed :: "u64 \<Rightarrow> kernel \<Rightarrow> kernel" where
  "wake_closed t s =
     upd_context (thr_sp (threads s t)) (set_a0 (i32_to_u64 SEM_CLOSED_EXTERNALLY)) (scheduler_push t s)"

lemma sem_close_loop_fold:
  assumes "places S s f" and "next_chain (list_nodes s) first (w # ws)" and "distinct (w # ws)"
    and "first \<notin> thread_node ` set ws" and "\<forall>x \<in> set (w # ws). unplaced x (places_of S) f"
  shows "sem_close_loop first (thread_node w) s = Some (Inr (fold wake_closed (w # ws) s))
    \<and> places S (fold wake_closed (w # ws) s) (f(Ready := f Ready @ w # ws))"
  using assms
proof (induction ws arbitrary: s f w)
  case Nil
  have "sem_close_loop first (thread_node w) s = Some (Inr (wake_closed w s))"
    using Nil.prems by (subst sem_close_loop.simps) (simp add: Let_def wake_closed_def)
  moreover have "places S (wake_closed w s) (f(Ready := f Ready @ [w]))"
    using places_push_ready [OF Nil.prems(1), of w] Nil.prems by (simp add: wake_closed_def)
  ultimately show ?case by (simp del: fun_upd_apply)
next
  case (Cons y ws)
  let ?v = "wake_closed w s"
  have e: "sem_close_loop first (thread_node w) s = sem_close_loop first (thread_node y) ?v"
    using Cons.prems(2,4) by (subst sem_close_loop.simps) (auto simp: Let_def image_iff wake_closed_def)
  have v: "places S ?v (f(Ready := f Ready @ [w]))"
    using places_push_ready [OF Cons.prems(1), of w] Cons.prems(5) by (simp add: wake_closed_def)
  have u: "\<forall>x \<in> set (y # ws). unplaced x (places_of S) (f(Ready := f Ready @ [w]))"
    using Cons.prems(3,5) by (auto simp: unplaced_def)
  have "list_nodes ?v (thread_node x) = list_nodes s (thread_node x)" if x: "x \<in> set (y # ws)" for x
  proof -
    have "x \<noteq> w" "x \<notin> set (f Ready)" using Cons.prems(3,5) x by (auto simp: unplaced_def)
    then show ?thesis
      using ready_push_frame [OF places_views(1) [OF Cons.prems(1)], of "thread_node x" w]
      by (auto simp: upd_context_def wake_closed_def)
  qed
  then have "next_chain (list_nodes ?v) first (y # ws) = next_chain (list_nodes s) first (y # ws)"
    by (rule next_chain_cong)
  then have ch: "next_chain (list_nodes ?v) first (y # ws)" using Cons.prems(2) by simp
  have d: "distinct (y # ws)" "first \<notin> thread_node ` set ws" using Cons.prems(3,4) by auto
  have "(f(Ready := f Ready @ [w]))(Ready := (f(Ready := f Ready @ [w])) Ready @ y # ws) = f(Ready := f Ready @ w # y # ws)"
    by (simp add: fun_upd_upd)
  with Cons.IH [OF v ch d u] e show ?case by (simp del: fun_upd_apply)
qed

lemma places_close:
  assumes p: "places S s f" and h: "h \<in> S"
  shows "(if sem_waiting (sems s h) \<noteq> 0
      then returned s (sem_close_loop (sem_waiting (sems s h)) (sem_waiting (sems s h)) s) else Inr s) =
      Inr (fold wake_closed (f (Sem h)) s)"
    and "places (S - {h}) (fold wake_closed (f (Sem h)) s) (f(Ready := f Ready @ f (Sem h)))"
proof -
  have sub: "places (S - {h}) s f"
    using lists_sub [OF p [unfolded places_def], of "places_of (S - {h})"] by (auto simp: places_def places_of_def)
  note q = lists_atD [OF p [unfolded places_def], of "Sem h"]
  have "(if sem_waiting (sems s h) \<noteq> 0
      then returned s (sem_close_loop (sem_waiting (sems s h)) (sem_waiting (sems s h)) s) else Inr s) =
      Inr (fold wake_closed (f (Sem h)) s) \<and>
    places (S - {h}) (fold wake_closed (f (Sem h)) s) (f(Ready := f Ready @ f (Sem h)))"
  proof (cases "f (Sem h)")
    case Nil
    then have "sem_waiting (sems s h) = 0" using q(1) h by (simp add: thread_queue_at_def)
    then show ?thesis using sub Nil by (simp add: fun_upd_idem)
  next
    case (Cons w ws)
    have w: "ring (list_nodes s) (map thread_node (w # ws))" "sem_waiting (sems s h) = thread_node w"
      using q(1) h Cons by (simp_all add: thread_queue_at_def queue_Cons)
    have nz: "thread_node x \<noteq> 0" if "x \<in> set (w # ws)" for x
      using waiting.held_valid [OF places_views(3) [OF p h]] Cons that by simp
    have un: "\<forall>x \<in> set (w # ws). unplaced x (places_of (S - {h})) f"
    proof
      fix x assume x: "x \<in> set (w # ws)"
      have "x \<notin> set (f r)" if "r \<in> places_of (S - {h})" for r
        using q(2) [of r x] that x Cons h by (auto simp: places_of_def)
      then show "unplaced x (places_of (S - {h})) f" using nz [OF x] by (simp add: unplaced_def)
    qed
    have "next_chain (list_nodes s) (thread_node w) (w # ws)"
      using w(1) by (intro links_next_chain) (simp add: ring_def)
    moreover have "distinct (w # ws)" using q(3) h Cons by simp
    ultimately have "sem_close_loop (thread_node w) (thread_node w) s = Some (Inr (fold wake_closed (w # ws) s))"
      "places (S - {h}) (fold wake_closed (w # ws) s) (f(Ready := f Ready @ w # ws))"
      using sem_close_loop_fold [OF sub _ _ _ un, of "thread_node w"] by auto
    then show ?thesis using w(2) nz [of w] Cons by simp
  qed
  then show "(if sem_waiting (sems s h) \<noteq> 0
      then returned s (sem_close_loop (sem_waiting (sems s h)) (sem_waiting (sems s h)) s) else Inr s) =
      Inr (fold wake_closed (f (Sem h)) s)"
    "places (S - {h}) (fold wake_closed (f (Sem h)) s) (f(Ready := f Ready @ f (Sem h)))" by blast+
qed

text \<open>Going to sleep, and being woken by the timer.\<close>

lemma slot_beside: "t \<notin> set (map slot ps) \<Longrightarrow> thread_node t \<notin> sleeper_node ` set ps"
  by (auto simp flip: slot_node)

lemma places_timeout:
  assumes p: "places S s f" and fr: "sleep_frame s u (sleeper_node ` set qs)" and q: "sleepers u qs"
    and a: "\<And>r t. r \<in> places_of S \<Longrightarrow> r \<noteq> Asleep \<Longrightarrow> t \<in> set (f r) \<Longrightarrow> t \<notin> set (map slot qs)"
  shows "places S u (f(Asleep := map slot qs))"
proof -
  note d = lists_atD [OF p [unfolded places_def]]
  have n: "\<forall>n. n \<notin> sleeper_node ` set qs \<longrightarrow> list_nodes u n = list_nodes s n"
    and e: "sems u = sems s" "threads_waiting_for_input u = threads_waiting_for_input s"
      "sched u = (sched s)\<lparr>sleeping_threads := sleeping_threads (sched u)\<rparr>"
    using fr unfolding sleep_frame_def by blast+
  have "ready_threads (sched u) = ready_threads (sched s)" by (subst e(3)) simp
  then have h: "head u r = head s r" if "r \<noteq> Asleep" for r using that by (cases r) (simp_all add: e(1,2))
  have "thread_queue_at (list_nodes u) (head u r) (f r)" if r: "r \<in> places_of S" "r \<noteq> Asleep" for r
  proof -
    have "list_nodes u (thread_node t) = list_nodes s (thread_node t)" if "t \<in> set (f r)" for t
      using n slot_beside [OF a [OF r that]] by blast
    then show ?thesis
      using d(1) [OF r(1)] thread_queue_cong [of "f r" "list_nodes u" "list_nodes s" "head s r"] h [OF r(2)] by simp
  qed
  moreover have "thread_queue_at (list_nodes u) (head u Asleep) (map slot qs)" using q by (simp add: sleepers_slots)
  moreover have "set (f r) \<inter> set (f r') = {}" if "r \<in> places_of S" "r' \<in> places_of S" "r \<noteq> r'" for r r'
    using d(2) [OF that(2,1) that(3)] by blast
  ultimately show ?thesis using a unfolding places_def lists_at_def by (auto simp del: set_map)
qed

text \<open>The threads of the entries are nowhere else.\<close>

lemma places_tick:
  assumes p: "places S s f" and f: "f Asleep = map slot (p # ps)" and d: "0 < delay s p" and o: "owns s L"
    and e: "\<forall>q \<in> set (p # ps). (q, 1) \<in> L \<and> slp_semaphore (sleeping s q) = 0 \<and> thread_node (sleeper_thread s q) \<noteq> 0"
    and ts: "distinct (map (sleeper_thread s) (p # ps))"
    and dj: "\<And>r q. r \<in> places_of S \<Longrightarrow> q \<in> set (p # ps) \<Longrightarrow> sleeper_thread s q \<notin> set (f r)"
    and W: "W = due (wakes s (p # ps))"
  obtains u where "scheduler_tick s = Inr u"
    and "places S u (f(Ready := f Ready @ map (\<lambda>e. fst (snd e)) W, Asleep := map slot (drop (length W) (p # ps))))"
    and "owns u (L - (\<lambda>p. (p, 1)) ` set (take (length W) (p # ps)))"
    and "wakes u (drop (length W) (p # ps)) = map (\<lambda>e. (fst e - 1, snd e)) (drop (length W) (wakes s (p # ps)))"
    and "tick_frame s u (thread_node ` (set (f Ready) \<union> sleeper_thread s ` set (p # ps)) \<union> sleeper_node ` set (p # ps))"
proof -
  let ?ds = "map (\<lambda>e. fst (snd e)) W" and ?rs = "drop (length W) (p # ps)" and ?T = "sleeper_thread s ` set (p # ps)"
  let ?g = "f(Ready := f Ready @ ?ds, Asleep := map slot ?rs)"
  note l = lists_atD [OF p [unfolded places_def]]
  have rs: "x \<notin> set (map slot (p # ps))" if "x \<in> set (f Ready) \<union> ?T" for x
    using that l(2) [of Asleep Ready x] dj [of Asleep] f by auto
  then have "thread_node ` (set (f Ready) \<union> ?T) \<inter> sleeper_node ` set (p # ps) = {}"
    using slot_beside by blast
  moreover have "distinct (f Ready @ map (sleeper_thread s) (p # ps))"
    using ts l(3) [of Ready] dj [of Ready] by auto
  ultimately have ok: "sleep_ok s (f Ready) (p # ps) L"
    using places_views(1) [OF p] places_views(4) [OF p f] o e by (simp add: sleep_ok_def timers_ok_def)
  obtain u where u: "scheduler_tick s = Inr u" "sleep_ok u (f Ready @ ?ds) ?rs (L - (\<lambda>p. (p, 1)) ` set (take (length W) (p # ps)))"
    "wakes u ?rs = map (\<lambda>e. (fst e - 1, snd e)) (drop (length W) (wakes s (p # ps)))"
    "tick_frame s u (thread_node ` (set (f Ready) \<union> ?T) \<union> sleeper_node ` set (p # ps))"
    using tick_wakes [OF ok d] unfolding W due_def by blast
  have sub: "set ?ds \<subseteq> ?T"
  proof -
    have "set ?ds \<subseteq> set (map (\<lambda>e. fst (snd e)) (wakes s (p # ps)))"
      unfolding W due_def by (auto dest: set_takeWhileD simp del: wakes_from.simps)
    then show ?thesis unfolding map_thread_wakes by simp
  qed
  have h: "head u r = head s r" if "r \<noteq> Ready" "r \<noteq> Asleep" for r
    using that u(4) by (cases r) (simp_all add: tick_frame_def)
  have beside: "thread_queue_at (list_nodes u) (head u r) (f r)" if r: "r \<in> places_of S" "r \<noteq> Ready" "r \<noteq> Asleep" for r
  proof -
    have "list_nodes u (thread_node t) = list_nodes s (thread_node t)" if t: "t \<in> set (f r)" for t
    proof -
      have "t \<notin> set (f Ready) \<union> ?T" using l(2) [of Ready r t] dj r t by auto
      moreover have "t \<notin> set (map slot (p # ps))" using l(2) [of Asleep r t] r t f by auto
      ultimately have "thread_node t \<notin> thread_node ` (set (f Ready) \<union> ?T) \<union> sleeper_node ` set (p # ps)"
        using slot_beside [of t "p # ps"] by (simp del: set_map list.map)
      then show ?thesis using u(4) by (simp add: tick_frame_def)
    qed
    then show ?thesis
      using l(1) [OF r(1)] thread_queue_cong [of "f r" "list_nodes u" "list_nodes s" "head s r"] h [OF r(2,3)] by simp
  qed
  have q: "thread_queue_at (list_nodes u) (head u r) (?g r)" if "r \<in> places_of S" for r
    using that u(2) beside by (cases "r = Ready"; cases "r = Asleep")
      (simp_all add: sleep_ok_def timers_ok_def ready_queue_def sleepers_slots)
  have slots: "set (map slot ?rs) \<subseteq> set (f Asleep)"
    using set_drop_subset [of "length W" "p # ps"] unfolding f set_map by blast
  have outer: "set (?g r) \<inter> set (?g r') = {}"
    if r: "r \<in> places_of S" "r' \<in> places_of S" "r \<noteq> r'" "r \<noteq> Ready" for r r'
  proof -
    have "set (?g r) \<subseteq> set (f r)" "set (?g r') \<subseteq> set (f r') \<union> ?T" for r'
      using slots sub r(4) by (auto simp del: set_map)
    moreover have "?T \<inter> set (f r) = {}" using dj [OF r(1)] by blast
    ultimately show ?thesis using l(2) [OF r(2,1,3)] by blast
  qed
  have "set (?g r) \<inter> set (?g r') = {}" if "r \<in> places_of S" "r' \<in> places_of S" "r \<noteq> r'" for r r'
    using outer [OF that] outer [OF that(2,1)] that(3) by (cases "r = Ready") (blast+)
  then have "places S u ?g" using q by (simp add: places_def lists_at_def)
  moreover have "owns u (L - (\<lambda>p. (p, 1)) ` set (take (length W) (p # ps)))" using u(2) by (simp add: sleep_ok_def timers_ok_def)
  ultimately show thesis using that u(1,3,4) by blast
qed

end
