(* ===== verification/System_Inv.thy ===== *)
theory System_Inv
  imports Places
begin

text \<open>
  The kernel implements the abstract operating system of \<open>OS_Spec\<close>: \<open>os_rel\<close> says that the lists in memory
  are those of the abstract state, that the structures of its threads, semaphores and sleeping entries are
  different live blocks of the heap, and that counters agree. \<open>System_Ops\<close> shows that every operation of the
  kernel keeps the relation, with the abstract event on the other side.
\<close>

section \<open>The heap of the sleeping threads\<close>

lemma sleeper_thread_cong: "sleeping t = sleeping s \<Longrightarrow> sleeper_thread t = sleeper_thread s"
  by (simp add: sleeper_thread_def [abs_def])

lemma upd_same [simp]:
  "sleeper_thread (upd_sem h f s) = sleeper_thread s" "sleeper_thread (upd_thread t g s) = sleeper_thread s"
  "console_receive_cnt (upd_sem h f s) = console_receive_cnt s"
  "console_receive_cnt (upd_thread t g s) = console_receive_cnt s"
  "mem_state.truncate (upd_sem h f s) = mem_state.truncate s"
  "mem_state.truncate (upd_thread t g s) = mem_state.truncate s"
  "sleeping (upd_thread t g s) = sleeping s" "sched (upd_thread t g s) = sched s" "sems (upd_thread t g s) = sems s"
  by (simp_all add: sleeper_thread_def [abs_def] upd_sem_def upd_thread_def mem_state.truncate_def)

definition naps :: "kernel \<Rightarrow> (u64 \<times> int) set \<Rightarrow> u64 list \<Rightarrow> bool" where
  "naps s L ps \<longleftrightarrow> owns s L \<and> (\<forall>p \<in> set ps. (p, 1) \<in> L) \<and> total s ps < 18446744073709551616
     \<and> (\<forall>e \<in> set (wakes s ps). 0 < fst e \<and> snd (snd e) = 0)"

lemma naps_cong:
  assumes "sleeping t = sleeping s" and "mem_state.truncate t = mem_state.truncate s"
  shows "naps t L ps = naps s L ps"
  using wakes_cong [of ps t s] owns_cong [OF assms(2)] assms(1) by (simp add: naps_def)

lemma naps_wakes:
  assumes "naps s L ps" and "p \<in> set ps"
  shows "slp_semaphore (sleeping s p) = 0"
proof -
  have "\<exists>e \<in> set (wakes_from a s ps). snd (snd e) = slp_semaphore (sleeping s p)" for a
    using assms(2) by (induction ps arbitrary: a) auto
  from this [of 0] show ?thesis using assms(1) unfolding naps_def by metis
qed

lemma total_wakes: "ps \<noteq> [] \<Longrightarrow> fst (last (wakes_from a s ps)) = a + total s ps"
proof (induction ps arbitrary: a)
  case (Cons p ps)
  then show ?case by (cases "ps = []") (auto simp: add.assoc dest: arg_cong [of _ _ length])
qed simp

text \<open>A timer tick on the wake-up times: those due leave, the others come nearer.\<close>

lemma naps_tick:
  assumes n: "naps s L ps" and W: "W = due (wakes s ps)"
    and o: "owns u (L - (\<lambda>p. (p, 1)) ` set (take (length W) ps))"
    and w: "wakes u (drop (length W) ps) = map (\<lambda>e. (fst e - 1, snd e)) (drop (length W) (wakes s ps))"
    and d: "distinct ps"
  shows "naps u (L - (\<lambda>p. (p, 1)) ` set (take (length W) ps)) (drop (length W) ps)"
    and "map (sleeper_thread s) ps = map (\<lambda>e. fst (snd e)) W @ map (sleeper_thread u) (drop (length W) ps)"
proof -
  let ?k = "length W" and ?rs = "drop (length W) ps" and ?es = "wakes s ps"
  have dw: "drop ?k ?es = dropWhile (\<lambda>e. fst e = 1) ?es" and tw: "take ?k ?es = W"
    unfolding W due_def by (simp_all add: dropWhile_eq_drop takeWhile_eq_take [symmetric])
  have big: "1 < fst e" if "e \<in> set (drop ?k ?es)" for e
  proof -
    obtain f fs where f: "drop ?k ?es = f # fs" using \<open>e \<in> set (drop ?k ?es)\<close> by (cases "drop ?k ?es") auto
    have "f \<in> set ?es" using f by (metis in_set_dropD list.set_intros(1))
    then have "0 < fst f" using n by (simp add: naps_def)
    moreover have "fst f \<noteq> 1" using f unfolding dw by (simp add: dropWhile_eq_Cons_conv)
    ultimately have "1 < fst f" by simp
    moreover have "sorted (map fst (f # fs))"
      using sorted_wrt_drop [OF sorted_wakes [of 0 s ps], of ?k] unfolding drop_map f .
    then have "fst f \<le> fst e" using that f by auto
    ultimately show ?thesis by simp
  qed
  have pos: "\<forall>e \<in> set (wakes u ?rs). 0 < fst e \<and> snd (snd e) = 0"
    unfolding w using big n by (auto simp: naps_def dest: in_set_dropD)
  have tot: "total u ?rs < 18446744073709551616"
  proof (cases "?rs = []")
    case False
    then have ne: "drop ?k ?es \<noteq> []" "ps \<noteq> []" by auto
    have "total u ?rs = fst (last (wakes u ?rs))" using total_wakes [OF False, of 0 u] by simp
    also have "\<dots> \<le> fst (last ?es)" unfolding w using ne by (simp add: last_map last_drop)
    also have "\<dots> = total s ps" using total_wakes [OF ne(2), of 0 s] by simp
    finally show ?thesis using n by (simp add: naps_def)
  qed simp
  have "(p, 1) \<in> L - (\<lambda>p. (p, 1)) ` set (take ?k ps)" if "p \<in> set ?rs" for p
  proof -
    have "p \<notin> set (take ?k ps)" using d that by (metis disjoint_iff set_take_disj_set_drop_if_distinct order_refl)
    moreover have "p \<in> set ps" using that by (rule in_set_dropD)
    ultimately show ?thesis using n by (auto simp: naps_def)
  qed
  then show "naps u (L - (\<lambda>p. (p, 1)) ` set (take ?k ps)) ?rs" using o pos tot by (simp add: naps_def)
  have "map (sleeper_thread s) ps = map (\<lambda>e. fst (snd e)) (take ?k ?es @ drop ?k ?es)"
    by (simp only: append_take_drop_id map_thread_wakes)
  also have "map (\<lambda>e. fst (snd e)) (take ?k ?es @ drop ?k ?es) =
      map (\<lambda>e. fst (snd e)) W @ map (\<lambda>e. fst (snd e)) (wakes u ?rs)"
    unfolding tw w by simp
  finally show "map (sleeper_thread s) ps = map (\<lambda>e. fst (snd e)) W @ map (sleeper_thread u) ?rs"
    by (simp only: map_thread_wakes)
qed

text \<open>The nodes of a thread structure and of a sleeping entry in blocks of the heap are different.\<close>

lemma slot_not_owned:
  assumes "owns s L" and "(t, 1) \<in> L" and "(p, 1) \<in> L"
  shows "t \<noteq> slot p"
proof
  assume e: "t = slot p"
  obtain rs i j where r: "mem_rep s rs" "(i, 1) \<in> live_at 0 rs" "(j, 1) \<in> live_at 0 rs"
    "t = block_addr s i" "p = block_addr s j"
    using assms by (auto simp: owns_def)
  have u: "uint t = uint (HEAP_START_ADDR s) + 64 * i" "uint p = uint (HEAP_START_ADDR s) + 64 * j"
    using live_addr(1) [OF r(1,2)] live_addr(1) [OF r(1,3)] r(4,5) by simp_all
  have "p = t + 16" using e by (simp add: slot_def node_thread_def sleeper_node_def)
  moreover have "uint t + 16 < 2 ^ 64" using owns_bound [OF assms(1,2)] by simp
  ultimately have "uint p = uint t + 16" by (simp add: uint_add_bounded)
  with u have "64 * (j - i) = 16" by simp
  then show False by presburger
qed

text \<open>There are fewer of them than blocks in the heap.\<close>

lemma card_live_at: "finite (live_at i rs) \<and> int (card (live_at i rs)) \<le> extent rs"
proof (induction rs arbitrary: i)
  case (Cons r rs)
  have "card (live_at i (r # rs)) \<le> card (live_at (i + \<bar>r\<bar>) rs) + (if 0 < r then 1 else 0)"
    using Cons.IH [of "i + \<bar>r\<bar>"] by (cases "0 < r") (simp_all add: card_insert_if)
  with Cons.IH [of "i + \<bar>r\<bar>"] show ?case by (auto split: if_splits)
qed simp

lemma owned_threads_few:
  assumes "owns s L" and "\<And>t. t \<in> P \<Longrightarrow> (t, 1) \<in> L" and "finite P"
  shows "card P < 2147483648"
proof -
  obtain rs where r: "mem_rep s rs" "L = (\<lambda>(j, k). (block_addr s j, k)) ` live_at 0 rs"
    using assms(1) by (auto simp: owns_def)
  have l: "finite (live_at 0 rs)" "int (card (live_at 0 rs)) \<le> extent rs" using card_live_at [of 0 rs] by simp_all
  have "(\<lambda>t. (t, 1 :: int)) ` P \<subseteq> L" using assms(2) by auto
  moreover have "finite L" using l(1) r(2) by simp
  ultimately have "card ((\<lambda>t. (t, 1 :: int)) ` P) \<le> card L" by (intro card_mono)
  moreover have "card ((\<lambda>t. (t, 1 :: int)) ` P) = card P" by (intro card_image) (simp add: inj_on_def)
  moreover have "card L \<le> card (live_at 0 rs)" unfolding r(2) by (rule card_image_le [OF l(1)])
  moreover have "extent rs < 2147483648" using r(1) by (simp add: mem_rep_def mem_lay_def heap_shape_def)
  ultimately show ?thesis using l(2) by linarith
qed

text \<open>Live blocks do not overlap.\<close>

lemma live_at_apart:
  "(j, m) \<in> live_at i rs \<Longrightarrow> (l, k) \<in> live_at i rs \<Longrightarrow> (j, m) \<noteq> (l, k) \<Longrightarrow> j + m \<le> l \<or> l + k \<le> j"
proof (induction rs arbitrary: i)
  case (Cons r rs)
  show ?case using Cons.prems Cons.IH [of "i + \<bar>r\<bar>"] live_at_bounds [of _ _ "i + \<bar>r\<bar>" rs]
    by (auto split: if_splits)
qed simp

lemma owns_apart:
  assumes "owns s L"
  shows "\<forall>(p, m) \<in> L. \<forall>(q, k) \<in> L. (p, m) \<noteq> (q, k) \<longrightarrow> apart p m q k"
proof -
  obtain rs where r: "mem_rep s rs" "L = (\<lambda>(j, k). (block_addr s j, k)) ` live_at 0 rs"
    using assms by (auto simp: owns_def)
  have "apart (block_addr s j) m (block_addr s l) k"
    if "(j, m) \<in> live_at 0 rs" "(l, k) \<in> live_at 0 rs" "(block_addr s j, m) \<noteq> (block_addr s l, k)" for j m l k
    using live_at_apart [OF that(1,2)] that(3) live_addr(1) [OF r(1) that(1)] live_addr(1) [OF r(1) that(2)]
    by (auto simp: apart_def)
  then show ?thesis unfolding r(2) by fastforce
qed

section \<open>The relation\<close>

fun lists_of :: "os \<Rightarrow> u64 list \<Rightarrow> place \<Rightarrow> u64 list" where
  "lists_of a ps Ready = o_ready a"
| "lists_of a ps Input = o_input a"
| "lists_of a ps Asleep = map slot ps"
| "lists_of a ps (Sem h) = o_waiting a h"

abbreviation all_threads :: "os \<Rightarrow> u64 set" where
  "all_threads a \<equiv> insert (o_idle a) (o_threads a)"

text \<open>What the abstract state shows of the kernel.\<close>

definition os_view :: "os \<Rightarrow> kernel \<Rightarrow> u64 list \<Rightarrow> bool" where
  "os_view a s ps \<longleftrightarrow> places (o_sems a) s (lists_of a ps)
     \<and> scheduler_current s = o_current a \<and> sch_kernel_main (sched s) = o_idle a
     \<and> (\<forall>h \<in> o_sems a. sint (sem_val (sems s h)) = o_permits a h)
     \<and> user_thread_count (sched s) = of_nat (card (o_threads a))
     \<and> (\<forall>t \<in> all_threads a. thr_time_left (threads s t) \<noteq> 0) \<and> console_receive_cnt s \<le> 1024"

text \<open>The structures, one block each, and the blocks of the user.\<close>

definition objects :: "os \<Rightarrow> (u64 \<times> int) set \<Rightarrow> u64 list \<Rightarrow> bool" where
  "objects a L ps \<longleftrightarrow> (\<forall>x \<in> all_threads a \<union> o_sems a \<union> set ps. (x, 1) \<in> L) \<and> o_blocks a \<subseteq> fst ` L
     \<and> all_threads a \<inter> o_sems a = {} \<and> (all_threads a \<union> o_sems a) \<inter> set ps = {}
     \<and> (all_threads a \<union> o_sems a \<union> set ps) \<inter> o_blocks a = {}"

definition os_heap :: "os \<Rightarrow> kernel \<Rightarrow> (u64 \<times> int) set \<Rightarrow> u64 list \<Rightarrow> bool" where
  "os_heap a s L ps \<longleftrightarrow> naps s L ps \<and> wakes s ps = map (\<lambda>(w, t). (w, t, 0)) (o_sleeping a) \<and> objects a L ps"

definition os_rel :: "(u64 \<times> int) set \<Rightarrow> u64 list \<Rightarrow> os \<Rightarrow> kernel \<Rightarrow> bool" where
  "os_rel L ps a s \<longleftrightarrow> os_ok a \<and> os_view a s ps \<and> os_heap a s L ps"

definition refines :: "os \<Rightarrow> kernel \<Rightarrow> bool" where
  "refines a s \<longleftrightarrow> (\<exists>L ps. os_rel L ps a s)"

lemma os_relD:
  assumes "os_rel L ps a s"
  shows "os_ok a" and "places (o_sems a) s (lists_of a ps)"
    and "scheduler_current s = o_current a" and "sch_kernel_main (sched s) = o_idle a"
    and "\<And>h. h \<in> o_sems a \<Longrightarrow> sint (sem_val (sems s h)) = o_permits a h"
    and "user_thread_count (sched s) = of_nat (card (o_threads a))"
    and "\<And>t. t \<in> all_threads a \<Longrightarrow> thr_time_left (threads s t) \<noteq> 0" and "console_receive_cnt s \<le> 1024"
    and "naps s L ps" and "wakes s ps = map (\<lambda>(w, t). (w, t, 0)) (o_sleeping a)" and "objects a L ps"
    and "owns s L"
  using assms unfolding os_rel_def os_view_def os_heap_def naps_def by blast+

lemma objectsD:
  assumes "objects a L ps"
  shows "\<And>t. t \<in> all_threads a \<Longrightarrow> (t, 1) \<in> L \<and> t \<notin> o_sems a \<and> t \<notin> set ps \<and> t \<notin> o_blocks a"
    and "\<And>h. h \<in> o_sems a \<Longrightarrow> (h, 1) \<in> L \<and> h \<notin> all_threads a \<and> h \<notin> set ps \<and> h \<notin> o_blocks a"
    and "\<And>p. p \<in> set ps \<Longrightarrow> (p, 1) \<in> L \<and> p \<notin> all_threads a \<and> p \<notin> o_sems a \<and> p \<notin> o_blocks a"
    and "\<And>b. b \<in> o_blocks a \<Longrightarrow> (\<exists>m. (b, m) \<in> L) \<and> b \<notin> all_threads a \<and> b \<notin> o_sems a \<and> b \<notin> set ps"
  using assms unfolding objects_def by (blast, blast, blast) (use assms in \<open>force simp: objects_def\<close>)

lemma objects_cong:
  assumes "o_idle b = o_idle a" and "o_threads b = o_threads a" and "o_sems b = o_sems a" and "o_blocks b = o_blocks a"
  shows "objects b L ps = objects a L ps"
  by (simp add: objects_def assms)

text \<open>An operation that leaves the heap, the sleeping threads and the set of objects alone.\<close>

lemma os_relI:
  assumes "os_rel L ps a s" and "os_ok b" and "os_view b t ps"
    and "sleeping t = sleeping s" and "mem_state.truncate t = mem_state.truncate s"
    and "o_sleeping b = o_sleeping a" and "o_idle b = o_idle a" and "o_threads b = o_threads a" and "o_sems b = o_sems a"
    and "o_blocks b = o_blocks a"
  shows "os_rel L ps b t"
proof -
  have "wakes t ps = wakes s ps" using wakes_cong(1) [of ps t s 0] assms(4) by simp
  moreover have "objects b L ps = objects a L ps" by (rule objects_cong [OF assms(7-10)])
  ultimately show ?thesis
    using assms(1-3) naps_cong [OF assms(4,5)] by (simp add: os_rel_def os_heap_def assms(6))
qed

lemma refinesI: "os_rel L ps a s \<Longrightarrow> refines a s"
  unfolding refines_def by blast

lemma os_viewI:
  assumes "places (o_sems b) t (lists_of b ps)"
    and "scheduler_current t = o_current b" and "sch_kernel_main (sched t) = o_idle b"
    and "\<And>h. h \<in> o_sems b \<Longrightarrow> sint (sem_val (sems t h)) = o_permits b h"
    and "user_thread_count (sched t) = of_nat (card (o_threads b))"
    and "\<And>x. x \<in> all_threads b \<Longrightarrow> thr_time_left (threads t x) \<noteq> 0" and "console_receive_cnt t \<le> 1024"
  shows "os_view b t ps"
  using assms by (simp add: os_view_def)

text \<open>The sleeping threads and their entries.\<close>

lemma sleeping_threads:
  assumes "os_rel L ps a s"
  shows "map (sleeper_thread s) ps = map snd (o_sleeping a)" and "length (o_sleeping a) = length ps"
proof -
  have "map (\<lambda>e. fst (snd e)) (wakes s ps) = map snd (o_sleeping a)"
    unfolding os_relD(10) [OF assms] by (simp add: case_prod_unfold)
  then show "map (sleeper_thread s) ps = map snd (o_sleeping a)" by (simp only: map_thread_wakes)
  show "length (o_sleeping a) = length ps" using arg_cong [OF os_relD(10) [OF assms], of length] by simp
qed

text \<open>Every thread is a block of the heap, so that its node is no sleeping entry's.\<close>

lemma os_valid:
  assumes "os_rel L ps a s" and "t \<in> all_threads a"
  shows "thread_node t \<noteq> 0" and "t \<notin> set (map slot ps)"
proof -
  note d = os_relD(11,12) [OF assms(1)]
  have t: "(t, 1) \<in> L" using objectsD(1) [OF d(1) assms(2)] by blast
  show "thread_node t \<noteq> 0" by (rule owned_node [OF d(2) t])
  show "t \<notin> set (map slot ps)" using slot_not_owned [OF d(2) t] objectsD(3) [OF d(1)] by auto
qed

lemma os_current:
  assumes "os_rel L ps a s"
  shows "o_current a \<in> all_threads a" and "unplaced (o_current a) (places_of (o_sems a)) (lists_of a ps)"
proof -
  note c = current_elsewhere [OF os_relD(1) [OF assms]]
  show t: "o_current a \<in> all_threads a" using c(6) by blast
  show "unplaced (o_current a) (places_of (o_sems a)) (lists_of a ps)"
    using os_valid [OF assms t] c(1,3,5) by (auto simp: unplaced_def places_of_def simp del: set_map)
qed

lemma sint_of_small: "unat (x :: u32) < 2147483648 \<Longrightarrow> sint x = int (unat x)"
proof -
  assume "unat x < 2147483648"
  then have "uint x < 2147483648" by (metis of_nat_less_iff of_nat_numeral uint_nat)
  then show ?thesis using sint_of_int_i32 [of "uint x"] uint_ge_0 [of x] by simp
qed

text \<open>The value of a semaphore stays far from the ends of its 32-bit range.\<close>

lemma os_value:
  assumes "os_rel L ps a s" and "h \<in> o_sems a"
  shows "- 2147483648 < o_permits a h" and "o_permits a h < 2147483648"
proof -
  note d = os_relD [OF assms(1)]
  have "card (o_threads a) < 2147483648"
    using objectsD(1) [OF d(11)] os_okD(9) [OF d(1)] by (intro owned_threads_few [OF d(12)]) auto
  moreover have "length (o_waiting a h) \<le> card (o_threads a)"
    using waiting_thread [OF d(1) assms(2)] os_okD(9) [OF d(1)]
    by (metis card_mono distinct_card subsetI)
  ultimately show "- 2147483648 < o_permits a h" "o_permits a h < 2147483648"
    using os_okD(6) [OF d(1) assms(2)] by (simp_all add: semaphore_ok_def)
qed

section \<open>Steps that change none of it\<close>

text \<open>The relation is about these parts of the kernel.\<close>

definition os_same :: "kernel \<Rightarrow> kernel \<Rightarrow> bool" where
  "os_same t s \<longleftrightarrow> list_nodes t = list_nodes s \<and> sched t = sched s \<and> sems t = sems s \<and> sleeping t = sleeping s
     \<and> threads_waiting_for_input t = threads_waiting_for_input s \<and> console_receive_cnt t = console_receive_cnt s
     \<and> mem_state.truncate t = mem_state.truncate s
     \<and> (\<forall>x. thr_time_left (threads t x) = thr_time_left (threads s x))"

lemma os_same_refl [simp]: "os_same s s"
  by (simp add: os_same_def)

lemma os_same_trans: "os_same u t \<Longrightarrow> os_same t s \<Longrightarrow> os_same u s"
  by (simp add: os_same_def)

lemma os_same_rel:
  assumes "os_same t s"
  shows "os_rel L ps a t = os_rel L ps a s"
proof -
  have s: "sleeping t = sleeping s" "mem_state.truncate t = mem_state.truncate s" using assms by (simp_all add: os_same_def)
  have "os_view a t ps = os_view a s ps"
    using assms places_cong [of t s] by (simp add: os_view_def os_same_def scheduler_current_def)
  moreover have "wakes t ps = wakes s ps" using wakes_cong(1) [of ps t s 0] s(1) by simp
  ultimately show ?thesis using naps_cong [OF s] by (simp add: os_rel_def os_heap_def)
qed

lemma os_same_refines: "os_same t s \<Longrightarrow> refines a t = refines a s"
  by (simp add: refines_def os_same_rel)

lemma os_same_current:
  assumes "os_same t s"
  shows "scheduler_current t = scheduler_current s" and "sch_kernel_main (sched t) = sch_kernel_main (sched s)"
    and "sems t = sems s" and "console_receive_cnt t = console_receive_cnt s"
  using assms by (simp_all add: os_same_def scheduler_current_def)

lemma os_same_output: "output_only s t \<Longrightarrow> os_same t s"
  using output_only_nodes [of s t] output_onlyD [of s t] by (simp add: os_same_def)

lemma os_same_context [simp]: "os_same (upd_context p f s) s"
  by (simp add: os_same_def upd_context_def mem_state.truncate_def)

end
