(* ===== verification/System_Ops.thy ===== *)
theory System_Ops
  imports System_Inv
begin

text \<open>
  Every operation of the kernel implements its abstract event: in related states, the operation returns and
  leads to related states. The conditions are those of \<open>allowed\<close>; where the allocator decides, the event
  carries the address that it gave.
\<close>

section \<open>Semaphores\<close>

lemma sem_wait_same:
  "thr_time_left (threads (snd (sem_wait h s)) x) = thr_time_left (threads s x)"
  "sch_kernel_main (sched (snd (sem_wait h s))) = sch_kernel_main (sched s)"
  "user_thread_count (sched (snd (sem_wait h s))) = user_thread_count (sched s)"
  "sleeping (snd (sem_wait h s)) = sleeping s" "mem_state.truncate (snd (sem_wait h s)) = mem_state.truncate s"
  "console_receive_cnt (snd (sem_wait h s)) = console_receive_cnt s"
  by (simp_all add: sem_wait_def split_beta Let_def sem_push_fields)
     (simp add: sem_push_def upd_sem_def split_beta Let_def mem_state.truncate_def)

lemma sem_wait_other: "k \<noteq> h \<Longrightarrow> sems (snd (sem_wait h s)) k = sems s k"
  by (simp add: sem_wait_def split_beta Let_def sem_push_fields upd_sem_def)

lemma os_wait:
  assumes r: "os_rel L ps a s" and al: "allowed (Wait h) a"
  shows "os_rel L ps (spec (Wait h) a) (snd (sem_wait h s))"
proof -
  let ?t = "snd (sem_wait h s)" and ?v = "o_permits a h" and ?c = "o_current a"
  note d = os_relD [OF r] and same = sem_wait_same [of _ s] and u = os_current(2) [OF r]
  have h: "h \<in> o_sems a" "?c \<noteq> o_idle a" using al by simp_all
  have sv: "sint (sem_val (sems s h)) = ?v" by (rule d(5) [OF h(1)])
  have lo: "- 2147483648 < ?v" by (rule os_value(1) [OF r h(1)])
  have dec: "sint (sem_val (sems s h) - 1) = ?v - 1"
    using lo sint_i32_bounds [of "sem_val (sems s h)"] sint_sub_i32 [of "sem_val (sems s h)" 1] sv by simp
  have w: "os_ok (spec (Wait h) a)" by (rule spec_ok [OF d(1) al]) simp
  show ?thesis
  proof (cases "0 < ?v")
    case True
    then have t: "?t = upd_sem h (\<lambda>x. x\<lparr>sem_val := sem_val x - 1\<rparr>) s" using sem_wait_passes [of s h] sv by simp
    let ?b = "a\<lparr>o_permits := (o_permits a)(h := ?v - 1), o_holders := (o_holders a)(h := insert ?c (o_holders a h))\<rparr>"
    have b: "spec (Wait h) a = ?b" using True by (simp add: spec_wait_def Let_def)
    have l: "lists_of ?b ps = lists_of a ps" by (rule place_eqI) simp_all
    have "sint (sem_val (sems ?t k)) = o_permits ?b k" if "k \<in> o_sems a" for k
      using that d(5) dec by (cases "k = h") (simp_all add: t upd_sem_def)
    moreover have "places (o_sems a) ?t (lists_of ?b ps)" using d(2) unfolding l t by simp
    ultimately have "os_view ?b ?t ps"
      by (intro os_viewI) (use d in \<open>simp_all add: t scheduler_current_def\<close>)
    then show ?thesis using w unfolding b by (intro os_relI [OF r]) (simp_all add: same)
  next
    case False
    let ?a = "a\<lparr>o_permits := (o_permits a)(h := ?v - 1), o_waiting := (o_waiting a)(h := o_waiting a h @ [?c])\<rparr>"
    let ?b = "run_next ?a" and ?m = "if o_ready a = [] then o_idle a else hd (o_ready a)"
    have b: "spec (Wait h) a = ?b" using False by (simp add: spec_wait_def Let_def)
    have m: "?m = (if o_ready a = [] then sch_kernel_main (sched s) else hd (o_ready a))" using d(4) by simp
    have c: "?c \<noteq> ?m" using h(2) current_elsewhere(1) [OF d(1)] by (cases "o_ready a") auto
    have n: "?c \<notin> set (o_ready a @ o_waiting a h)" "thread_node ?c \<noteq> 0"
      using u h(1) by (auto simp: unplaced_def places_of_def)
    have v: "sem_view h s (o_ready a) (o_waiting a h)" using places_view(1) [OF d(2) h(1)] by simp
    have z: "sint (sem_val (sems s h)) \<le> 0" "- 2147483648 < sint (sem_val (sems s h))" using False lo sv by simp_all
    have x: "fst (sem_wait h s) = 1" "sem_val (sems ?t h) = sem_val (sems s h) - 1" "scheduler_current ?t = ?m"
      using sem_wait_blocks [OF z v d(3) [symmetric] n m c] by (metis fst_conv, metis snd_conv, metis snd_conv)
    have l: "lists_of ?b ps = (lists_of a ps)(Ready := tl (o_ready a), Sem h := o_waiting a h @ [?c])"
      by (rule place_eqI) simp_all
    have "places (o_sems a) ?t (lists_of ?b ps)"
      using places_wait [OF d(2) u h(1)] d(3) x(1) unfolding l by simp
    moreover have "sint (sem_val (sems ?t k)) = o_permits ?b k" if "k \<in> o_sems a" for k
      using that d(5) x dec sem_wait_other [of k h s] by (cases "k = h") simp_all
    ultimately have "os_view ?b ?t ps"
      by (intro os_viewI) (use d x(3) same in simp_all)
    then show ?thesis using w unfolding b by (intro os_relI [OF r]) (simp_all add: same)
  qed
qed

lemma sem_signal_same:
  assumes "sem_signal h s = Inr (r, t)" and "thr_time_left (threads s (node_thread (sem_waiting (sems s h)))) \<noteq> 0"
  shows "sch_kernel_main (sched t) = sch_kernel_main (sched s)" and "scheduler_current t = scheduler_current s"
    and "user_thread_count (sched t) = user_thread_count (sched s)"
    and "sleeping t = sleeping s" and "mem_state.truncate t = mem_state.truncate s"
    and "console_receive_cnt t = console_receive_cnt s" and "k \<noteq> h \<Longrightarrow> sems t k = sems s k"
  using assms
  by (auto simp: sem_signal_def sem_unblock_thread_def sem_next_def Let_def split_beta upd_context_def upd_sem_def
    scheduler_current_def mem_state.truncate_def scheduler_push_def upd_thread_def upd_sched_def split: if_splits)

lemma os_signal:
  assumes r: "os_rel L ps a s" and al: "allowed (Signal h) a"
  obtains t where "sem_signal h s = Inr (0, t)" and "os_rel L ps (spec (Signal h) a) t"
proof -
  let ?v = "o_permits a h" and ?H = "o_holders a h - {o_current a}"
  note d = os_relD [OF r]
  have h: "h \<in> o_sems a" "o_current a \<in> o_holders a h" using al by simp_all
  have sv: "sint (sem_val (sems s h)) = ?v" by (rule d(5) [OF h(1)])
  have w: "os_ok (spec (Signal h) a)" by (rule spec_ok [OF d(1) al]) simp
  note ok = os_okD(6) [OF d(1) h(1)] and fin = os_okD(9) [OF d(1)]
  show thesis
  proof (cases "o_waiting a h")
    case Nil
    let ?b = "a\<lparr>o_permits := (o_permits a)(h := ?v + 1), o_holders := (o_holders a)(h := ?H)\<rparr>"
    have b: "spec (Signal h) a = ?b" using Nil by (simp add: spec_signal_def Let_def)
    note p = semaphore_release [OF ok Nil h(2) fin]
    have z: "0 \<le> sint (sem_val (sems s h))" "sint (sem_val (sems s h)) < 2147483647"
      using p(2,3) ok by (simp_all add: sv semaphore_ok_def)
    let ?t = "upd_sem h (\<lambda>x. x\<lparr>sem_val := sem_val x + 1\<rparr>) s"
    have "sint (sem_val (sems s h) + 1) = ?v + 1"
      using z sint_sub_i32 [of "sem_val (sems s h)" "- 1"] by (simp add: sv)
    then have "sint (sem_val (sems ?t k)) = o_permits ?b k" if "k \<in> o_sems a" for k
      using that d(5) by (cases "k = h") (simp_all add: upd_sem_def)
    moreover have "lists_of ?b ps = lists_of a ps" by (rule place_eqI) simp_all
    then have "places (o_sems a) ?t (lists_of ?b ps)" using d(2) by simp
    ultimately have "os_view ?b ?t ps"
      by (intro os_viewI) (use d in \<open>simp_all add: scheduler_current_def\<close>)
    then have "os_rel L ps (spec (Signal h) a) ?t" using w unfolding b by (intro os_relI [OF r]) simp_all
    then show thesis using that sem_signal_free [OF z] by blast
  next
    case (Cons x xs)
    let ?b = "a\<lparr>o_permits := (o_permits a)(h := ?v + 1), o_ready := o_ready a @ [x],
      o_waiting := (o_waiting a)(h := xs), o_holders := (o_holders a)(h := insert x ?H)\<rparr>"
    have b: "spec (Signal h) a = ?b" using Cons by (simp add: spec_signal_def Let_def)
    have xT: "x \<in> o_threads a" "distinct (o_waiting a h)" using waiting_thread [OF d(1) h(1)] Cons by simp_all
    note p = semaphore_pass [OF ok Cons h(2) fin xT]
    have tl: "thr_time_left (threads s x) \<noteq> 0" using d(7) xT(1) by simp
    have n: "node_thread (sem_waiting (sems s h)) = x"
      using places_views(3) [OF d(2) h(1)] Cons by (simp add: waiting_at_def thread_queue_at_def queue_Cons)
    have vw: "sem_view h s (o_ready a) (x # xs)" using places_view(1) [OF d(2) h(1)] Cons by simp
    have z: "sint (sem_val (sems s h)) < 0" using p(2) sv by simp
    obtain u where u: "sem_signal h s = Inr (0, u)" "sem_val (sems u h) = sem_val (sems s h) + 1"
      "threads u = (threads s)(x := (threads s x)\<lparr>thr_time_left := 2\<rparr>)"
      using sem_signal_wakes [OF z vw tl] by metis
    have up: "sint (sem_val (sems s h) + 1) = ?v + 1"
      using z sint_i32_bounds [of "sem_val (sems s h)"] sint_sub_i32 [of "sem_val (sems s h)" "- 1"] sv by simp
    then have le: "sem_val (sems s h) + 1 \<le>s 0" using z sv by (simp add: sle_0_iff)
    note same = sem_signal_same [OF u(1), unfolded n, OF tl]
    have "lists_of ?b ps = (lists_of a ps)(Sem h := xs, Ready := o_ready a @ [x])" by (rule place_eqI) simp_all
    moreover have "places (o_sems a) u ((lists_of a ps)(Sem h := xs, Ready := lists_of a ps Ready @ [x]))"
      by (rule places_signal [OF d(2) h(1) _ tl le u(1)]) (simp add: Cons)
    ultimately have "places (o_sems a) u (lists_of ?b ps)" by simp
    moreover have "sint (sem_val (sems u k)) = o_permits ?b k" if "k \<in> o_sems a" for k
      using that d(5) up u(2) same(7) by (cases "k = h") simp_all
    ultimately have "os_view ?b u ps"
      by (intro os_viewI) (use d(3-8) same in \<open>simp_all add: u(3)\<close>)
    then have "os_rel L ps (spec (Signal h) a) u" using w unfolding b by (intro os_relI [OF r]) (simp_all add: same)
    then show thesis using that u(1) by blast
  qed
qed

section \<open>Handing over the processor\<close>

lemma requeue_time:
  "thr_time_left (threads (requeue c s) x) = (if x = c then 2 else thr_time_left (threads s x))"
  by (simp add: requeue_def split_beta Let_def scheduler_push_fields)

lemma requeue_kept:
  "console_receive_cnt (requeue c s) = console_receive_cnt s"
  "user_thread_count (sched (requeue c s)) = user_thread_count (sched s)"
  "sch_kernel_main (sched (requeue c s)) = sch_kernel_main (sched s)"
  by (simp_all add: requeue_def split_beta Let_def)

lemma os_requeue:
  assumes r: "os_rel L ps a s" and c: "c = scheduler_current s"
  shows "os_rel L ps (hand_over a) (requeue c s)"
proof -
  note d = os_relD [OF r] and u = os_current(2) [OF r]
  let ?b = "hand_over a" and ?t = "requeue c s"
  have c: "c = o_current a" using c d(3) by simp
  have w: "os_ok ?b" by (rule hand_over_ok [OF d(1)])
  have q: "ready_queue s (o_ready a)" using places_views(1) [OF d(2)] by simp
  have cc: "scheduler_current ?t = hd (o_ready a @ [c])"
    using u unfolding c by (intro requeue_ready(2) [OF q]) (auto simp: unplaced_def places_of_def)
  have "lists_of ?b ps = (lists_of a ps)(Ready := tl (o_ready a @ [c]))"
    by (rule place_eqI) (simp_all add: hand_over_def c)
  then have "places (o_sems a) ?t (lists_of ?b ps)" using places_requeue [OF d(2) u] by (simp add: c)
  then have "os_view ?b ?t ps"
    by (intro os_viewI) (use d(3-8) cc c in \<open>auto simp: hand_over_def requeue_time requeue_kept\<close>)
  then show ?thesis using w by (intro os_relI [OF r]) (simp_all add: hand_over_def)
qed

text \<open>The thread that runs next.\<close>

lemma next_current:
  assumes "places S s f"
  shows "fst (scheduler_next s) = (if f Ready = [] then sch_kernel_main (sched s) else hd (f Ready))"
    and "scheduler_current (snd (scheduler_next s)) = (if f Ready = [] then sch_kernel_main (sched s) else hd (f Ready))"
  using scheduler_next_cases(1) [OF places_views(1) [OF assms]] scheduler_next_current [of s]
  by (simp_all add: scheduler_current_def)

lemma os_idle:
  assumes r: "os_rel L ps a s" and al: "allowed Idle a"
  shows "os_rel L ps (spec Idle a) (kernel_dispatch s)"
proof -
  note d = os_relD [OF r]
  let ?t = "kernel_dispatch s" and ?b = "run_next a"
  have w: "os_ok ?b" using spec_ok [OF d(1) al] by simp
  have cc: "scheduler_current ?t = o_current ?b"
    using next_current(2) [OF d(2)] d(4) by (simp add: kernel_dispatch_def Let_def split_beta scheduler_current_def)
  have f: "sch_kernel_main (sched ?t) = sch_kernel_main (sched s)" "sems ?t = sems s"
    "user_thread_count (sched ?t) = user_thread_count (sched s)"
    "console_receive_cnt ?t = console_receive_cnt s" "sleeping ?t = sleeping s"
    "mem_state.truncate ?t = mem_state.truncate s"
    "thr_time_left (threads ?t x) = thr_time_left (threads s x)" for x
    by (simp_all add: kernel_dispatch_def Let_def split_beta mem_state.truncate_def)
      (simp_all add: scheduler_next_def yield_def Let_def split_beta upd_defs)
  have "places (o_sems a) ?t g = places (o_sems a) (snd (scheduler_next s)) g" for g
    by (rule places_cong) (simp_all add: kernel_dispatch_def Let_def split_beta)
  moreover have "lists_of ?b ps = (lists_of a ps)(Ready := tl (o_ready a))" by (rule place_eqI) simp_all
  ultimately have "places (o_sems a) ?t (lists_of ?b ps)" using places_next_ready [OF d(2)] by simp
  then have "os_view ?b ?t ps"
    by (intro os_viewI) (use d(3-8) cc in \<open>simp_all add: f\<close>)
  then show ?thesis using w unfolding spec.simps by (intro os_relI [OF r]) (simp_all add: f)
qed

section \<open>Input\<close>

lemma shift_same: "os_same (s\<lparr>console_receive_buffer := b\<rparr>) s"
  by (simp add: os_same_def mem_state.truncate_def)

text \<open>Counting the buffered bytes down, or up to the size of the buffer, keeps the relation.\<close>

lemma os_count:
  assumes r: "os_rel L ps a s" and "k \<le> 1024"
  shows "os_rel L ps a (s\<lparr>console_receive_cnt := k\<rparr>)"
proof -
  let ?t = "s\<lparr>console_receive_cnt := k\<rparr>"
  note d = os_relD [OF r]
  have "places (o_sems a) ?t (lists_of a ps)" using d(2) places_cong [of ?t s] by simp
  then have "os_view a ?t ps"
    by (intro os_viewI) (use d(3-8) assms(2) in \<open>simp_all add: scheduler_current_def\<close>)
  then show ?thesis by (intro os_relI [OF r d(1)]) (simp_all add: mem_state.truncate_def)
qed

lemma os_getc:
  assumes r: "os_rel L ps a s" and al: "allowed (Read_char b) a" and b: "b \<longleftrightarrow> console_receive_cnt s = 0"
  shows "os_rel L ps (spec (Read_char b) a) (snd (getc s))"
proof (cases b)
  case True
  note d = os_relD [OF r] and u = os_current(2) [OF r]
  let ?c = "o_current a" and ?t = "snd (getc s)"
  let ?b = "run_next (a\<lparr>o_input := o_input a @ [?c]\<rparr>)"
  have w: "os_ok ?b" using spec_ok [OF d(1) al] True by simp
  have z: "console_receive_cnt s = 0" using True b by simp
  have t: "?t = input_push ?c (yield ?c (fst (scheduler_next s)) (snd (scheduler_next s)))"
    using z d(3) by (simp add: getc_def Let_def split_beta)
  have cc: "scheduler_current ?t = o_current ?b"
    using next_current(2) [OF d(2)] d(4) unfolding t by (simp add: input_fields scheduler_current_def)
  have f: "sch_kernel_main (sched ?t) = sch_kernel_main (sched s)" "sems ?t = sems s" "sleeping ?t = sleeping s"
    "user_thread_count (sched ?t) = user_thread_count (sched s)"
    "console_receive_cnt ?t = console_receive_cnt s" "mem_state.truncate ?t = mem_state.truncate s"
    "thr_time_left (threads ?t x) = thr_time_left (threads s x)" for x
    unfolding t
    by (simp_all add: input_fields)
      (simp_all add: input_push_def split_beta Let_def mem_state.truncate_def yield_def upd_defs scheduler_next_def)
  have "lists_of ?b ps = (lists_of a ps)(Ready := tl (o_ready a), Input := o_input a @ [?c])"
    by (rule place_eqI) simp_all
  then have "places (o_sems a) ?t (lists_of ?b ps)" using places_getc [OF d(2) u _ z] d(3) by simp
  then have "os_view ?b ?t ps"
    by (intro os_viewI) (use d(3-8) cc in \<open>simp_all add: f\<close>)
  then have "os_rel L ps ?b ?t" using w by (intro os_relI [OF r]) (simp_all add: f)
  then show ?thesis using True by simp
next
  case False
  let ?x = "upd_context (thr_sp (threads s (scheduler_current s))) (set_a0 (ucast (console_receive_buffer s 0))) s"
  let ?y = "?x\<lparr>console_receive_cnt := console_receive_cnt s - 1\<rparr>"
  have t: "snd (getc s) = ?y\<lparr>console_receive_buffer :=
      shift_loop 1 0 (unat (console_receive_cnt s - 1)) (console_receive_buffer s)\<rparr>"
    using False b by (simp add: getc_def Let_def upd_context_def)
  have "os_rel L ps a ?x" using r unfolding os_same_rel [OF os_same_context] .
  moreover have "console_receive_cnt s - 1 \<le> 1024"
    using False b os_relD(8) [OF r] by (simp add: word_le_nat_alt unat_minus_one)
  ultimately have "os_rel L ps a ?y" by (rule os_count)
  then have "os_rel L ps a (snd (getc s))" unfolding t os_same_rel [OF shift_same] .
  then show ?thesis using False by simp
qed

text \<open>Received bytes wake the threads that wait for input.\<close>

lemma os_deliver:
  assumes r: "os_rel L ps a s" and z: "o_input a = z # zs"
  shows "os_rel L ps (spec (Device 1) a) (deliver k s)"
proof -
  note d = os_relD [OF r]
  note p = places_deliver [OF d(2), of z zs k]
  let ?t = "deliver k s" and ?b = "a\<lparr>o_ready := o_ready a @ [z], o_input := zs\<rparr>"
  have b: "spec (Device 1) a = ?b" by (simp add: z)
  have w: "os_ok ?b" using device_ok [OF d(1), of 1] unfolding b .
  have t: "?t = scheduler_push z (upd_context (thr_sp (threads s z))
      (set_a0 (ucast (console_receive_buffer s (unat k)))) (snd (input_pop s)))"
    by (rule p(2)) (simp add: z)
  have f: "scheduler_current ?t = scheduler_current s" "sch_kernel_main (sched ?t) = sch_kernel_main (sched s)"
    "user_thread_count (sched ?t) = user_thread_count (sched s)"
    "sems ?t = sems s" "sleeping ?t = sleeping s" "mem_state.truncate ?t = mem_state.truncate s"
    "thr_time_left (threads ?t x) = (if x = z then 2 else thr_time_left (threads s x))" for x
    unfolding t
    by (simp_all add: scheduler_current_def input_fields scheduler_push_fields upd_context_def)
      (simp_all add: input_pop_def split_beta Let_def mem_state.truncate_def)
  have "lists_of ?b ps = (lists_of a ps)(Input := zs, Ready := o_ready a @ [z])" by (rule place_eqI) simp_all
  then have "places (o_sems a) ?t (lists_of ?b ps)" using p(1) z by simp
  then have "os_view ?b ?t ps"
    by (intro os_viewI) (use d(3-8) in \<open>simp_all add: f deliver_receive\<close>)
  then show ?thesis using w unfolding b by (intro os_relI [OF r]) (simp_all add: f)
qed

lemma device_steps: "spec (Device n) (spec (Device m) a) = spec (Device (m + n)) a"
  by (simp add: take_add add.commute)

lemma device_none: "o_input a = [] \<or> n = 0 \<Longrightarrow> spec (Device n) a = a"
  by auto

lemma os_deliver_loop:
  assumes "os_rel L ps a s" and "console_deliver_loop k s = (m, t)" and "k \<le> ucast (console_receive_cnt s)"
  shows "os_rel L ps (spec (Device (unat (console_receive_cnt s) - unat k)) a) t
    \<and> console_receive_cnt t = console_receive_cnt s \<and> m \<le> ucast (console_receive_cnt s)"
  using assms
proof (induction k s arbitrary: a rule: console_deliver_loop.induct)
  case (1 k s)
  have empty: "threads_waiting_for_input s = 0 \<longleftrightarrow> o_input a = []"
    using input_queue_head [of s "o_input a"] places_views(2) [OF os_relD(2) [OF "1.prems"(1)]] by simp
  show ?case
  proof (cases "threads_waiting_for_input s \<noteq> 0 \<and> k < ucast (console_receive_cnt s)")
    case False
    then have "m = k" "t = s" using "1.prems"(2) by (subst (asm) console_deliver_loop.simps, auto)+
    moreover have "o_input a = [] \<or> unat (console_receive_cnt s) - unat k = 0"
      using False empty "1.prems"(3) by (auto simp: word_le_nat_alt unat_ucast_u32 not_less)
    then have "spec (Device (unat (console_receive_cnt s) - unat k)) a = a" by (rule device_none)
    ultimately show ?thesis using "1.prems"(1,3) by simp
  next
    case True
    then obtain z zs where z: "o_input a = z # zs" using empty by (cases "o_input a") auto
    let ?s = "deliver k s"
    have r: "os_rel L ps (spec (Device 1) a) ?s" by (rule os_deliver [OF "1.prems"(1) z])
    have "console_deliver_loop (k + 1) ?s = (m, t)"
      using True "1.prems"(2) by (subst (asm) console_deliver_loop.simps) simp
    moreover have "k + 1 \<le> ucast (console_receive_cnt ?s)"
      unfolding deliver_receive using True by (simp add: inc_le)
    ultimately have "os_rel L ps (spec (Device (unat (console_receive_cnt s) - unat (k + 1))) (spec (Device 1) a)) t
        \<and> console_receive_cnt t = console_receive_cnt s \<and> m \<le> ucast (console_receive_cnt s)"
      using "1.IH" [OF True r] by (simp only: deliver_receive)
    moreover have "1 + (unat (console_receive_cnt s) - unat (k + 1)) = unat (console_receive_cnt s) - unat k"
    proof -
      have "k < ucast (console_receive_cnt s)" using True by blast
      then show ?thesis using unat_inc [of k "ucast (console_receive_cnt s)"] by (simp add: word_less_nat_alt unat_ucast_u32)
    qed
    ultimately show ?thesis by (simp only: device_steps)
  qed
qed

lemma os_receive:
  assumes r: "os_rel L ps a s"
  shows "os_rel L ps (spec (Device (unat (console_receive_cnt (console_fill_loop s)))) a) (console_receive s)"
proof -
  obtain b' c i k where f: "console_fill_loop s = s\<lparr>console_receive_buffer := b', console_receive_cnt := c,
      dev_status_reads := i, dev_rx_reads := k\<rparr>" "c \<le> 1024"
    using console_fill_result [OF os_relD(8) [OF r]] by blast
  have "os_same (console_fill_loop s) (s\<lparr>console_receive_cnt := c\<rparr>)"
    unfolding f(1) by (simp add: os_same_def mem_state.truncate_def)
  then have rf: "os_rel L ps a (console_fill_loop s)" using os_count [OF r f(2)] by (simp only: os_same_rel)
  obtain m t where m: "console_deliver_loop 0 (console_fill_loop s) = (m, t)" by fastforce
  have cc: "console_receive_cnt (console_fill_loop s) = c" by (simp add: f(1))
  have t: "os_rel L ps (spec (Device (unat c)) a) t" "console_receive_cnt t = c" "m \<le> ucast c"
    using os_deliver_loop [OF rf m] by (simp_all add: cc del: spec.simps)
  then have mc: "unat m \<le> unat c" by (simp add: word_le_nat_alt unat_ucast_u32)
  then have um: "unat (ucast m :: u32) = unat m"
    using unat_u32_bound [of c] by (simp add: unsigned_ucast_eq take_bit_nat_eq_self_iff)
  have "unat (c - ucast m) = unat c - unat m" using mc um by (simp add: unat_sub_if')
  then have "console_receive_cnt t - ucast m \<le> 1024" using f(2) by (simp add: t(2) word_le_nat_alt)
  from os_count [OF t(1) this] show ?thesis
    by (simp add: console_receive_def m Let_def os_same_rel [OF shift_same] cc del: spec.simps)
qed

section \<open>The timer\<close>

lemma due_entries: "due (map (\<lambda>(w, t). (w, t, x)) es) = map (\<lambda>(w, t). (w, t, x)) (due es)"
  by (simp add: due_def takeWhile_map o_def case_prod_unfold)

lemma ticked_entries:
  "map (\<lambda>e. (fst e - 1, snd e)) (drop (length (due es)) (map (\<lambda>(w, t). (w, t, x)) es)) =
    map (\<lambda>(w, t). (w, t, x)) (ticked es)"
  by (simp add: ticked_def due_def dropWhile_eq_drop drop_map o_def case_prod_unfold)

lemma objects_woken:
  assumes "objects a L ps" and "X \<subseteq> set ps" and "set rs \<subseteq> set ps" and "X \<inter> set rs = {}"
  shows "objects a (L - (\<lambda>p. (p, 1)) ` X) rs"
proof -
  let ?L = "L - (\<lambda>p. (p, 1)) ` X"
  note o = objectsD [OF assms(1)]
  have "(x, 1) \<in> ?L" if "x \<in> all_threads a \<union> o_sems a \<union> set rs" for x
    using that o(1) [of x] o(2) [of x] o(3) [of x] assms(2-4) by blast
  moreover have "b \<in> fst ` ?L" if b: "b \<in> o_blocks a" for b
  proof -
    obtain m where "(b, m) \<in> L" using o(4) [OF b] by blast
    then have "(b, m) \<in> ?L" using o(4) [OF b] assms(2) by blast
    then show ?thesis by force
  qed
  moreover have "all_threads a \<inter> o_sems a = {}" "(all_threads a \<union> o_sems a) \<inter> set rs = {}"
    "(all_threads a \<union> o_sems a \<union> set rs) \<inter> o_blocks a = {}"
    using assms(1,3) unfolding objects_def by blast+
  ultimately show ?thesis unfolding objects_def by blast
qed

lemma spec_wake_fields:
  "o_idle (spec_wake a) = o_idle a" "o_threads (spec_wake a) = o_threads a" "o_sems (spec_wake a) = o_sems a"
  "o_blocks (spec_wake a) = o_blocks a" "o_current (spec_wake a) = o_current a"
  by (simp_all add: spec_wake_def)

text \<open>The woken threads become ready.\<close>

lemma os_wake:
  assumes r: "os_rel L ps a s"
  obtains u L' ps' where "scheduler_tick s = Inr u" and "os_rel L' ps' (spec_wake a) u"
    and "thr_time_left (threads u (o_current a)) = thr_time_left (threads s (o_current a))"
proof (cases ps)
  case Nil
  note d = os_relD [OF r]
  have "sleeping_threads (sched s) = 0" using sleepers_empty [OF places_views(4) [OF d(2)], of ps] Nil by simp
  then have "scheduler_tick s = Inr s" by (simp add: scheduler_tick_def)
  moreover have "o_sleeping a = []" using sleeping_threads(2) [OF r] Nil by simp
  then have "spec_wake a = a" by (simp add: spec_wake_def due_def ticked_def)
  ultimately show thesis using that r by metis
next
  case (Cons p qs)
  note d = os_relD [OF r, unfolded Cons] and o = objectsD [OF os_relD(11) [OF r], unfolded Cons]
  note u0 = os_current(2) [OF r, unfolded Cons]
  let ?ps = "p # qs" and ?S = "o_sems a" and ?f = "lists_of a (p # qs)" and ?W = "due (wakes s (p # qs))"
  let ?rs = "drop (length ?W) ?ps" and ?L = "L - (\<lambda>p. (p, 1)) ` set (take (length ?W) ?ps)"
  have es: "map (sleeper_thread s) ?ps = map snd (o_sleeping a)" using sleeping_threads(1) [OF r] Cons by simp
  have bl: "mset (map (sleeper_thread s) ?ps) \<subseteq># blocked a"
    unfolding es blocked_def by (simp add: subset_mset.add_increasing subset_mset.add_increasing2)
  have th: "sleeper_thread s q \<in> o_threads a \<and> sleeper_thread s q \<in># blocked a" if q: "q \<in> set ?ps" for q
  proof -
    have "sleeper_thread s q \<in># mset (map (sleeper_thread s) ?ps)" using q unfolding set_mset_mset set_map by blast
    then have m: "sleeper_thread s q \<in># blocked a" by (rule mset_subset_eqD [OF bl])
    moreover have "sleeper_thread s q \<noteq> o_idle a" using os_okD(3) [OF d(1)] m by auto
    ultimately show ?thesis using os_okD(2) [OF d(1)] by (auto simp: everyone_def)
  qed
  have once: "count (mset (map (sleeper_thread s) ?ps)) x + count (mset (o_ready a) + mset (o_input a) + queued ?S (o_waiting a)) x \<le> 1" for x
  proof -
    have "count (mset (map (sleeper_thread s) ?ps)) x + count (mset (o_ready a) + mset (o_input a) + queued ?S (o_waiting a)) x =
        count (mset (o_ready a) + blocked a) x" unfolding es blocked_def by simp
    also have "\<dots> \<le> count (everyone a) x" unfolding everyone_def count_add_mset by simp
    also have "\<dots> \<le> 1" by (rule os_okD(1) [OF d(1)])
    finally show ?thesis .
  qed
  have ts: "distinct (map (sleeper_thread s) ?ps)"
  proof -
    have "count (mset (map (sleeper_thread s) ?ps)) x \<le> 1" for x using once [of x] by (rule add_leD1)
    then show ?thesis unfolding distinct_count_atmost_1 by (auto simp: le_Suc_eq count_eq_zero_iff simp del: mset_map list.map)
  qed
  have none: "sleeper_thread s q \<notin># mset (o_ready a) + mset (o_input a) + queued ?S (o_waiting a)" if q: "q \<in> set ?ps" for q
  proof -
    have "count (mset (map (sleeper_thread s) ?ps)) (sleeper_thread s q) \<noteq> 0"
      using q unfolding count_eq_zero_iff set_mset_mset set_map by blast
    then have "count (mset (o_ready a) + mset (o_input a) + queued ?S (o_waiting a)) (sleeper_thread s q) = 0"
      using once [of "sleeper_thread s q"] by linarith
    then show ?thesis unfolding count_eq_zero_iff .
  qed
  have apart: "sleeper_thread s q \<notin> set (?f l)" if l: "l \<in> places_of ?S" and q: "q \<in> set ?ps" for l q
  proof (cases l)
    case Asleep
    then show ?thesis using os_valid(2) [OF r, of "sleeper_thread s q"] th [OF q] Cons by simp
  next
    case (Sem h)
    then show ?thesis using none [OF q] queued_split [OF os_okD(5) [OF d(1)], of h "o_waiting a"] l by simp
  qed (use none [OF q] in simp_all)
  have d0: "0 < delay s p" using d(9) by (simp add: naps_def)
  have e: "\<forall>q \<in> set ?ps. (q, 1) \<in> L \<and> slp_semaphore (sleeping s q) = 0 \<and> thread_node (sleeper_thread s q) \<noteq> 0"
  proof
    fix q assume q: "q \<in> set ?ps"
    show "(q, 1) \<in> L \<and> slp_semaphore (sleeping s q) = 0 \<and> thread_node (sleeper_thread s q) \<noteq> 0"
      using o(3) [OF q] naps_wakes [OF d(9) q] os_valid(1) [OF r, of "sleeper_thread s q"] th [OF q] by blast
  qed
  have fA: "?f Asleep = map slot ?ps" by simp
  obtain u where u: "scheduler_tick s = Inr u"
    "places ?S u (?f(Ready := ?f Ready @ map (\<lambda>e. fst (snd e)) ?W, Asleep := map slot ?rs))" "owns u ?L"
    "wakes u ?rs = map (\<lambda>e. (fst e - 1, snd e)) (drop (length ?W) (wakes s ?ps))"
    "tick_frame s u (thread_node ` (set (?f Ready) \<union> sleeper_thread s ` set ?ps) \<union> sleeper_node ` set ?ps)"
    by (rule places_tick [OF d(2) fA d0 d(12) e ts apart refl])
  note tf = u(5) [unfolded tick_frame_def]
  have tl: "thr_time_left (threads u x) = thr_time_left (threads s x) \<or> thr_time_left (threads u x) = 2" for x
    using tf by blast
  have f: "sems u = sems s" "console_receive_cnt u = console_receive_cnt s" "scheduler_current u = scheduler_current s"
    "sch_kernel_main (sched u) = sch_kernel_main (sched s)" "user_thread_count (sched u) = user_thread_count (sched s)"
    using tf by (simp_all add: scheduler_current_def)
  let ?b = "spec_wake a"
  have W: "?W = map (\<lambda>(w, t). (w, t, 0)) (due (o_sleeping a))" unfolding d(10) due_entries ..
  have "map (\<lambda>e. fst (snd e)) ?W = map snd (due (o_sleeping a))" unfolding W by (simp add: case_prod_unfold)
  then have "lists_of ?b ?rs = ?f(Ready := ?f Ready @ map (\<lambda>e. fst (snd e)) ?W, Asleep := map slot ?rs)"
    by (intro place_eqI) (simp_all add: spec_wake_def)
  then have "places ?S u (lists_of ?b ?rs)" using u(2) by simp
  then have "os_view ?b u ?rs"
  proof (intro os_viewI)
    fix x assume "x \<in> all_threads ?b"
    then show "thr_time_left (threads u x) \<noteq> 0" using d(7) [of x] tl [of x] by (auto simp: spec_wake_def)
  qed (use d f in \<open>simp_all add: spec_wake_def\<close>)
  moreover have "distinct ?ps" by (rule sleepers_distinct [OF places_views(4) [OF d(2) fA]])
  note n = naps_tick(1) [OF d(9) refl u(3,4) this]
  have lw: "length ?W = length (due (o_sleeping a))" unfolding W by simp
  have "wakes u ?rs = map (\<lambda>(w, t). (w, t, 0)) (o_sleeping ?b)"
    using u(4) unfolding d(10) due_entries length_map ticked_entries by (simp add: spec_wake_def)
  moreover have "objects ?b ?L ?rs"
  proof -
    have sub: "set (take (length ?W) ?ps) \<subseteq> set ?ps" "set ?rs \<subseteq> set ?ps" by (rule set_take_subset, rule set_drop_subset)
    have "set (take (length ?W) ?ps) \<inter> set ?rs = {}"
      using \<open>distinct ?ps\<close> by (rule set_take_disj_set_drop_if_distinct) simp
    from objects_woken [OF d(11) sub this] show ?thesis by (simp only: objects_cong [OF spec_wake_fields(1-4)])
  qed
  ultimately have "os_rel ?L ?rs ?b u" using n wake_ok [OF d(1)] by (simp add: os_rel_def os_heap_def)
  moreover have "thread_node (o_current a) \<notin> thread_node ` (set (?f Ready) \<union> sleeper_thread s ` set ?ps) \<union> sleeper_node ` set ?ps"
  proof -
    have "o_current a \<notin> sleeper_thread s ` set ?ps"
    proof
      assume "o_current a \<in> sleeper_thread s ` set ?ps"
      then obtain q where "o_current a = sleeper_thread s q" "q \<in> set ?ps" by (rule imageE)
      then show False using th [of q] current_elsewhere(2) [OF d(1)] by simp
    qed
    moreover have "thread_node (o_current a) \<notin> sleeper_node ` set ?ps"
      using unplacedD(3) [OF u0] unfolding fA by (rule slot_beside)
    moreover note unplacedD(1) [OF u0]
    ultimately show ?thesis by (simp only: Un_iff thread_node_mem simp_thms)
  qed
  then have "threads u (o_current a) = threads s (o_current a)" using tf by blast
  ultimately show thesis using that u(1) by simp
qed

lemma os_slice:
  assumes r: "os_rel L ps a s" and c: "c = scheduler_current s"
    and s1: "s1 = upd_thread c (\<lambda>x. x\<lparr>thr_time_left := thr_time_left x - 1\<rparr>) s"
  shows "os_rel L ps (if thr_time_left (threads s c) = 1 then hand_over a else a)
    (if thr_time_left (threads s1 c) = 0 then requeue c s1 else s1)"
proof -
  note d = os_relD [OF r]
  have keep: "os_rel L ps a (upd_thread c (\<lambda>x. x\<lparr>thr_time_left := k x\<rparr>) s)" (is "os_rel L ps a ?t")
    if k: "k (threads s c) \<noteq> 0" for k
  proof (rule os_relI [OF r d(1)])
    show "os_view a ?t ps"
    proof (rule os_viewI)
      show "thr_time_left (threads ?t x) \<noteq> 0" if "x \<in> all_threads a" for x
        using d(7) [OF that] k by (simp add: upd_thread_def)
    qed (use d(2-8) in \<open>simp_all add: scheduler_current_def\<close>)
  qed simp_all
  have e: "thr_time_left (threads s1 c) = 0 \<longleftrightarrow> thr_time_left (threads s c) = 1"
    by (simp add: s1 upd_thread_def)
  show ?thesis
  proof (cases "thr_time_left (threads s c) = 1")
    case False
    then show ?thesis using keep [of "\<lambda>x. thr_time_left x - 1"] e by (simp add: s1)
  next
    case True
    let ?r = "upd_thread c (\<lambda>x. x\<lparr>thr_time_left := 2\<rparr>) s"
    have cr: "c = scheduler_current ?r" by (simp add: scheduler_current_def c)
    have "requeue c s1 = requeue c ?r"
      using True by (simp add: requeue_def scheduler_push_def upd_thread_def Let_def s1)
    moreover have "os_rel L ps (hand_over a) (requeue c ?r)" by (rule os_requeue [OF _ cr], rule keep) simp
    ultimately show ?thesis using True e by simp
  qed
qed

lemma os_tick:
  assumes r: "os_rel L ps a s" and p: "p \<longleftrightarrow> thr_time_left (threads s (scheduler_current s)) = 1"
  obtains t L' ps' where "irq_timer s = Inr t" and "os_rel L' ps' (spec (Tick p) a) t"
proof -
  obtain u L' ps' where u: "scheduler_tick s = Inr u" "os_rel L' ps' (spec_wake a) u"
    "thr_time_left (threads u (o_current a)) = thr_time_left (threads s (o_current a))"
    by (rule os_wake [OF r])
  let ?c = "scheduler_current u"
  define s1 where "s1 = upd_thread ?c (\<lambda>x. x\<lparr>thr_time_left := thr_time_left x - 1\<rparr>) u"
  define t where "t = (if thr_time_left (threads s1 ?c) = 0 then requeue ?c s1 else s1)"
  have c: "?c = o_current a" "scheduler_current s = o_current a"
    using os_relD(3) [OF u(2)] os_relD(3) [OF r] by (simp_all add: spec_wake_fields)
  have "irq_timer s = Inr t" using u(1) by (simp add: irq_timer_def Let_def t_def s1_def)
  moreover have "os_rel L' ps' (spec (Tick p) a) t"
    using os_slice [OF u(2) refl s1_def] p u(3) unfolding t_def c by simp
  ultimately show thesis by (rule that)
qed

section \<open>The heap\<close>

text \<open>Whether the heap has room for \<open>k\<close> blocks, and where.\<close>

definition new_block :: "u64 \<Rightarrow> kernel \<Rightarrow> u64" where
  "new_block k s = (case mem_alloc k s of Inl _ \<Rightarrow> 0 | Inr (p, _) \<Rightarrow> p)"

lemma new_block_alloc: "mem_alloc k s = Inr (p, t) \<Longrightarrow> new_block k s = p"
  by (simp add: new_block_def)

lemma new_blockE:
  assumes "new_block k s \<noteq> 0"
  obtains v where "mem_alloc k s = Inr (new_block k s, v)"
  using assms by (auto simp: new_block_def split: sum.splits)

lemma new_block_cong:
  assumes "owns s L" and "0 < uint k" and "mem_state.truncate t = mem_state.truncate s"
  shows "new_block k t = new_block k s"
proof -
  have eq: "new_block k v = p" if "mem_alloc k u = Inr (p, w)" "p \<noteq> 0" "owns u L"
    "mem_state.truncate v = mem_state.truncate u" for u v w p
    using owned_alloc_cong [OF that(3) assms(2) that(1,2,4)] by (metis new_block_alloc)
  have o: "owns t L" using assms(1) owns_cong [OF assms(3)] by simp
  show ?thesis
  proof (cases "new_block k s = 0")
    case True
    then show ?thesis using eq [OF _ _ o assms(3) [symmetric]] new_blockE [of k t] by metis
  next
    case False
    then show ?thesis using eq [OF _ _ assms(1,3)] new_blockE [OF False] by metis
  qed
qed

text \<open>A new object is none of those that exist.\<close>

lemma fresh_object:
  assumes "os_rel L ps a s" and "0 < uint k" and "mem_alloc k s = Inr (p, t)" and "p \<noteq> 0"
  shows "owns t (insert (p, uint k) L)" and "(p, m) \<notin> L"
    and "p \<notin> all_threads a \<union> o_sems a \<union> set ps \<union> o_blocks a"
proof -
  note o = os_relD(12) [OF assms(1)]
  show "owns t (insert (p, uint k) L)" using mem_heap.alloc_fresh [OF o assms(2-4)] by blast
  have n: "(p, m) \<notin> L" for m by (rule mem_heap.alloc_not_owned [OF o assms(2-4)])
  then show "(p, m) \<notin> L" .
  note d = objectsD [OF os_relD(11) [OF assms(1)]]
  show "p \<notin> all_threads a \<union> o_sems a \<union> set ps \<union> o_blocks a"
    using n d(1) [of p] d(2) [of p] d(3) [of p] d(4) [of p] by blast
qed

lemma naps_heap:
  assumes "naps s L ps" and "sleeping t = sleeping s" and "owns t M" and "\<And>p. p \<in> set ps \<Longrightarrow> (p, 1) \<in> M"
  shows "naps t M ps"
  using assms wakes_cong [of ps t s] by (simp add: naps_def)

lemma os_relI_heap:
  assumes "os_rel L ps a s" and "os_ok b" and "os_view b t ps" and "sleeping t = sleeping s"
    and "o_sleeping b = o_sleeping a" and "owns t M" and "objects b M ps"
  shows "os_rel M ps b t"
proof -
  have "naps t M ps" using naps_heap [OF os_relD(9) [OF assms(1)] assms(4,6)] objectsD(3) [OF assms(7)] by blast
  moreover have "wakes t ps = wakes s ps" using wakes_cong(1) [of ps t s 0] assms(4) by simp
  ultimately show ?thesis
    using assms(2,3,7) os_relD(10) [OF assms(1)] by (simp add: os_rel_def os_heap_def assms(5))
qed

section \<open>Going to sleep\<close>

text \<open>\<open>__scheduler_timeout\<close> uses the block it asks for without looking whether there is one.\<close>

lemma insert_wake_entries:
  "insert_wake (w, t, x) (map (\<lambda>(w, t). (w, t, x)) es) = map (\<lambda>(w, t). (w, t, x)) (insert_wake (w, t) es)"
  by (cases es) (auto simp: insert_rest_def takeWhile_map dropWhile_map o_def case_prod_unfold)

lemma os_sleep:
  assumes r: "os_rel L ps a s" and al: "allowed (Sleep (unat time)) a" and t: "time \<noteq> 0"
    and room: "new_block 1 s \<noteq> 0" and c: "c = scheduler_current s"
  obtains u L' qs where "scheduler_timeout c time 0 s = Inr u"
    and "os_rel L' qs (spec (Sleep (unat time)) a) (yield c (fst (scheduler_next u)) (snd (scheduler_next u)))"
proof -
  note d = os_relD [OF r]
  have cc: "c = o_current a" using c d(3) by simp
  have l: "\<forall>p \<in> set ps. (p, 1) \<in> L" and tot: "total s ps < 18446744073709551616"
    using d(9) by (simp_all add: naps_def)
  obtain q v where q: "mem_alloc 1 s = Inr (q, v)" "q \<noteq> 0" using room new_blockE [OF room] by blast
  have "0 < uint (1 :: u64)" by simp
  note fresh = fresh_object [OF r this q]
  have sl: "sleepers s ps" using places_views(4) [OF d(2)] by simp
  obtain u qs where u: "scheduler_timeout c time 0 s = Inr u" "sleepers u qs" "set qs = insert q (set ps)"
    "wakes u qs = insert_wake (unat time, c, 0) (wakes s ps)" "total u qs < 18446744073709551616"
    "owns u (insert (q, 1) L)" "sleep_frame s u (sleeper_node ` set qs)"
    by (rule timeout_inserts [OF sl tot d(12) l q])
  let ?L = "insert (q, 1) L" and ?x = "yield c (fst (scheduler_next u)) (snd (scheduler_next u))"
  let ?b = "run_next (a\<lparr>o_sleeping := insert_wake (unat time, c) (o_sleeping a)\<rparr>)"
  have b: "spec (Sleep (unat time)) a = ?b" using t by (simp add: unat_eq_0 cc)
  have w: "os_ok ?b" using spec_ok [OF d(1) al] unfolding b by simp
  have th: "x \<in> all_threads a" if "l \<in> places_of (o_sems a)" "l \<noteq> Asleep" "x \<in> set (lists_of a ps l)" for l x
  proof -
    have "x \<in># everyone a"
      using that queued_split [OF os_okD(5) [OF d(1)], of _ "o_waiting a"]
      by (cases l) (auto simp: everyone_def blocked_def)
    then show ?thesis using os_okD(2) [OF d(1)] by auto
  qed
  have apart: "x \<notin> set (map slot qs)"
    if x: "l \<in> places_of (o_sems a)" "l \<noteq> Asleep" "x \<in> set (lists_of a ps l)" for l x
  proof -
    have "(x, 1) \<in> ?L" using objectsD(1) [OF d(11) th [OF x]] by blast
    moreover have "(p, 1) \<in> ?L" if "p \<in> set qs" for p using that u(3) l by auto
    ultimately show ?thesis using slot_not_owned [OF u(6)] by auto
  qed
  have p: "places (o_sems a) u ((lists_of a ps)(Asleep := map slot qs))" by (rule places_timeout [OF d(2) u(7,2) apart])
  have e: "sched u = (sched s)\<lparr>sleeping_threads := sleeping_threads (sched u)\<rparr>"
    and f: "sems u = sems s" "console_receive_cnt u = console_receive_cnt s" "threads u = threads s"
    using u(7) unfolding sleep_frame_def by blast+
  have "sch_kernel_main (sched u) = sch_kernel_main (sched s)"
    "user_thread_count (sched u) = user_thread_count (sched s)" by (subst e, simp)+
  note f = this f
  have g: "scheduler_current ?x = o_current ?b" "sch_kernel_main (sched ?x) = o_idle a" "sems ?x = sems s"
    "user_thread_count (sched ?x) = user_thread_count (sched s)" "console_receive_cnt ?x = console_receive_cnt s"
    "thr_time_left (threads ?x y) = thr_time_left (threads s y)" for y
    using next_current(2) [OF p] d(4) by (simp_all add: f scheduler_current_def)
  have "lists_of ?b qs = (lists_of a ps)(Asleep := map slot qs, Ready := tl (o_ready a))" by (rule place_eqI) simp_all
  then have "places (o_sems a) ?x (lists_of ?b qs)" using places_next_ready [OF p] by simp
  then have "os_view ?b ?x qs" by (intro os_viewI) (use d(3-8) in \<open>simp_all add: g f\<close>)
  moreover have wk: "wakes ?x qs = map (\<lambda>(w, t). (w, t, 0)) (o_sleeping ?b)"
    using wakes_cong(1) [of qs ?x u 0] u(4) by (simp add: d(10) insert_wake_entries)
  moreover have "naps ?x ?L qs"
  proof -
    have "\<forall>e \<in> set (o_sleeping ?b). 0 < fst e" using os_okD(8) [OF w] by blast
    then have "\<forall>e \<in> set (wakes ?x qs). 0 < fst e \<and> snd (snd e) = 0" unfolding wk by auto
    moreover have "owns ?x ?L" using u(6) owns_cong [of ?x u] by simp
    ultimately show ?thesis using u(3,5) l wakes_cong(2) [of qs ?x u] by (auto simp: naps_def)
  qed
  moreover have "objects ?b ?L qs"
    using d(11) fresh(3) u(3) unfolding objects_def by auto
  ultimately have "os_rel ?L qs ?b ?x" using w by (simp add: os_rel_def os_heap_def)
  then show thesis using that u(1) b by simp
qed

section \<open>New objects\<close>

text \<open>Allocation for the user adds a block.\<close>

lemma os_alloc:
  assumes r: "os_rel L ps a s" and k: "0 < uint k" and m: "mem_alloc k s = Inr (p, t)"
  obtains L' where "os_rel L' ps (spec (Allocate p) a) t"
proof (cases "p = 0")
  case True
  then have "t = s" using mem_heap.alloc_null [OF os_relD(12) [OF r] k] m by blast
  then show thesis using that r True by simp
next
  case False
  note d = os_relD [OF r] and fresh = fresh_object [OF r k m False]
  note f = same_heap_kernel [OF mem_alloc_same [OF m]]
  let ?b = "a\<lparr>o_blocks := insert p (o_blocks a)\<rparr>"
  have b: "spec (Allocate p) a = ?b" using False by simp
  have w: "os_ok ?b" using spec_ok [OF d(1), of "Allocate p"] unfolding b by simp
  have "lists_of ?b ps = lists_of a ps" by (rule place_eqI) simp_all
  then have "places (o_sems a) t (lists_of ?b ps)" using d(2) places_cong [of t s] by (simp add: f)
  then have v: "os_view ?b t ps" by (intro os_viewI) (use d(3-8) in \<open>simp_all add: f scheduler_current_def\<close>)
  have "objects ?b (insert (p, uint k) L) ps" using d(11) fresh(3) unfolding objects_def by auto
  then have "os_rel (insert (p, uint k) L) ps ?b t"
    by (intro os_relI_heap [OF r w v _ _ fresh(1)]) (simp_all add: f)
  then show thesis using that b by simp
qed

text \<open>Creating a thread adds one, at the end of the ready queue.\<close>

lemma thread_create_push:
  assumes a: "mem_alloc 1 s = Inr (t, v)" and t: "t \<noteq> 0"
  obtains w where "thread_create handle start_f arg stack EXEC_MODE_USER s = Inr (0, scheduler_push t w)"
    and "list_nodes w = list_nodes s" and "sems w = sems s" and "sleeping w = sleeping s"
    and "threads_waiting_for_input w = threads_waiting_for_input s"
    and "console_receive_cnt w = console_receive_cnt s" and "mem_state.truncate w = mem_state.truncate v"
    and "sched w = (sched s)\<lparr>user_thread_count := user_thread_count (sched s) + 1\<rparr>"
    and "\<And>x. x \<noteq> t \<Longrightarrow> threads w x = threads s x" and "words w handle = t"
proof -
  note f = same_heap_kernel [OF mem_alloc_same [OF a]]
  define w where "w = (let s = v\<lparr>contexts := (contexts s)(stack - 0x100 := (contexts s (stack - 0x100))\<lparr>
        x_sp := stack - 0x100, x_a0 := start_f, x_a1 := arg, x_gp := reg_gp s, x_tp := reg_tp s\<rparr>)\<rparr>;
      s = scheduler_user_thread_increment s
    in s\<lparr>threads := (threads v)(t := \<lparr>thr_sp = stack - 0x100, thr_bp = stack - 4096 + 8,
        thr_sstatus = csr_sstatus v AND NOT (push_bit 8 1), thr_sepc = thread_wrapper_addr v, thr_time_left = 2\<rparr>),
      words := (words v)(handle := t)\<rparr>)"
  have "thread_create handle start_f arg stack EXEC_MODE_USER s = Inr (0, scheduler_push t w)"
    using t by (cases "threads v t")
      (simp add: thread_create_def a w_def Let_def upd_defs f [symmetric] scheduler_user_thread_increment_def)
  then show thesis
    by (rule that)
       (simp_all add: w_def f Let_def mem_state.truncate_def scheduler_user_thread_increment_def upd_sched_def)
qed

lemma os_create:
  assumes r: "os_rel L ps a s" and m: "mem_alloc 1 s = Inr (p, v)" and p: "p \<noteq> 0"
  obtains u L' where "thread_create handle start_f arg stack EXEC_MODE_USER s = Inr (0, u)"
    and "words u handle = p" and "os_rel L' ps (spec (Create p) a) u" and "fresh (Create p) a"
proof -
  have "0 < uint (1 :: u64)" by simp
  note d = os_relD [OF r] and new = fresh_object [OF r this m p]
  obtain w where w: "thread_create handle start_f arg stack EXEC_MODE_USER s = Inr (0, scheduler_push p w)"
    "list_nodes w = list_nodes s" "sems w = sems s" "sleeping w = sleeping s"
    "threads_waiting_for_input w = threads_waiting_for_input s"
    "console_receive_cnt w = console_receive_cnt s" "mem_state.truncate w = mem_state.truncate v"
    "sched w = (sched s)\<lparr>user_thread_count := user_thread_count (sched s) + 1\<rparr>"
    "\<And>x. x \<noteq> p \<Longrightarrow> threads w x = threads s x" "words w handle = p"
    using thread_create_push [OF m p, of handle start_f arg stack] by blast
  let ?u = "scheduler_push p w" and ?b = "a\<lparr>o_ready := o_ready a @ [p], o_threads := insert p (o_threads a)\<rparr>"
  let ?L = "insert (p, 1) L"
  have ov: "owns v ?L" using new(1) by simp
  have nt: "p \<notin> all_threads a" using new(3) by blast
  have fr: "fresh (Create p) a" using nt by simp
  have b: "spec (Create p) a = ?b" using p by simp
  have okb: "os_ok ?b" using spec_ok [OF d(1) _ fr] unfolding b by simp
  have "p \<notin># everyone a" using nt os_okD(2) [OF d(1)] by auto
  then have q: "p \<notin> set (o_ready a)" "p \<notin> set (o_input a)" "h \<in> o_sems a \<Longrightarrow> p \<notin> set (o_waiting a h)" for h
    using queued_split [OF os_okD(5) [OF d(1)], of h "o_waiting a"] by (auto simp: everyone_def blocked_def)
  have "(p, 1) \<in> ?L" by simp
  moreover have "(q, 1) \<in> ?L" if "q \<in> set ps" for q using objectsD(3) [OF d(11) that] by simp
  ultimately have "p \<notin> set (map slot ps)" using slot_not_owned [OF ov] by auto
  then have un: "unplaced p (places_of (o_sems a)) (lists_of a ps)"
    using q owned_node(2) [OF ov] by (auto simp: unplaced_def places_of_def)
  have "places (o_sems a) w (lists_of a ps)" using d(2) places_cong [of w s] by (simp add: w)
  then have pl: "places (o_sems a) ?u ((lists_of a ps)(Ready := lists_of a ps Ready @ [p]))"
    using un by (rule places_push_ready)
  have l: "lists_of ?b ps = (lists_of a ps)(Ready := o_ready a @ [p])" by (rule place_eqI) simp_all
  have f: "scheduler_current ?u = scheduler_current s" "sch_kernel_main (sched ?u) = sch_kernel_main (sched s)"
    "user_thread_count (sched ?u) = user_thread_count (sched s) + 1"
    "sems ?u = sems s" "sleeping ?u = sleeping s" "console_receive_cnt ?u = console_receive_cnt s"
    by (simp_all add: scheduler_current_def w)
  have "thr_time_left (threads ?u t) \<noteq> 0" if "t \<in> all_threads ?b" for t
    using d(7) [of t] that w(9) [of t] by (auto simp: scheduler_push_fields)
  then have v: "os_view ?b ?u ps"
    using pl nt os_okD(9) [OF d(1)] unfolding l [symmetric] lists_of.simps
    by (intro os_viewI) (use d(3-8) in \<open>simp_all add: f w(3,6,8) l card_insert_if add.commute\<close>)
  have ow: "owns ?u ?L" using ov owns_cong [of ?u v] by (simp add: w(7))
  have "objects ?b ?L ps" using d(11) new(3) unfolding objects_def by auto
  then have "os_rel ?L ps ?b ?u" by (intro os_relI_heap [OF r okb v _ _ ow]) (simp_all add: w(4))
  then show thesis using that [of ?u ?L] w(1,10) b fr by simp
qed

text \<open>Opening a semaphore.\<close>

lemma os_open:
  assumes r: "os_rel L ps a s" and m: "mem_alloc 1 s = Inr (p, v)" and p: "p \<noteq> 0" and c: "sem_cnt s < 10"
    and al: "allowed (Open p (unat init)) a"
  obtains u L' where "sem_open handle init s = Inr (0, u)" and "os_rel L' ps (spec (Open p (unat init)) a) u"
    and "fresh (Open p (unat init)) a"
proof -
  have "0 < uint (1 :: u64)" by simp
  note d = os_relD [OF r] and new = fresh_object [OF r this m p]
  obtain u where u: "sem_open handle init s = Inr (0, u)"
    "sems u = (sems s)(p := \<lparr>sem_val = init, sem_init = init, sem_waiting = 0\<rparr>)"
    "sched u = sched s" "list_nodes u = list_nodes s" "threads u = threads s"
    "sleeping u = sleeping s" "threads_waiting_for_input u = threads_waiting_for_input s"
    "console_receive_cnt u = console_receive_cnt s" "mem_state.truncate u = mem_state.truncate v"
    by (rule sem_open_result [OF m p c, of handle init])
  let ?b = "spec_open p (unat init) a" and ?L = "insert (p, 1) L"
  have b: "spec (Open p (unat init)) a = ?b" using p by simp
  have fr: "fresh (Open p (unat init)) a" using new(3) by simp
  have okb: "os_ok ?b" using spec_ok [OF d(1) al fr] unfolding b .
  have "lists_of ?b ps = (lists_of a ps)(Sem p := [])" by (rule place_eqI) (simp_all add: spec_open_def)
  moreover have "places (insert p (o_sems a)) u ((lists_of a ps)(Sem p := []))"
    by (rule places_open [OF d(2)]) (simp_all add: u)
  ultimately have pl: "places (o_sems ?b) u (lists_of ?b ps)" by (simp add: spec_open_def)
  have "sint init = int (unat init)" using al by (simp add: sint_of_small)
  then have "sint (sem_val (sems u k)) = o_permits ?b k" if "k \<in> o_sems ?b" for k
    using that d(5) by (cases "k = p") (simp_all add: u spec_open_def)
  with pl have "os_view ?b u ps"
    by (intro os_viewI) (use d(3-8) in \<open>simp_all add: u spec_open_def scheduler_current_def\<close>)
  moreover have "owns u ?L" using new(1) owns_cong [OF u(9)] by simp
  moreover have "objects ?b ?L ps" using d(11) new(3) unfolding objects_def spec_open_def by auto
  ultimately have "os_rel ?L ps ?b u"
    by (intro os_relI_heap [OF r okb]) (simp_all add: u spec_open_def)
  then show thesis using that u(1) b fr by simp
qed

text \<open>Closing one.\<close>

lemma wake_closed_same:
  "sems (wake_closed t s) = sems s" "sleeping (wake_closed t s) = sleeping s"
  "mem_state.truncate (wake_closed t s) = mem_state.truncate s"
  "scheduler_current (wake_closed t s) = scheduler_current s"
  "sch_kernel_main (sched (wake_closed t s)) = sch_kernel_main (sched s)"
  "user_thread_count (sched (wake_closed t s)) = user_thread_count (sched s)"
  "console_receive_cnt (wake_closed t s) = console_receive_cnt s"
  "thr_time_left (threads (wake_closed t s) x) = (if x = t then 2 else thr_time_left (threads s x))"
  by (simp_all add: wake_closed_def upd_context_def mem_state.truncate_def scheduler_current_def scheduler_push_fields)
     (simp add: scheduler_push_def upd_defs split_beta Let_def mem_state.truncate_def)

lemma fold_wake_closed_same:
  "sems (fold wake_closed ts s) = sems s \<and> sleeping (fold wake_closed ts s) = sleeping s
   \<and> mem_state.truncate (fold wake_closed ts s) = mem_state.truncate s
   \<and> scheduler_current (fold wake_closed ts s) = scheduler_current s
   \<and> sch_kernel_main (sched (fold wake_closed ts s)) = sch_kernel_main (sched s)
   \<and> user_thread_count (sched (fold wake_closed ts s)) = user_thread_count (sched s)
   \<and> console_receive_cnt (fold wake_closed ts s) = console_receive_cnt s
   \<and> (\<forall>x. thr_time_left (threads s x) \<noteq> 0 \<longrightarrow> thr_time_left (threads (fold wake_closed ts s) x) \<noteq> 0)"
  by (induction ts arbitrary: s) (simp_all add: wake_closed_same)

lemma os_close:
  assumes r: "os_rel L ps a s" and al: "allowed (Close h) a"
  obtains u L' where "sem_close h s = Inr (0, u)" and "os_rel L' ps (spec (Close h) a) u"
proof -
  note d = os_relD [OF r]
  have h: "h \<in> o_sems a" using al by simp
  let ?t = "fold wake_closed (o_waiting a h) s" and ?b = "spec_close h a" and ?L = "L - {(h, 1)}"
  have okb: "os_ok ?b" using close_ok [OF d(1) al] .
  note f = fold_wake_closed_same [of "o_waiting a h" s]
  have ot: "owns ?t L" using d(12) owns_cong [of ?t s] f by simp
  have hL: "(h, 1) \<in> L" using objectsD(2) [OF d(11) h] by blast
  obtain u where u: "mem_free h ?t = (0, u)" "owns u ?L" using mem_heap.free_owned [OF ot hL] by blast
  have "sem_close h s = Inr (0, u)"
    using places_close(1) [OF d(2) h] u(1) by (simp add: sem_close_def)
  moreover note g = same_heap_kernel [OF mem_free_same [OF u(1)]]
  have "lists_of ?b ps = (lists_of a ps)(Ready := o_ready a @ o_waiting a h, Sem h := [])"
    by (rule place_eqI) (simp_all add: spec_close_def)
  then have "places (o_sems a - {h}) ?t (lists_of ?b ps)"
    using places_close(2) [OF d(2) h] by simp
  then have "places (o_sems ?b) u (lists_of ?b ps)"
    using places_cong [of u ?t] by (simp add: g spec_close_def)
  then have "os_view ?b u ps"
    by (intro os_viewI) (use d(3-8) f in \<open>auto simp: g spec_close_def scheduler_current_def\<close>)
  moreover have "objects ?b ?L ps"
  proof -
    note o = objectsD [OF d(11)]
    have "b \<in> fst ` ?L" if b: "b \<in> o_blocks a" for b
    proof -
      obtain m where "(b, m) \<in> L" using o(4) [OF b] by blast
      then have "(b, m) \<in> ?L" using o(4) [OF b] h by blast
      then show ?thesis by force
    qed
    moreover have "(x, 1) \<in> ?L" if "x \<in> all_threads a \<union> (o_sems a - {h}) \<union> set ps" for x
      using that o(1) [of x] o(2) [of x] o(3) [of x] h by blast
    ultimately show ?thesis using d(11) unfolding objects_def spec_close_def by auto
  qed
  moreover have "sleeping u = sleeping s" using f by (simp add: g)
  ultimately have "os_rel ?L ps ?b u"
    using u(2) by (intro os_relI_heap [OF r okb]) (simp_all add: spec_close_def)
  with \<open>sem_close h s = Inr (0, u)\<close> show thesis using that by simp
qed

text \<open>Leaving: the thread's stack and structure go back to the heap.\<close>

lemma thread_exit_form:
  assumes "csr_sstatus s AND push_bit 8 1 = 0" and "c = scheduler_current s" and "n = fst (scheduler_next s)"
    and "c \<noteq> n" and "thr_bp (threads s c) \<le> csr_sscratch s"
    and "owns s L" and "(thr_bp (threads s c), m) \<in> L" and "(c, k) \<in> L" and "c \<noteq> thr_bp (threads s c)"
  obtains u where "thread_exit s = Inr u" and "owns u (L - {(thr_bp (threads s c), m), (c, k)})"
    and "list_nodes u = list_nodes (snd (scheduler_next s))" and "sems u = sems s" and "sleeping u = sleeping s"
    and "threads_waiting_for_input u = threads_waiting_for_input s" and "console_receive_cnt u = console_receive_cnt s"
    and "sched u = (sched (snd (scheduler_next s)))\<lparr>user_thread_count := user_thread_count (sched s) - 1\<rparr>"
    and "\<And>x. thr_time_left (threads u x) = thr_time_left (threads s x)"
proof -
  define s1 where "s1 = scheduler_user_thread_decrement s"
  define s2 where "s2 = snd (scheduler_next s1)"
  have nx: "fst (scheduler_next s1) = n" "list_nodes s2 = list_nodes (snd (scheduler_next s))"
    "sched s2 = (sched (snd (scheduler_next s)))\<lparr>user_thread_count := user_thread_count (sched s) - 1\<rparr>"
    unfolding s2_def s1_def assms(3)
    by (simp_all add: scheduler_user_thread_decrement_def scheduler_next_def upd_defs Let_def split_beta)
  have f: "threads s2 = threads s" "csr_sscratch s2 = csr_sscratch s" "sems s2 = sems s" "sleeping s2 = sleeping s"
    "mem_state.truncate s2 = mem_state.truncate s" "threads_waiting_for_input s2 = threads_waiting_for_input s"
    "console_receive_cnt s2 = console_receive_cnt s"
    by (simp_all add: s2_def s1_def scheduler_user_thread_decrement_def upd_defs mem_state.truncate_def)
      (simp_all add: scheduler_next_def upd_defs Let_def split_beta)
  define s3 where "s3 = yield c n s2"
  have e: "thread_exit s = thread_delete c s3"
    using nx(1) assms(1,2)
    by (simp add: thread_exit_def s3_def s2_def s1_def [symmetric] Let_def split_beta)
      (simp add: s1_def scheduler_user_thread_decrement_def upd_defs scheduler_current_def)
  have b: "thr_bp (threads s3 c) = thr_bp (threads s c)" "thr_sp (threads s3 c) = csr_sscratch s"
    using yield_threads [OF assms(4), of s2] f by (simp_all add: s3_def)
  have "owns s3 L" using assms(6) owns_cong [of s3 s] f(5) by (simp add: s3_def)
  then obtain u where u: "thread_delete c s3 = Inr u" "owns u (L - {(thr_bp (threads s c), m), (c, k)})" "same_heap s3 u"
    by (rule thread_delete_owned [of s3 L c m k, unfolded b(1)]) (use assms(5,7-9) b in simp_all)
  note h = same_heap_kernel [OF u(3)]
  show thesis
    by (rule that [OF e [unfolded u(1)] u(2)]) (simp_all add: h nx(2,3) f s3_def)
qed

lemma os_exit:
  assumes r: "os_rel L ps a s" and al: "allowed (Exit b) a" and b: "b = thr_bp (threads s (scheduler_current s))"
    and st: "csr_sstatus s AND push_bit 8 1 = 0" and sp: "b \<le> csr_sscratch s"
  obtains u L' where "thread_exit s = Inr u" and "os_rel L' ps (spec (Exit b) a) u"
proof -
  let ?c = "o_current a"
  note d = os_relD [OF r] and o = objectsD [OF os_relD(11) [OF r]] and e = current_elsewhere [OF os_relD(1) [OF r]]
  have x: "?c \<noteq> o_idle a" "b \<in> o_blocks a" using al by simp_all
  have cT: "?c \<in> o_threads a" using e(6) [OF x(1)] .
  obtain m where m: "(b, m) \<in> L" using o(4) [OF x(2)] by blast
  have n: "fst (scheduler_next s) = (if o_ready a = [] then o_idle a else hd (o_ready a))"
    using next_current(1) [OF d(2)] d(4) by simp
  have ne: "?c \<noteq> fst (scheduler_next s)" using x(1) e(1) unfolding n by (cases "o_ready a") auto
  have cL: "(?c, 1) \<in> L" and cb: "?c \<noteq> b" using o(1) [of ?c] cT x(2) by blast+
  have bc: "b = thr_bp (threads s ?c)" using b d(3) by simp
  obtain u where u: "thread_exit s = Inr u" "owns u (L - {(b, m), (?c, 1)})"
    "list_nodes u = list_nodes (snd (scheduler_next s))" "sems u = sems s" "sleeping u = sleeping s"
    "threads_waiting_for_input u = threads_waiting_for_input s" "console_receive_cnt u = console_receive_cnt s"
    "sched u = (sched (snd (scheduler_next s)))\<lparr>user_thread_count := user_thread_count (sched s) - 1\<rparr>"
    "\<And>x. thr_time_left (threads u x) = thr_time_left (threads s x)"
    unfolding bc
    by (rule thread_exit_form [OF st d(3) [symmetric] refl ne _ d(12) m [unfolded bc] cL cb [unfolded bc]])
      (use sp bc in simp_all)
  let ?b = "spec_exit b a" and ?L = "L - {(b, m), (?c, 1)}"
  have okb: "os_ok ?b" by (rule exit_ok [OF d(1) al])
  have f: "o_threads ?b = o_threads a - {?c}" "o_idle ?b = o_idle a" "o_sems ?b = o_sems a"
    "o_blocks ?b = o_blocks a - {b}" "o_sleeping ?b = o_sleeping a" "o_permits ?b = o_permits a"
    "o_current ?b = (if o_ready a = [] then o_idle a else hd (o_ready a))"
    by (simp_all add: spec_exit_def)
  have "lists_of ?b ps = (lists_of a ps)(Ready := tl (o_ready a))" by (rule place_eqI) (simp_all add: spec_exit_def)
  then have "places (o_sems a) u (lists_of ?b ps)"
    using places_next_ready [OF d(2)] places_cong [of u "snd (scheduler_next s)"] by (simp add: u)
  moreover have "scheduler_current u = o_current ?b"
    using next_current(2) [OF d(2)] d(4) unfolding f by (simp add: u(8) scheduler_current_def)
  moreover have "card (o_threads a) = Suc (card (o_threads a - {?c}))"
    using os_okD(9) [OF d(1)] cT by (rule card.remove)
  ultimately have "os_view ?b u ps"
    by (intro os_viewI) (use d(4-8) in \<open>auto simp: f u\<close>)
  moreover have "objects ?b ?L ps"
  proof -
    have "(y, 1) \<in> ?L" if "y \<in> insert (o_idle a) (o_threads a - {?c}) \<union> o_sems a \<union> set ps" for y
      using that o(1) [of y] o(2) [of y] o(3) [of y] x cT by blast
    moreover have "y \<in> fst ` ?L" if y: "y \<in> o_blocks a - {b}" for y
    proof -
      obtain k where "(y, k) \<in> L" "y \<noteq> ?c" using o(4) [of y] y cT by blast
      then have "(y, k) \<in> ?L" using y by blast
      then show ?thesis by force
    qed
    ultimately show ?thesis using d(11) unfolding objects_def f by auto
  qed
  ultimately have "os_rel ?L ps ?b u" by (intro os_relI_heap [OF r okb _ u(5) f(5) u(2)])
  then show thesis using that u(1) by simp
qed

end
