(* ===== verification/Requests.thy ===== *)
theory Requests
  imports System_Ops
begin

text \<open>
  The trap handler implements the abstract operating system: \<open>request\<close> reads from the registers and the state of
  the kernel which event a trap is, and for every event \<open>irq_handler\<close> of \<open>src/main.c\<close> does to the kernel what
  \<open>spec\<close> does to the abstract state.
\<close>

section \<open>What a trap asks\<close>

text \<open>
  \<open>None\<close> are the traps that the refinement leaves out: illegal operations, where the kernel panics; a timed
  wait, which corrupts the list of sleeping threads; and what the code does not check, a request for 0
  blocks, going to sleep on a full heap and leaving with the stack pointer below the stack. A system call
  of a thread comes from user mode, so that the bit of the previous privilege is 0.
\<close>

definition user_request :: "kernel \<Rightarrow> event option" where
  "user_request s =
     (let ctx = contexts s (csr_sscratch s); code = x_a0 ctx; arg = x_a1 ctx;
          c = scheduler_current s in
      if code = SYSCALL_MEM_ALLOC then (if arg = 0 then None else Some (Allocate (new_block arg s)))
      else if code = SYSCALL_GETC then Some (Read_char (console_receive_cnt s = 0))
      else if code = SYSCALL_PUTC then Some (Write_char (fst (putc (ucast arg) s) \<noteq> 0))
      else if code = SYSCALL_THREAD_CREATE then Some (Create (new_block 1 s))
      else if code = SYSCALL_THREAD_EXIT then
        (if thr_bp (threads s c) \<le> csr_sscratch s \<and> csr_sstatus s AND push_bit 8 1 = 0
         then Some (Exit (thr_bp (threads s c))) else None)
      else if code = SYSCALL_THREAD_DISPATCH then Some Dispatch
      else if code = SYSCALL_SEM_OPEN then Some (Open (new_block 1 s) (unat (ucast (x_a2 ctx) :: u32)))
      else if code = SYSCALL_SEM_CLOSE then Some (Close arg)
      else if code = SYSCALL_SEM_WAIT then Some (Wait arg)
      else if code = SYSCALL_SEM_SIGNAL then Some (Signal arg)
      else if code = SYSCALL_SEM_TIMED_WAIT then None
      else if code = SYSCALL_TIMED_SLEEP then (if arg = 0 \<or> new_block 1 s \<noteq> 0 then Some (Sleep (unat arg)) else None)
      else Some Ignored)"

definition request :: "kernel \<Rightarrow> event option" where
  "request s =
     (if csr_scause s = IRQ_TIMER then Some (Tick (thr_time_left (threads s (scheduler_current s)) = 1))
      else if csr_scause s = IRQ_HW then
        (let (plic, s) = plic_claim s in
         Some (Device (if plic = 10 then unat (console_receive_cnt (console_fill_loop s)) else 0)))
      else if csr_scause s = IRQ_ILLEGAL_OP \<or> csr_scause s = IRQ_ILLEGAL_READ \<or> csr_scause s = IRQ_ILLEGAL_WRITE then None
      else if csr_scause s = IRQ_ECALL_USER then user_request (s\<lparr>csr_sepc := csr_sepc s + 4\<rparr>)
      else if csr_scause s = IRQ_ECALL_KERNEL then
        (if x_a0 (contexts s (csr_sscratch s)) = SYSCALL_KERNEL_DISPATCH then Some Idle else Some Ignored)
      else Some Ignored)"

text \<open>The allocator has a block for what is asked, and the table of semaphores a place; without them the
  handler may stop the kernel instead of answering that there is no memory.\<close>

fun fits :: "event \<Rightarrow> kernel \<Rightarrow> bool" where
  "fits (Allocate p) s \<longleftrightarrow> p \<noteq> 0"
| "fits (Create p) s \<longleftrightarrow> p \<noteq> 0"
| "fits (Open p n) s \<longleftrightarrow> p \<noteq> 0 \<and> sem_cnt s < 10"
| "fits e s \<longleftrightarrow> True"

text \<open>The codes that the handler knows.\<close>

definition syscall_codes :: "u64 set" where
  "syscall_codes = {SYSCALL_MEM_ALLOC, SYSCALL_GETC, SYSCALL_PUTC, SYSCALL_THREAD_CREATE, SYSCALL_THREAD_EXIT,
     SYSCALL_THREAD_DISPATCH, SYSCALL_SEM_OPEN, SYSCALL_SEM_CLOSE, SYSCALL_SEM_WAIT, SYSCALL_SEM_SIGNAL,
     SYSCALL_SEM_TIMED_WAIT, SYSCALL_TIMED_SLEEP}"

section \<open>Every handler\<close>

text \<open>A handler that returns has done what the event does, and it returns when the event fits.\<close>

definition implements :: "os \<Rightarrow> event \<Rightarrow> kernel \<Rightarrow> kernel vres \<Rightarrow> bool" where
  "implements a e s r \<longleftrightarrow> (\<forall>v. r = Inr v \<longrightarrow> refines (spec e a) v) \<and> (fits e s \<longrightarrow> (\<exists>v. r = Inr v))"

lemma implementsI: "r = Inr v \<Longrightarrow> os_rel L ps (spec e a) v \<Longrightarrow> implements a e s r"
  unfolding implements_def by (auto intro: refinesI simp del: spec.simps)

lemma implements_context:
  "r = Inr (upd_context p g v) \<Longrightarrow> os_rel L ps (spec e a) v \<Longrightarrow> implements a e s r"
  by (rule implementsI, assumption) (simp only: os_same_rel [OF os_same_context])

lemma sys_mem_alloc_implements:
  assumes r: "os_rel L ps a s" and k: "x_a1 (contexts s ctx) = k" "k \<noteq> 0"
  shows "implements a (Allocate (new_block k s)) s (sys_mem_alloc ctx s)"
proof (cases "mem_alloc k s")
  case (Inl e)
  then show ?thesis by (simp add: implements_def sys_mem_alloc_def k new_block_def)
next
  case (Inr x)
  then obtain p t where m: "mem_alloc k s = Inr (p, t)" by (cases x) simp
  have "0 < uint k" using k(2) by (simp add: word_neq_0_conv word_less_def)
  from os_alloc [OF r this m] obtain L' where "os_rel L' ps (spec (Allocate p) a) t" .
  moreover have "sys_mem_alloc ctx s = Inr (upd_context ctx (set_a0 p) t)" by (simp add: sys_mem_alloc_def k m)
  ultimately show ?thesis unfolding new_block_alloc [OF m] by (intro implements_context)
qed

lemma putc_only: "output_only s (snd (putc c s))"
proof -
  let ?t = "if console_send_cnt s = 1024 then console_send s else s"
  have a: "output_only s ?t" by simp
  have "output_only s (console_send ?t)" by (rule output_only_trans [OF a console_send_only])
  moreover have "output_only u (u\<lparr>console_send_buffer := b, console_send_cnt := k\<rparr>)" for u :: "'a io_state_scheme" and b k
    by (simp add: output_only_def)
  ultimately have "output_only s ((console_send ?t)\<lparr>console_send_buffer := b, console_send_cnt := k\<rparr>)" for b k
    using output_only_trans by blast
  with a show ?thesis by (simp add: putc_def Let_def)
qed

lemma sys_putc_implements:
  assumes r: "os_rel L ps a s" and k: "x_a1 (contexts s ctx) = k"
  shows "implements a (Write_char (fst (putc (ucast k) s) \<noteq> 0)) s (sys_putc ctx s)"
proof -
  obtain x t where p: "putc (ucast k) s = (x, t)" by fastforce
  have t: "os_rel L ps a t"
    using r os_same_rel [OF os_same_output [OF putc_only [of s "ucast k"]]] p by simp
  show ?thesis
  proof (cases "x = 0")
    case True
    then show ?thesis using t p by (intro implementsI [of _ t]) (simp_all add: sys_putc_def k)
  next
    case False
    let ?t = "t\<lparr>csr_sepc := csr_sepc t - 4\<rparr>"
    let ?u = "upd_thread (scheduler_current ?t) (\<lambda>c. c\<lparr>thr_sepc := csr_sepc t - 4 - 4\<rparr>) ?t"
    have "os_same ?u t" by (simp add: os_same_def upd_thread_def mem_state.truncate_def)
    then have u: "os_rel L ps a ?u" using t os_same_rel by blast
    have c: "scheduler_current ?u = scheduler_current ?t" by (simp add: scheduler_current_def)
    have "os_rel L ps (hand_over a) (requeue (scheduler_current ?t) ?u)" using os_requeue [OF u c [symmetric]] by simp
    moreover have "sys_putc ctx s = Inr (requeue (scheduler_current ?t) ?u)"
      using p False by (simp add: sys_putc_def Let_def k)
    ultimately show ?thesis using p False by (intro implementsI) simp_all
  qed
qed

lemma sys_thread_create_implements:
  assumes r: "os_rel L ps a s"
  shows "implements a (Create (new_block 1 s)) s (sys_thread_create ctx s)"
proof (cases "mem_alloc 1 s")
  case (Inl e)
  then show ?thesis by (simp add: implements_def sys_thread_create_def Let_def thread_create_def new_block_def)
next
  case (Inr x)
  then obtain p t where m: "mem_alloc 1 s = Inr (p, t)" by (cases x) simp
  let ?x = "contexts s ctx"
  let ?c = "thread_create (x_a1 ?x) (x_a2 ?x) (x_a3 ?x) (x_a4 ?x) EXEC_MODE_USER s"
  show ?thesis
  proof (cases "p = 0")
    case True
    have "t = s" using mem_heap.alloc_null [OF os_relD(12) [OF r] _ m [unfolded True]] by simp
    then have "sys_thread_create ctx s = Inr (upd_context ctx (set_a0 (i32_to_u64 THREAD_CREATE_NO_MEMORY)) s)"
      using m True by (simp add: sys_thread_create_def Let_def thread_create_def)
    then show ?thesis using r True m by (intro implements_context) (simp_all add: new_block_def)
  next
    case False
    obtain u L' where "?c = Inr (0, u)" "os_rel L' ps (spec (Create p) a) u"
      by (rule os_create [OF r m False])
    then show ?thesis unfolding new_block_alloc [OF m]
      by (intro implements_context) (simp_all add: sys_thread_create_def Let_def)
  qed
qed

lemma sys_sem_open_implements:
  assumes r: "os_rel L ps a s" and i: "ucast (x_a2 (contexts s ctx)) = (init :: u32)" and al: "allowed (Open (new_block 1 s) (unat init)) a"
  shows "implements a (Open (new_block 1 s) (unat init)) s (sys_sem_open ctx s)"
proof (cases "mem_alloc 1 s")
  case (Inl e)
  then show ?thesis by (simp add: implements_def sys_sem_open_def Let_def sem_open_def new_block_def)
next
  case (Inr x)
  then obtain p t where m: "mem_alloc 1 s = Inr (p, t)" by (cases x) simp
  note nb = new_block_alloc [OF m]
  show ?thesis
  proof (cases "p = 0")
    case True
    have "t = s" using mem_heap.alloc_null [OF os_relD(12) [OF r] _ m [unfolded True]] by simp
    then have "sys_sem_open ctx s = Inr (upd_context ctx (set_a0 (i32_to_u64 SEM_CREATE_NO_MEMORY)) s)"
      using m True by (simp add: sys_sem_open_def Let_def sem_open_def)
    then show ?thesis unfolding nb using r True by (intro implements_context) simp_all
  next
    case False
    show ?thesis
    proof (cases "sem_cnt s < 10")
      case True
      obtain u L' where "sem_open (x_a1 (contexts s ctx)) init s = Inr (0, u)"
        "os_rel L' ps (spec (Open p (unat init)) a) u"
        by (rule os_open [OF r m False True al [unfolded nb]])
      then show ?thesis unfolding nb
        by (intro implements_context) (simp_all add: sys_sem_open_def Let_def i)
    next
      case full: False
      then have "sys_sem_open ctx s \<noteq> Inr v" for v
        using m False same_heap_kernel(15) [OF mem_alloc_same [OF m]]
        by (auto simp: sys_sem_open_def sem_open_def upd_sem_def Let_def)
      then show ?thesis unfolding implements_def using full by (simp add: nb)
    qed
  qed
qed

lemma sys_sem_close_implements:
  assumes "os_rel L ps a s" and "allowed (Close (x_a1 (contexts s ctx))) a"
  shows "implements a (Close (x_a1 (contexts s ctx))) s (sys_sem_close ctx s)"
proof -
  obtain u L' where "sem_close (x_a1 (contexts s ctx)) s = Inr (0, u)" "os_rel L' ps (spec (Close (x_a1 (contexts s ctx))) a) u"
    by (rule os_close [OF assms])
  then show ?thesis by (intro implements_context) (simp_all add: sys_sem_close_def)
qed

lemma sys_sem_wait_implements:
  assumes "os_rel L ps a s" and "allowed (Wait (x_a1 (contexts s ctx))) a"
  shows "implements a (Wait (x_a1 (contexts s ctx))) s (sys_sem_wait ctx s)"
proof -
  obtain r t where w: "sem_wait (x_a1 (contexts s ctx)) s = (r, t)" by fastforce
  then have t: "os_rel L ps (spec (Wait (x_a1 (contexts s ctx))) a) t" using os_wait [OF assms] by simp
  show ?thesis
  proof (cases "r = 0")
    case True
    then show ?thesis using w t by (intro implements_context) (simp_all add: sys_sem_wait_def)
  next
    case False
    then show ?thesis using w t by (intro implementsI) (simp_all add: sys_sem_wait_def)
  qed
qed

lemma sys_sem_signal_implements:
  assumes "os_rel L ps a s" and "allowed (Signal (x_a1 (contexts s ctx))) a"
  shows "implements a (Signal (x_a1 (contexts s ctx))) s (sys_sem_signal ctx s)"
proof -
  obtain u where "sem_signal (x_a1 (contexts s ctx)) s = Inr (0, u)" "os_rel L ps (spec (Signal (x_a1 (contexts s ctx))) a) u"
    by (rule os_signal [OF assms])
  then show ?thesis by (intro implements_context) (simp_all add: sys_sem_signal_def)
qed

lemma sys_timed_sleep_implements:
  assumes r: "os_rel L ps a s" and w: "x_a1 (contexts s ctx) = w" and al: "allowed (Sleep (unat w)) a" and room: "w = 0 \<or> new_block 1 s \<noteq> 0"
  shows "implements a (Sleep (unat w)) s (sys_timed_sleep ctx s)"
proof (cases "w = 0")
  case True
  then show ?thesis using r by (intro implements_context) (simp_all add: sys_timed_sleep_def Let_def w)
next
  case False
  let ?s = "upd_context ctx (set_a0 0) s"
  have rs: "os_rel L ps a ?s" using r by (simp only: os_same_rel [OF os_same_context])
  have "mem_state.truncate ?s = mem_state.truncate s" by (simp add: upd_context_def mem_state.truncate_def)
  from new_block_cong [OF os_relD(12) [OF r] _ this, of 1] have nb: "new_block 1 ?s \<noteq> 0" using False room by simp
  obtain u L' qs where "scheduler_timeout (scheduler_current ?s) w 0 ?s = Inr u"
    "os_rel L' qs (spec (Sleep (unat w)) a)
      (yield (scheduler_current ?s) (fst (scheduler_next u)) (snd (scheduler_next u)))"
    by (rule os_sleep [OF rs al False nb refl])
  then show ?thesis using False
    by (intro implementsI) (simp_all add: sys_timed_sleep_def Let_def split_beta w)
qed

section \<open>The trap handler\<close>

lemma user_request_implements:
  assumes r: "os_rel L ps a s" and q: "user_request s = Some e" and al: "allowed e a"
    and s0: "s = s0\<lparr>csr_sepc := csr_sepc s0 + 4\<rparr>"
  shows "implements a e s (irq_ecall_user s0)"
proof -
  let ?ctx = "csr_sscratch s" and ?c = "scheduler_current s"
  let ?code = "x_a0 (contexts s ?ctx)" and ?arg = "x_a1 (contexts s ?ctx)"
  have f: "csr_sscratch s0 = ?ctx" "contexts s0 = contexts s" by (simp_all add: s0)
  note u = q [unfolded user_request_def Let_def] and h = irq_ecall_user_def Let_def s0 [symmetric] f
  consider "?code = SYSCALL_MEM_ALLOC" | "?code = SYSCALL_GETC" | "?code = SYSCALL_PUTC" | "?code = SYSCALL_THREAD_CREATE"
    | "?code = SYSCALL_THREAD_EXIT" | "?code = SYSCALL_THREAD_DISPATCH" | "?code = SYSCALL_SEM_OPEN"
    | "?code = SYSCALL_SEM_CLOSE" | "?code = SYSCALL_SEM_WAIT" | "?code = SYSCALL_SEM_SIGNAL"
    | "?code = SYSCALL_SEM_TIMED_WAIT" | "?code = SYSCALL_TIMED_SLEEP" | "?code \<notin> syscall_codes"
    by (auto simp: syscall_codes_def)
  then show ?thesis
  proof cases
    case 1
    then have "?arg \<noteq> 0" "e = Allocate (new_block ?arg s)" using u by (simp_all split: if_splits)
    then show ?thesis using sys_mem_alloc_implements [OF r refl] 1 by (simp add: h)
  next
    case 2
    then have e: "e = Read_char (console_receive_cnt s = 0)" using u by simp
    have "os_rel L ps (spec e a) (snd (getc s))" unfolding e by (rule os_getc [OF r al [unfolded e] refl])
    then show ?thesis by (rule implementsI [rotated]) (simp add: h 2 sys_getc_def)
  next
    case 3
    then have "e = Write_char (fst (putc (ucast ?arg) s) \<noteq> 0)" using u by simp
    then show ?thesis using sys_putc_implements [OF r refl] 3 by (simp add: h)
  next
    case 4
    then have "e = Create (new_block 1 s)" using u by simp
    then show ?thesis using sys_thread_create_implements [OF r] 4 by (simp add: h)
  next
    case 5
    then have e: "e = Exit (thr_bp (threads s ?c))" "thr_bp (threads s ?c) \<le> ?ctx" "csr_sstatus s AND push_bit 8 1 = 0"
      using u by (simp_all split: if_splits)
    obtain v L' where "thread_exit s = Inr v" "os_rel L' ps (spec e a) v"
      using os_exit [OF r al [unfolded e(1)] refl e(3,2)] unfolding e(1) by metis
    then show ?thesis by (intro implementsI) (simp_all add: h 5)
  next
    case 6
    then have e: "e = Dispatch" using u by simp
    show ?thesis unfolding e using os_requeue [OF r refl] 6
      by (intro implementsI) (simp_all add: h sys_thread_dispatch_def)
  next
    case 7
    then have e: "e = Open (new_block 1 s) (unat (ucast (x_a2 (contexts s ?ctx)) :: u32))" using u by simp
    show ?thesis unfolding e using sys_sem_open_implements [OF r refl al [unfolded e]] 7 by (simp add: h)
  next
    case 8
    then have e: "e = Close ?arg" using u by simp
    show ?thesis unfolding e using sys_sem_close_implements [OF r al [unfolded e]] 8 by (simp add: h)
  next
    case 9
    then have e: "e = Wait ?arg" using u by simp
    show ?thesis unfolding e using sys_sem_wait_implements [OF r al [unfolded e]] 9 by (simp add: h)
  next
    case 10
    then have e: "e = Signal ?arg" using u by simp
    show ?thesis unfolding e using sys_sem_signal_implements [OF r al [unfolded e]] 10 by (simp add: h)
  next
    case 11
    then show ?thesis using u by simp
  next
    case 12
    then have e: "e = Sleep (unat ?arg)" "?arg = 0 \<or> new_block 1 s \<noteq> 0" using u by (simp_all split: if_splits)
    show ?thesis unfolding e(1) using sys_timed_sleep_implements [OF r refl al [unfolded e(1)] e(2)] 12 by (simp add: h)
  next
    case 13
    then have "e = Ignored" using u by (simp add: syscall_codes_def)
    moreover have "irq_ecall_user s0 = Inr s" using 13 by (simp add: h syscall_codes_def)
    ultimately show ?thesis using r by (intro implementsI [of _ s]) simp_all
  qed
qed

lemma irq_hw_implements:
  assumes r: "os_rel L ps a s" and p: "plic_claim s = (plic, t)"
  shows "os_rel L ps (spec (Device (if plic = 10 then unat (console_receive_cnt (console_fill_loop t)) else 0)) a) (irq_hw s)"
proof -
  have "os_same t s" using p by (auto simp: os_same_def plic_claim_def mem_state.truncate_def)
  then have t: "os_rel L ps a t" using r os_same_rel by blast
  have c: "os_same (plic_complete 10 v) v" for v by (simp add: os_same_def plic_complete_def mem_state.truncate_def)
  show ?thesis
  proof (cases "plic = 10")
    case True
    have "os_rel L ps (spec (Device (unat (console_receive_cnt (console_fill_loop t)))) a) (console_send (console_receive t))"
      using os_receive [OF t] os_same_rel [OF os_same_output [OF console_send_only]] by blast
    then show ?thesis using os_same_rel [OF c] True p by (simp add: irq_hw_def del: spec.simps)
  next
    case False
    then show ?thesis using t os_same_rel [OF c] p by (simp add: irq_hw_def)
  qed
qed

lemma handler_implements:
  assumes r: "os_rel L ps a s" and q: "request s = Some e" and al: "allowed e a"
  shows "implements a e s (irq_handler s)"
proof -
  let ?x = "csr_scause s"
  let ?s = "s\<lparr>csr_sepc := csr_sepc s + 4\<rparr>"
  have "os_same ?s s" by (simp add: os_same_def mem_state.truncate_def)
  then have rs: "os_rel L ps a ?s" using r os_same_rel by blast
  note u = q [unfolded request_def]
  consider "?x = IRQ_TIMER" | "?x = IRQ_HW" | "?x = IRQ_ILLEGAL_OP \<or> ?x = IRQ_ILLEGAL_READ \<or> ?x = IRQ_ILLEGAL_WRITE"
    | "?x = IRQ_ECALL_USER" | "?x = IRQ_ECALL_KERNEL"
    | "?x \<notin> {IRQ_TIMER, IRQ_HW, IRQ_ILLEGAL_OP, IRQ_ILLEGAL_READ, IRQ_ILLEGAL_WRITE, IRQ_ECALL_USER, IRQ_ECALL_KERNEL}"
    by blast
  then show ?thesis
  proof cases
    case 1
    then have e: "e = Tick (thr_time_left (threads s (scheduler_current s)) = 1)" using u by simp
    obtain t L' ps' where "irq_timer s = Inr t" "os_rel L' ps' (spec e a) t" unfolding e by (rule os_tick [OF r refl])
    then show ?thesis using 1 by (intro implementsI) (simp_all add: irq_handler_def)
  next
    case 2
    obtain plic t where p: "plic_claim s = (plic, t)" by fastforce
    have e: "e = Device (if plic = 10 then unat (console_receive_cnt (console_fill_loop t)) else 0)"
      using u 2 p by (simp split: if_splits)
    from irq_hw_implements [OF r p] show ?thesis unfolding e [symmetric]
      by (rule implementsI [rotated]) (simp add: 2 irq_handler_def)
  next
    case 3
    then show ?thesis using u by (elim disjE) simp_all
  next
    case 4
    then have "user_request ?s = Some e" using u by simp
    from user_request_implements [OF rs this al refl] have "implements a e ?s (irq_ecall_user s)" .
    moreover have "fits e ?s = fits e s" by (cases e) simp_all
    ultimately show ?thesis using 4 by (simp add: irq_handler_def implements_def)
  next
    case 5
    then have e: "e = (if x_a0 (contexts s (csr_sscratch s)) = SYSCALL_KERNEL_DISPATCH then Idle else Ignored)"
      using u by (simp split: if_splits)
    have "irq_handler s = Inr (if x_a0 (contexts s (csr_sscratch s)) = SYSCALL_KERNEL_DISPATCH then kernel_dispatch ?s else ?s)"
      using 5 by (simp add: irq_handler_def irq_ecall_kernel_def Let_def)
    moreover have "os_rel L ps (spec e a) (if x_a0 (contexts s (csr_sscratch s)) = SYSCALL_KERNEL_DISPATCH then kernel_dispatch ?s else ?s)"
      using os_idle [OF rs] al rs unfolding e by (simp split: if_splits)
    ultimately show ?thesis by (rule implementsI)
  next
    case 6
    then have "e = Ignored" "irq_handler s = Inr s" using u by (simp_all add: irq_handler_def)
    then show ?thesis using r by (intro implementsI) simp_all
  qed
qed

text \<open>New objects are new.\<close>

lemma request_fresh:
  assumes r: "os_rel L ps a s" and q: "request s = Some e"
  shows "fresh e a"
proof -
  let ?s = "s\<lparr>csr_sepc := csr_sepc s + 4\<rparr>"
  have "os_same ?s s" by (simp add: os_same_def mem_state.truncate_def)
  then have rs: "os_rel L ps a ?s" using r os_same_rel by blast
  have new: "p = 0 \<or> p \<notin> all_threads a \<and> p \<notin> o_sems a" if p: "p = new_block 1 ?s" for p
  proof (cases "p = 0")
    case False
    then obtain v where "mem_alloc 1 ?s = Inr (p, v)" unfolding p by (rule new_blockE)
    from fresh_object(3) [OF rs _ this False] show ?thesis by simp
  qed simp
  show ?thesis
  proof (cases e)
    case (Create t)
    then have "t = new_block 1 ?s" using q by (auto simp: request_def user_request_def Let_def split: if_splits prod.splits)
    from new [OF this] show ?thesis using Create by auto
  next
    case (Open h n)
    then have "h = new_block 1 ?s" using q by (auto simp: request_def user_request_def Let_def split: if_splits prod.splits)
    from new [OF this] show ?thesis using Open by auto
  qed simp_all
qed

section \<open>The entry code\<close>

text \<open>The kernel when the handler of a system call starts.\<close>

abbreviation entered :: "context_t \<Rightarrow> kernel \<Rightarrow> kernel" where
  "entered regs s \<equiv> (trap_save regs s)\<lparr>csr_sepc := csr_sepc s + 4\<rparr>"

lemma os_same_trap [simp]:
  "os_same (snd (trap_restore s)) s" "os_same (trap_save regs s) s" "os_same (entered regs s) s"
  by (simp_all add: os_same_def trap_restore_def trap_save_def upd_context_def Let_def mem_state.truncate_def)

lemma entered_fields [simp]:
  "x_a0 (contexts (entered regs s) (x_sp regs - 0x100)) = x_a0 regs"
  "x_a1 (contexts (entered regs s) (x_sp regs - 0x100)) = x_a1 regs"
  "csr_sscratch (entered regs s) = x_sp regs - 0x100"
  by (simp_all add: trap_save_contexts)

lemma handler_calls:
  assumes "csr_scause s = IRQ_ECALL_USER"
  shows "irq_handler (trap_save regs s) = irq_ecall_user (trap_save regs s)"
  using assms by (simp add: irq_handler_def)

lemma irq_wrap_handler:
  assumes "irq_handler (trap_save regs s) = Inr v"
  shows "irq_wrap regs s = Inr (trap_restore v)"
  using assms by (simp add: irq_wrap_def)

lemma irq_wrap_cases:
  assumes "irq_wrap regs s = Inr (regs', t)"
  obtains v where "irq_handler (trap_save regs s) = Inr v" and "t = snd (trap_restore v)"
  using assms by (cases "irq_handler (trap_save regs s)") (auto simp: irq_wrap_def dest: sym)

lemma irq_wrap_implements:
  assumes r: "refines a s" and q: "request (trap_save regs s) = Some e" and al: "allowed e a"
  shows "irq_wrap regs s = Inr (regs', t) \<Longrightarrow> refines (spec e a) t"
    and "fits e s \<Longrightarrow> \<exists>regs' t. irq_wrap regs s = Inr (regs', t)"
proof -
  obtain L ps where "os_rel L ps a s" using r by (auto simp: refines_def)
  then have "os_rel L ps a (trap_save regs s)" using os_same_rel [OF os_same_trap(2)] by blast
  note i = handler_implements [OF this q al, unfolded implements_def]
  show "refines (spec e a) t" if w: "irq_wrap regs s = Inr (regs', t)"
  proof -
    obtain v where v: "irq_handler (trap_save regs s) = Inr v" "t = snd (trap_restore v)"
      by (rule irq_wrap_cases [OF w])
    then have "refines (spec e a) v" using i by blast
    then show ?thesis using os_same_refines [OF os_same_trap(1) [of v]] v(2) by simp
  qed
  have "sem_cnt (trap_save regs s) = sem_cnt s" by (simp add: trap_save_def Let_def upd_context_def)
  then have "fits e (trap_save regs s) = fits e s" by (cases e) simp_all
  then show "\<exists>regs' t. irq_wrap regs s = Inr (regs', t)" if "fits e s"
    using that i irq_wrap_handler [of regs s] by (metis surj_pair)
qed

end
