(* ===== verification/OS_Runs.thy ===== *)
theory OS_Runs
  imports OS_Spec
begin

text \<open>
  Runs of the abstract operating system: the order in which semaphores are served, how long a sleeping thread
  sleeps and when a ready thread gets its turn. The refinement in \<open>System\<close> carries them over to the kernel.
\<close>

section \<open>Runs\<close>

text \<open>A sequence of events in which each is allowed, and concerns new objects, when its turn comes.\<close>

fun lawful :: "event list \<Rightarrow> os \<Rightarrow> bool" where
  "lawful [] a \<longleftrightarrow> True"
| "lawful (e # es) a \<longleftrightarrow> allowed e a \<and> fresh e a \<and> lawful es (spec e a)"

lemma lawful_append: "lawful (es @ fs) a \<longleftrightarrow> lawful es a \<and> lawful fs (fold spec es a)"
  by (induction es arbitrary: a) simp_all

lemma lawful_ok: "lawful es a \<Longrightarrow> os_ok a \<Longrightarrow> os_ok (fold spec es a)"
  by (induction es arbitrary: a) (simp_all add: spec_ok)

text \<open>The threads that wait for a semaphore are served in order: each signal takes the first one.\<close>

lemma spec_waiting:
  assumes "e \<noteq> Close h" and "fresh e a" and "h \<in> o_sems a"
  shows "h \<in> o_sems (spec e a)" and "e = Signal h \<Longrightarrow> o_waiting (spec e a) h = tl (o_waiting a h)"
    and "e \<noteq> Signal h \<Longrightarrow> \<exists>us. o_waiting (spec e a) h = o_waiting a h @ us"
  using assms
  by (cases e; auto simp: spec_wait_def spec_signal_def spec_open_def spec_close_def spec_exit_def hand_over_def
      spec_wake_def Let_def split: list.splits)+

lemma waiting_in_order:
  assumes "lawful es a" and "Close h \<notin> set es" and "h \<in> o_sems a" and "count_list es (Signal h) \<le> length (o_waiting a h)"
  shows "h \<in> o_sems (fold spec es a) \<and>
    (\<exists>us. o_waiting (fold spec es a) h = drop (count_list es (Signal h)) (o_waiting a h) @ us)"
  using assms
proof (induction es arbitrary: a)
  case (Cons e es)
  have e: "e \<noteq> Close h" "fresh e a" "lawful es (spec e a)" "Close h \<notin> set es" using Cons.prems by auto
  note w = spec_waiting [OF e(1,2) Cons.prems(3)]
  show ?case
  proof (cases "e = Signal h")
    case True
    have "count_list es (Signal h) \<le> length (o_waiting (spec e a) h)"
      using Cons.prems(4) True w(2) by simp
    with Cons.IH [OF e(3,4) w(1)] w(2) [OF True] show ?thesis
      using True Cons.prems(4) by (simp add: drop_Suc)
  next
    case False
    obtain us where u: "o_waiting (spec e a) h = o_waiting a h @ us" using w(3) [OF False] by blast
    have le: "count_list es (Signal h) \<le> length (o_waiting a h)" using Cons.prems(4) False by simp
    then have "count_list es (Signal h) \<le> length (o_waiting (spec e a) h)" by (simp add: u)
    with Cons.IH [OF e(3,4) w(1)] show ?thesis using u False le by auto
  qed
qed simp

lemma signal_serves:
  assumes "o_waiting a h = t # ts"
  shows "t \<in> o_holders (spec (Signal h) a) h" and "o_ready (spec (Signal h) a) = o_ready a @ [t]"
  using assms by (simp_all add: spec_signal_def Let_def)

text \<open>Sleeping threads come closer to their time with every tick and with nothing else.\<close>

fun is_tick :: "event \<Rightarrow> bool" where
  "is_tick (Tick p) \<longleftrightarrow> True"
| "is_tick e \<longleftrightarrow> False"

definition ticks :: "event list \<Rightarrow> nat" where
  "ticks es = length (filter is_tick es)"

lemma ticks_simps [simp]: "ticks [] = 0" "ticks (e # es) = (if is_tick e then Suc (ticks es) else ticks es)"
  by (simp_all add: ticks_def)

lemma ticked_later:
  assumes "(w, x) \<in> set es" and "1 < w"
  shows "(w - 1, x) \<in> set (ticked es)"
proof -
  have "(w, x) \<in> set (dropWhile (\<lambda>e. fst e = 1) es)" using assms by (induction es) auto
  then show ?thesis unfolding ticked_def by force
qed

lemma insert_wake_set: "set (insert_wake x es) = insert x (set es)"
  using arg_cong [OF mset_insert_wake [of x es], of set_mset] by simp

lemma hand_over_sleeping [simp]: "o_sleeping (hand_over a) = o_sleeping a"
  by (simp add: hand_over_def)

lemma spec_sleeping:
  assumes "(w, t) \<in> set (o_sleeping a)" and "is_tick e \<Longrightarrow> 1 < w"
  shows "(if is_tick e then w - 1 else w, t) \<in> set (o_sleeping (spec e a))"
proof (cases e)
  case (Tick p)
  then show ?thesis using assms ticked_later [of w t "o_sleeping a"] by (simp add: spec_wake_def)
qed (use assms(1) in \<open>auto simp: spec_wait_def spec_signal_def spec_open_def spec_close_def spec_exit_def
    Let_def insert_wake_set split: list.splits\<close>)

lemma sleeping_run:
  assumes "(w, t) \<in> set (o_sleeping a)" and "ticks es < w"
  shows "(w - ticks es, t) \<in> set (o_sleeping (fold spec es a))"
  using assms
proof (induction es arbitrary: a w)
  case (Cons e es)
  have s: "(if is_tick e then w - 1 else w, t) \<in> set (o_sleeping (spec e a))"
    by (rule spec_sleeping [OF Cons.prems(1)]) (use Cons.prems(2) in simp)
  show ?case
  proof (cases "is_tick e")
    case True
    then have "(w - 1 - ticks es, t) \<in> set (o_sleeping (fold spec es (spec e a)))"
      using s Cons.prems(2) by (intro Cons.IH) simp_all
    then show ?thesis using True by simp
  next
    case False
    then show ?thesis using s Cons.prems(2) Cons.IH [of w "spec e a"] by simp
  qed
qed simp

text \<open>The last tick wakes them.\<close>

lemma due_first:
  assumes "sorted (map fst es)" and "\<forall>e \<in> set es. (0 :: nat) < fst e" and "e \<in> set es" and "fst e = 1"
  shows "e \<in> set (due es)"
  using assms unfolding due_def by (induction es) force+

lemma tick_wakes_due:
  assumes "os_ok a" and "(1, t) \<in> set (o_sleeping a)"
  shows "t \<in> set (o_current (spec (Tick p) a) # o_ready (spec (Tick p) a))"
proof -
  have "(1, t) \<in> set (due (o_sleeping a))"
    using due_first [OF os_okD(7) [OF assms(1)] _ assms(2)] os_okD(8) [OF assms(1)] by simp
  then have t: "t \<in> set (o_ready (spec_wake a))" by (force simp: spec_wake_def)
  then have "t \<in> set (o_current (hand_over (spec_wake a)) # o_ready (hand_over (spec_wake a)))"
    by (cases "o_ready (spec_wake a)") (auto simp: hand_over_def)
  with t show ?thesis by simp
qed

lemma sleeping_blocked:
  assumes "os_ok a" and "(w, t) \<in> set (o_sleeping a)"
  shows "t \<notin> set (o_current a # o_ready a)"
proof -
  have "t \<in># mset (map snd (o_sleeping a))" using assms(2) by force
  then have "0 < count (mset (map snd (o_sleeping a))) t" by (simp only: count_greater_zero_iff)
  moreover have "everyone a = add_mset (o_current a) (mset (o_ready a)) + (mset (map snd (o_sleeping a))
      + (mset (o_input a) + queued (o_sems a) (o_waiting a)))" by (simp add: everyone_def blocked_def)
  then have "count (everyone a) t = count (add_mset (o_current a) (mset (o_ready a))) t + (count (mset (map snd (o_sleeping a))) t
      + count (mset (o_input a) + queued (o_sems a) (o_waiting a)) t)" by (simp only: count_union)
  ultimately have "count (add_mset (o_current a) (mset (o_ready a))) t = 0"
    using os_okD(1) [OF assms(1), of t] by linarith
  then show ?thesis unfolding count_eq_zero_iff by auto
qed

text \<open>The ready threads run in order: the thread with \<open>i\<close> others before it runs when the processor has been
  handed over \<open>i + 1\<close> times.\<close>

fun gives_up :: "event \<Rightarrow> os \<Rightarrow> bool" where
  "gives_up (Wait h) a \<longleftrightarrow> o_permits a h \<le> 0"
| "gives_up Dispatch a \<longleftrightarrow> True"
| "gives_up Idle a \<longleftrightarrow> True"
| "gives_up (Tick preempts) a \<longleftrightarrow> preempts"
| "gives_up (Read_char blocks) a \<longleftrightarrow> blocks"
| "gives_up (Write_char retries) a \<longleftrightarrow> retries"
| "gives_up (Sleep w) a \<longleftrightarrow> w \<noteq> 0"
| "gives_up (Exit b) a \<longleftrightarrow> True"
| "gives_up e a \<longleftrightarrow> False"

fun hand_overs :: "event list \<Rightarrow> os \<Rightarrow> nat" where
  "hand_overs [] a = 0"
| "hand_overs (e # es) a = (if gives_up e a then 1 else 0) + hand_overs es (spec e a)"

lemma spec_ready:
  shows "gives_up e a \<Longrightarrow> o_ready a = t # ts \<Longrightarrow> o_current (spec e a) = t \<and> (\<exists>us. o_ready (spec e a) = ts @ us)"
    and "\<not> gives_up e a \<Longrightarrow> \<exists>us. o_ready (spec e a) = o_ready a @ us"
  by (cases e; auto simp: spec_wait_def spec_signal_def spec_open_def spec_close_def spec_exit_def hand_over_def
      spec_wake_def Let_def split: list.splits)+

lemma ready_in_order:
  assumes "hand_overs es a \<le> length (o_ready a)"
  shows "\<exists>us. o_ready (fold spec es a) = drop (hand_overs es a) (o_ready a) @ us"
  using assms
proof (induction es arbitrary: a)
  case (Cons e es)
  show ?case
  proof (cases "gives_up e a")
    case True
    then obtain t ts where t: "o_ready a = t # ts" using Cons.prems by (cases "o_ready a") auto
    obtain us where u: "o_ready (spec e a) = ts @ us" using spec_ready(1) [OF True t] by blast
    have "hand_overs es (spec e a) \<le> length (o_ready (spec e a))" using Cons.prems True t u by simp
    from Cons.IH [OF this] show ?thesis using True t u Cons.prems by auto
  next
    case False
    obtain us where u: "o_ready (spec e a) = o_ready a @ us" using spec_ready(2) [OF False] by blast
    have le: "hand_overs es (spec e a) \<le> length (o_ready a)" using Cons.prems False by simp
    then have "hand_overs es (spec e a) \<le> length (o_ready (spec e a))" by (simp add: u)
    from Cons.IH [OF this] show ?thesis using False u le by auto
  qed
qed simp

lemma ready_runs:
  assumes "i < length (o_ready a)" and "hand_overs es a = i" and "gives_up e (fold spec es a)"
  shows "o_current (spec e (fold spec es a)) = o_ready a ! i"
proof -
  obtain us where "o_ready (fold spec es a) = drop i (o_ready a) @ us" using ready_in_order [of es a] assms(1,2) by auto
  then have "o_ready (fold spec es a) = o_ready a ! i # (drop (Suc i) (o_ready a) @ us)"
    using assms(1) by (simp add: Cons_nth_drop_Suc)
  from spec_ready(1) [OF assms(3) this] show ?thesis by blast
qed

end
