(* ===== verification/System.thy ===== *)
theory System
  imports Requests OS_Runs
begin

text \<open>
  The kernel as a transition system: code outside the kernel runs, traps with arbitrary registers at arbitrary
  points, and the handler of \<open>src/main.c\<close> runs. The main theorem says that it refines the abstract operating
  system of \<open>OS_Spec\<close> whatever sequence of events occurs; what is proved there, about semaphores, sleeping
  threads and where threads are, then holds of the kernel.
\<close>

section \<open>Simulation\<close>

inductive runs :: "('s \<Rightarrow> 'e \<Rightarrow> 's \<Rightarrow> bool) \<Rightarrow> 's \<Rightarrow> 'e list \<Rightarrow> 's \<Rightarrow> bool" for step where
  runs_start: "runs step s [] s"
| runs_step: "step s e t \<Longrightarrow> runs step t es u \<Longrightarrow> runs step s (e # es) u"

inductive_simps runs_simps [simp]: "runs step s [] t" "runs step s (e # es) t"

text \<open>Events that keep to \<open>P\<close>, each in the state in which its turn comes.\<close>

fun keeps_to :: "('e \<Rightarrow> 'a \<Rightarrow> bool) \<Rightarrow> ('e \<Rightarrow> 'a \<Rightarrow> 'a) \<Rightarrow> 'e list \<Rightarrow> 'a \<Rightarrow> bool" where
  "keeps_to P f [] a \<longleftrightarrow> True"
| "keeps_to P f (e # es) a \<longleftrightarrow> P e a \<and> keeps_to P f es (f e a)"

lemma keeps_to_append: "keeps_to P f (es @ fs) a \<longleftrightarrow> keeps_to P f es a \<and> keeps_to P f fs (fold f es a)"
  by (induction es arbitrary: a) simp_all

lemma runs_append: "runs step s (es @ fs) u \<longleftrightarrow> (\<exists>t. runs step s es t \<and> runs step t fs u)"
  by (induction es arbitrary: s) auto

text \<open>
  A machine with states \<open>'s\<close> implements abstract operations \<open>f\<close>, when the events keep to a \<open>discipline\<close>; it
  guarantees \<open>promise\<close> of the events that it makes.
\<close>

locale simulation =
  fixes step :: "'s \<Rightarrow> 'e \<Rightarrow> 's \<Rightarrow> bool" and rel :: "'a \<Rightarrow> 's \<Rightarrow> bool" and f :: "'e \<Rightarrow> 'a \<Rightarrow> 'a"
    and discipline :: "'e \<Rightarrow> 'a \<Rightarrow> bool" and promise :: "'e \<Rightarrow> 'a \<Rightarrow> bool"
  assumes simulates: "rel a s \<Longrightarrow> discipline e a \<Longrightarrow> step s e t \<Longrightarrow> rel (f e a) t"
    and promised: "rel a s \<Longrightarrow> discipline e a \<Longrightarrow> step s e t \<Longrightarrow> promise e a"
begin

lemma run_simulates:
  assumes "runs step s es t" and "rel a s" and "keeps_to discipline f es a"
  shows "rel (fold f es a) t" and "keeps_to (\<lambda>e a. discipline e a \<and> promise e a) f es a"
proof -
  have "rel (fold f es a) t \<and> keeps_to (\<lambda>e a. discipline e a \<and> promise e a) f es a"
    using assms by (induction arbitrary: a rule: runs.induct) (auto intro: simulates promised)
  then show "rel (fold f es a) t" "keeps_to (\<lambda>e a. discipline e a \<and> promise e a) f es a" by blast+
qed

end

text \<open>A machine that is never stuck on an event that it is ready for.\<close>

locale live_simulation = simulation +
  fixes asks
  assumes progress: "rel a s \<Longrightarrow> discipline e a \<Longrightarrow> asks s e \<Longrightarrow> \<exists>t. step s e t"
begin

lemma run_extends:
  assumes "runs step s es t" and "rel a s" and "keeps_to discipline f es a" and "discipline e (fold f es a)" and "asks t e"
  obtains u where "step t e u" and "rel (f e (fold f es a)) u"
proof -
  have t: "rel (fold f es a) t" by (rule run_simulates(1) [OF assms(1-3)])
  with assms(4,5) obtain u where "step t e u" using progress by blast
  then show thesis using that simulates [OF t assms(4)] by blast
qed

end

section \<open>The kernel as a machine\<close>

text \<open>
  \<open>Run\<close> is code outside the kernel: it may write any context (contexts lie on the stacks of the threads) and
  any word of memory that the kernel does not use, and trap at any point and for any cause.
\<close>

inductive kernel_step :: "kernel \<Rightarrow> event \<Rightarrow> kernel \<Rightarrow> bool" where
  run: "kernel_step s Run
    (s\<lparr>contexts := c, words := w, csr_scause := cause, csr_sepc := pc, csr_sstatus := st\<rparr>)"
| trap: "request (trap_save regs s) = Some e \<Longrightarrow> irq_wrap regs s = Inr (regs', t) \<Longrightarrow> kernel_step s e t"

inductive_cases kernel_stepE [elim]: "kernel_step s e t"

lemma run_same: "os_same (s\<lparr>contexts := c, words := w, csr_scause := cause, csr_sepc := pc, csr_sstatus := st\<rparr>) s"
  by (simp add: os_same_def mem_state.truncate_def)

interpretation kernel_sim: simulation kernel_step refines spec allowed fresh
proof unfold_locales
  fix a s e t
  assume r: "refines a s" and al: "allowed e a" and st: "kernel_step s e t"
  show "refines (spec e a) t"
    using st
  proof cases
    case (run c w cause pc st)
    then show ?thesis using r os_same_refines [OF run_same] by simp
  next
    case (trap regs regs')
    then show ?thesis using irq_wrap_implements(1) [OF r _ al] by blast
  qed
  show "fresh e a"
    using st
  proof cases
    case (trap regs regs')
    obtain L ps where "os_rel L ps a s" using r by (auto simp: refines_def)
    then have "os_rel L ps a (trap_save regs s)" using os_same_rel [OF os_same_trap(2)] by blast
    then show ?thesis using request_fresh trap(1) by blast
  qed simp
qed

text \<open>The running thread traps for an event.\<close>

definition traps_for :: "kernel \<Rightarrow> event \<Rightarrow> bool" where
  "traps_for s e \<longleftrightarrow> (\<exists>regs. request (trap_save regs s) = Some e \<and> fits e s)"

interpretation kernel_live: live_simulation kernel_step refines spec allowed fresh traps_for
proof unfold_locales
  fix a s e
  assume r: "refines a s" and al: "allowed e a" and "traps_for s e"
  then obtain regs where q: "request (trap_save regs s) = Some e" "fits e s" by (auto simp: traps_for_def)
  obtain regs' t where "irq_wrap regs s = Inr (regs', t)" using irq_wrap_implements(2) [OF r q(1) al q(2)] by blast
  then show "\<exists>t. kernel_step s e t" using kernel_step.trap [OF q(1)] by blast
qed

lemma keeps_to_lawful: "keeps_to (\<lambda>e a. allowed e a \<and> fresh e a) spec es a = lawful es a"
  by (induction es arbitrary: a) simp_all

lemmas kernel_run = kernel_sim.run_simulates [unfolded keeps_to_lawful]

lemma refines_ok: "refines a s \<Longrightarrow> os_ok a"
  unfolding refines_def using os_relD(1) by blast

text \<open>What the relation shows of the kernel's memory.\<close>

lemma refines_view:
  assumes "refines a s"
  shows "scheduler_current s = o_current a" and "ready_queue s (o_ready a)" and "input_queue s (o_input a)"
    and "h \<in> o_sems a \<Longrightarrow> waiting_at h s (o_waiting a h) \<and> sint (sem_val (sems s h)) = o_permits a h"
    and "\<exists>ps. sleepers s ps \<and> wakes s ps = map (\<lambda>(w, t). (w, t, 0)) (o_sleeping a)"
    and "user_thread_count (sched s) = of_nat (card (o_threads a))" and "card (o_threads a) < 2147483648"
proof -
  obtain L ps where r: "os_rel L ps a s" using assms by (auto simp: refines_def)
  note d = os_relD [OF r] and v = places_views [OF os_relD(2) [OF r]]
  show "scheduler_current s = o_current a" "ready_queue s (o_ready a)" "input_queue s (o_input a)"
    "user_thread_count (sched s) = of_nat (card (o_threads a))"
    using d(3,6) v(1,2) by simp_all
  show "waiting_at h s (o_waiting a h) \<and> sint (sem_val (sems s h)) = o_permits a h" if "h \<in> o_sems a"
    using d(5) v(3) that by simp
  show "\<exists>ps. sleepers s ps \<and> wakes s ps = map (\<lambda>(w, t). (w, t, 0)) (o_sleeping a)" using d(10) v(4) by auto
  show "card (o_threads a) < 2147483648"
    using objectsD(1) [OF d(11)] os_okD(9) [OF d(1)] by (intro owned_threads_few [OF d(12)]) auto
qed

section \<open>Sleeping and waking\<close>

text \<open>The thread \<open>c\<close> sleeps for \<open>w\<close> more ticks; it is neither running nor ready.\<close>

definition asleep :: "kernel \<Rightarrow> u64 \<Rightarrow> nat \<Rightarrow> bool" where
  "asleep s c w \<longleftrightarrow> (\<exists>ps rs. sleepers s ps \<and> (w, c, 0) \<in> set (wakes s ps)
     \<and> ready_queue s rs \<and> c \<notin> set (scheduler_current s # rs))"

definition runnable :: "kernel \<Rightarrow> u64 \<Rightarrow> bool" where
  "runnable s c \<longleftrightarrow> (\<exists>rs. ready_queue s rs \<and> c \<in> set (scheduler_current s # rs))"

lemma refines_asleep:
  assumes "refines a s" and "(w, c) \<in> set (o_sleeping a)"
  shows "asleep s c w"
proof -
  note v = refines_view [OF assms(1)]
  obtain ps where p: "sleepers s ps" "wakes s ps = map (\<lambda>(w, t). (w, t, 0)) (o_sleeping a)" using v(5) by blast
  have "(w, c, 0) \<in> set (wakes s ps)" using assms(2) unfolding p(2) by force
  with sleeping_blocked [OF refines_ok [OF assms(1)] assms(2)] v(1,2) p(1) show ?thesis
    unfolding asleep_def by metis
qed

lemma refines_runnable: "refines a s \<Longrightarrow> c \<in> set (o_current a # o_ready a) \<Longrightarrow> runnable s c"
  using refines_view(1,2) unfolding runnable_def by metis

text \<open>A trap of the timer always returns, and is a tick.\<close>

lemma timer_trap:
  assumes "refines a s" and "csr_scause s = IRQ_TIMER"
  obtains p regs' t where "irq_wrap regs s = Inr (regs', t)" and "refines (spec (Tick p) a) t"
proof -
  let ?e = "Tick (thr_time_left (threads (trap_save regs s) (scheduler_current (trap_save regs s))) = 1)"
  have q: "request (trap_save regs s) = Some ?e"
    using assms(2) by (simp add: request_def trap_save_def upd_context_def Let_def)
  obtain regs' t where "irq_wrap regs s = Inr (regs', t)" using irq_wrap_implements(2) [OF assms(1) q] by auto
  with irq_wrap_implements(1) [OF assms(1) q] that show thesis by fastforce
qed

section \<open>States in which no thread waits\<close>

text \<open>The thread \<open>c\<close> runs, the threads \<open>ts\<close> are ready; the kernel's own is one of them. The semaphores \<open>S\<close> are
  open, with all their permits.\<close>

definition start_os :: "u64 \<Rightarrow> u64 \<Rightarrow> u64 list \<Rightarrow> u64 set \<Rightarrow> (u64 \<Rightarrow> nat) \<Rightarrow> u64 set \<Rightarrow> os" where
  "start_os c km ts S n B = \<lparr>o_current = c, o_idle = km, o_ready = ts, o_input = [], o_sleeping = [],
     o_waiting = \<lambda>_. [], o_permits = \<lambda>h. int (n h), o_limit = n, o_holders = \<lambda>_. {},
     o_threads = set (c # ts) - {km}, o_sems = S, o_blocks = B\<rparr>"

lemma start_fields [simp]:
  "o_current (start_os c km ts S n B) = c" "o_idle (start_os c km ts S n B) = km" "o_ready (start_os c km ts S n B) = ts"
  "o_input (start_os c km ts S n B) = []" "o_sleeping (start_os c km ts S n B) = []"
  "o_waiting (start_os c km ts S n B) h = []" "o_permits (start_os c km ts S n B) h = int (n h)"
  "o_limit (start_os c km ts S n B) = n" "o_holders (start_os c km ts S n B) h = {}"
  "o_threads (start_os c km ts S n B) = set (c # ts) - {km}" "o_sems (start_os c km ts S n B) = S"
  "o_blocks (start_os c km ts S n B) = B"
  by (simp_all add: start_os_def)

lemma start_ok:
  assumes "distinct (c # ts)" and "finite S" and "\<forall>h \<in> S. n h < 2147483648"
  shows "os_ok (start_os c km ts S n B)"
proof -
  let ?a = "start_os c km ts S n B"
  have b: "blocked ?a = {#}" by (simp add: blocked_def queued_def)
  then have e: "everyone ?a = mset (c # ts)" by (simp add: everyone_def)
  have "count (mset (c # ts)) t \<le> 1" for t
    using assms(1) unfolding distinct_count_atmost_1 by (metis le_less less_numeral_extra(3) zero_le)
  then show ?thesis
    using assms(2,3) unfolding os_ok_def os_ok_with_def e b by (auto simp: semaphore_ok_def)
qed

lemma start_refines:
  assumes "ready_queue s ts" and "scheduler_current s = c" and "sch_kernel_main (sched s) = km"
    and "threads_waiting_for_input s = 0" and "sleeping_threads (sched s) = 0"
    and "distinct (c # ts)" and "finite S"
    and "\<forall>h \<in> S. sem_waiting (sems s h) = 0 \<and> sint (sem_val (sems s h)) = int (n h)"
    and "user_thread_count (sched s) = of_nat (card (set (c # ts) - {km}))"
    and "\<forall>t \<in> insert km (set (c # ts)). thr_time_left (threads s t) \<noteq> 0" and "console_receive_cnt s \<le> 1024"
    and "owns s L" and "\<forall>x \<in> insert km (set (c # ts)) \<union> S. (x, 1) \<in> L" and "B \<subseteq> fst ` L"
    and "insert km (set (c # ts)) \<inter> S = {}" and "(insert km (set (c # ts)) \<union> S) \<inter> B = {}"
  shows "refines (start_os c km ts S n B) s"
proof -
  let ?a = "start_os c km ts S n B"
  have n: "n h < 2147483648" if "h \<in> S" for h using assms(8) that sint_i32_bounds [of "sem_val (sems s h)"] by simp
  have "places S s (lists_of ?a [])"
  proof -
    have "thread_queue_at (list_nodes s) (head s r) (lists_of ?a [] r)" if "r \<in> places_of S" for r
      using that assms(1,4,5,8) by (cases r) (auto simp: ready_queue_def thread_queue_at_def)
    moreover have e: "lists_of ?a [] r = []" if "r \<noteq> Ready" for r using that by (cases r) simp_all
    have "set (lists_of ?a [] p) \<inter> set (lists_of ?a [] q) = {}" if "p \<noteq> q" for p q
      using e [of p] e [of q] that by (cases "p = Ready") auto
    ultimately show ?thesis unfolding places_def lists_at_def by blast
  qed
  then have "os_view ?a s []"
    using assms(2,3,8-11) unfolding os_view_def by auto
  moreover have "objects ?a L []"
    using assms(13-16) unfolding objects_def by auto
  then have "os_heap ?a s L []"
    using assms(12) by (simp add: os_heap_def naps_def)
  moreover have "os_ok ?a" by (rule start_ok [OF assms(6,7)]) (use n in blast)
  ultimately show ?thesis unfolding refines_def os_rel_def by blast
qed

text \<open>A small one: thread 5184 runs, 5120 is ready, 5248 is the kernel's own, and the semaphore 5312 has one
  permit; they are blocks of the heap, which has room for more.\<close>

definition duo :: kernel where
  "duo = blank_kernel\<lparr>
     mem_index := (\<lambda>_. 0)(0 := 16, 15 := 16, 16 := 1, 17 := 1, 18 := 1, 19 := 1, 20 := -236, 255 := -236),
     list_nodes := (\<lambda>_. \<lparr>list_next = 5160, list_prev = 5160\<rparr>),
     threads := (\<lambda>_. \<lparr>thr_sp = 0, thr_bp = 0, thr_sstatus = 0, thr_sepc = 0, thr_time_left = 1\<rparr>),
     sems := (\<lambda>_. \<lparr>sem_val = 1, sem_init = 1, sem_waiting = 0\<rparr>), csr_scause := IRQ_ECALL_USER,
     sched := \<lparr>user_thread_count = 2, ready_threads = 5160, sleeping_threads = 0,
       thread_current = 5184, sch_kernel_main = 5248\<rparr>\<rparr>"

abbreviation duo_os :: os where
  "duo_os \<equiv> start_os 5184 5248 [5120] {5312} (\<lambda>_. 1) {}"

lemma duo_cells:
  assumes "0 \<le> j" and "j < 18446744073709551616"
  shows "cell duo j = (if j = 0 \<or> j = 15 then 16 else if j = 16 \<or> j = 17 \<or> j = 18 \<or> j = 19 then 1
    else if j = 20 \<or> j = 255 then -236 else 0)"
  using assms by (simp add: cell_def duo_def word_of_int_eq_u64)

lemma duo_fields:
  "n_mem_blocks duo = 256" "HEAP_START_ADDR duo = 4096" "HEAP_END_ADDR duo = 20480"
  by (simp_all add: duo_def blank_kernel_fields)

lemma duo_heap: "mem_rep duo [16, 1, 1, 1, 1, -236]"
proof -
  have "run_at (cell duo) 0 16" "run_at (cell duo) 16 1" "run_at (cell duo) 17 1" "run_at (cell duo) 18 1"
    "run_at (cell duo) 19 1" "run_at (cell duo) 20 (-236)"
    by (simp_all add: run_at_def duo_cells)
  moreover have "heap_shape duo" by (simp add: heap_shape_def duo_fields)
  ultimately show ?thesis by (simp add: mem_rep_def mem_lay_def duo_fields)
qed

lemma duo_owns: "owns duo {(4096, 16), (5120, 1), (5184, 1), (5248, 1), (5312, 1)}"
  unfolding owns_def
  by (rule exI [of _ "[16, 1, 1, 1, 1, -236]"]) (auto simp: duo_heap duo_cells duo_fields block_addr_def)

lemma duo_room: "new_block 1 duo \<noteq> 0"
proof -
  obtain v where "mem_alloc 1 duo = Inr (block_addr duo 20, v)"
    using mem_alloc_Some [OF duo_heap, of 1] by simp blast
  then show ?thesis by (simp add: new_block_def block_addr_def duo_fields)
qed

lemma duo_ready: "ready_queue duo [5120]"
  by (simp add: ready_queue_def thread_queue_at_def queue_def ring_def duo_def thread_node_def)

lemma duo_refines: "refines duo_os duo"
proof (rule start_refines)
  show "ready_queue duo [5120]" by (rule duo_ready)
  show "owns duo {(4096, 16), (5120, 1), (5184, 1), (5248, 1), (5312, 1)}" by (rule duo_owns)
qed (simp_all add: duo_def blank_kernel_def scheduler_current_def)

text \<open>The running thread of it waits for the semaphore, hands over, and goes to sleep.\<close>

abbreviation calling :: "u64 \<Rightarrow> u64 \<Rightarrow> context_t" where
  "calling code arg \<equiv> blank_context\<lparr>x_a0 := code, x_a1 := arg\<rparr>"

lemma duo_requests:
  "request (trap_save (calling SYSCALL_SEM_WAIT 5312) duo) = Some (Wait 5312)"
  "request (trap_save (calling SYSCALL_THREAD_DISPATCH 0) duo) = Some Dispatch"
  by (simp_all add: request_def user_request_def Let_def trap_save_contexts duo_def)

lemma duo_steps:
  obtains t u where "kernel_step duo (Wait 5312) t" and "kernel_step duo Dispatch u"
proof -
  have "traps_for duo (Wait 5312)" "traps_for duo Dispatch" unfolding traps_for_def using duo_requests by fastforce+
  then obtain t u where "kernel_step duo (Wait 5312) t" "kernel_step duo Dispatch u"
    using kernel_live.progress [OF duo_refines, of "Wait 5312"] kernel_live.progress [OF duo_refines, of Dispatch] by auto
  then show thesis by (rule that)
qed

text \<open>From every state, code that runs outside the kernel can make a system call that is allowed.\<close>

lemma calls_run:
  assumes "refines a s" and "allowed e a" and "fits e s"
    and "\<And>s. csr_scause s = IRQ_ECALL_USER \<Longrightarrow> request (trap_save regs s) = Some e"
  obtains t where "runs kernel_step s [Run, e] t" and "refines (spec e a) t"
proof -
  let ?s = "s\<lparr>contexts := contexts s, words := words s, csr_scause := IRQ_ECALL_USER, csr_sepc := csr_sepc s,
    csr_sstatus := csr_sstatus s\<rparr>"
  have r: "refines a ?s" using assms(1) os_same_refines [OF run_same] by blast
  have f: "fits e ?s" using assms(3) by (cases e) simp_all
  have "request (trap_save regs ?s) = Some e" by (rule assms(4)) simp
  with f have "traps_for ?s e" unfolding traps_for_def by blast
  then obtain t where t: "kernel_step ?s e t" using kernel_live.progress [OF r assms(2)] by blast
  have "kernel_step s Run ?s" by (rule kernel_step.run)
  with t have "runs kernel_step s [Run, e] t" by auto
  then show thesis using that kernel_sim.simulates [OF r assms(2) t] by blast
qed

lemma call_requests:
  assumes "csr_scause s = IRQ_ECALL_USER"
  shows "request (trap_save (calling SYSCALL_SEM_WAIT h) s) = Some (Wait h)"
    and "request (trap_save (calling SYSCALL_SEM_SIGNAL h) s) = Some (Signal h)"
    and "request (trap_save (calling SYSCALL_THREAD_DISPATCH 0) s) = Some Dispatch"
  using assms by (simp_all add: request_def user_request_def Let_def trap_save_contexts)

lemma sleep_request:
  assumes "csr_scause s = IRQ_ECALL_USER" and "new_block 1 (entered (calling SYSCALL_TIMED_SLEEP w) s) \<noteq> 0"
  shows "request (trap_save (calling SYSCALL_TIMED_SLEEP w) s) = Some (Sleep (unat w))"
  using assms by (simp add: request_def user_request_def Let_def trap_save_contexts)

text \<open>Thread 5184 takes the permit, thread 5120 waits for it, and 5184 runs again.\<close>

lemma duo_contended:
  obtains s where "refines (fold spec [Wait 5312, Dispatch, Wait 5312] duo_os) s"
proof -
  let ?b = "spec Dispatch (spec (Wait 5312) duo_os)"
  have al: "allowed (Wait 5312) duo_os" "allowed Dispatch (spec (Wait 5312) duo_os)" "allowed (Wait 5312) ?b"
    by (simp_all add: spec_wait_def Let_def hand_over_def run_next_def start_os_def)
  obtain t where t: "refines (spec (Wait 5312) duo_os) t"
    by (rule calls_run [OF duo_refines al(1) _ call_requests(1)]) simp
  obtain u where u: "refines ?b u" by (rule calls_run [OF t al(2) _ call_requests(3)]) simp
  obtain v where "refines (spec (Wait 5312) ?b) v" by (rule calls_run [OF u al(3) _ call_requests(1)]) simp
  then show thesis by (intro that [of v]) simp
qed

section \<open>Properties\<close>

text \<open>C1. The kernel refines the abstract operating system: from related states, whatever threads do within the
  discipline and whenever interrupts strike, every run of the kernel leads to a state that is related to the
  one that the abstract events lead to, and that state satisfies the invariant.\<close>

theorem kernel_refines_spec:
  assumes "refines a s" and "runs kernel_step s es t" and "keeps_to allowed spec es a"
  shows "refines (fold spec es a) t \<and> os_ok (fold spec es a)"
  using kernel_run(1) [OF assms(2,1,3)] refines_ok by blast

theorem kernel_refines_spec_witness:
  "\<exists>t. runs kernel_step duo [Wait 5312] t \<and> refines (spec (Wait 5312) duo_os) t"
proof -
  obtain t where t: "kernel_step duo (Wait 5312) t" by (rule duo_steps)
  then have r: "runs kernel_step duo [Wait 5312] t" by simp
  have "keeps_to allowed spec [Wait 5312] duo_os" by simp
  from kernel_refines_spec [OF duo_refines r this] r show ?thesis by auto
qed

text \<open>C3. A semaphore opened with \<open>n\<close> permits never has more than \<open>n\<close> holders: in every reachable state, for
  every open semaphore, the threads whose wait has succeeded (at once or by being woken) and that have not
  signalled since are at most its limit, none of them waits, and the value in memory is the limit minus the
  holders minus those that wait. With one permit this is mutual exclusion.\<close>

theorem semaphore_limits_holders:
  assumes "refines a s" and "runs kernel_step s es t" and "keeps_to allowed spec es a" and "b = fold spec es a"
    and "h \<in> o_sems b"
  shows "card (o_holders b h) \<le> o_limit b h \<and> o_holders b h \<inter> set (o_waiting b h) = {} \<and> waiting_at h t (o_waiting b h)
    \<and> sint (sem_val (sems t h)) = int (o_limit b h) - int (card (o_holders b h)) - int (length (o_waiting b h))"
proof -
  have r: "refines b t" using kernel_run(1) [OF assms(2,1,3)] by (simp add: assms(4))
  have "semaphore_ok b h" by (rule os_okD(6) [OF refines_ok [OF r] assms(5)])
  with refines_view(4) [OF r assms(5)] show ?thesis by (auto simp: semaphore_ok_def)
qed

theorem semaphore_limits_holders_witness:
  "\<exists>t. runs kernel_step duo [Wait 5312] t \<and> sint (sem_val (sems t 5312)) = 0"
proof -
  obtain t where t: "kernel_step duo (Wait 5312) t" by (rule duo_steps)
  then have r: "runs kernel_step duo [Wait 5312] t" by simp
  have k: "keeps_to allowed spec [Wait 5312] duo_os" by simp
  have "5312 \<in> o_sems (fold spec [Wait 5312] duo_os)" by (simp add: spec_wait_def Let_def)
  from semaphore_limits_holders [OF duo_refines r k refl this] r show ?thesis
    by (auto simp: spec_wait_def Let_def)
qed

text \<open>C4. No thread is lost and none is in two places: in every reachable state each thread is exactly once
  among the running one, the ready queue, the queues of the open semaphores, the threads that wait for input
  and the sleeping ones (beside the kernel's own thread, which runs or is ready), the lists in memory are
  these, and the kernel's count of user threads is their number.\<close>

theorem threads_conserved:
  assumes "refines a s" and "runs kernel_step s es t" and "keeps_to allowed spec es a" and "b = fold spec es a"
  shows "(\<exists>ps. places (o_sems b) t (lists_of b ps) \<and> map (sleeper_thread t) ps = map snd (o_sleeping b))
    \<and> scheduler_current t = o_current b \<and> (\<forall>x. count (everyone b) x \<le> 1)
    \<and> set_mset (everyone b) - {o_idle b} = o_threads b \<and> o_idle b \<notin># blocked b
    \<and> user_thread_count (sched t) = of_nat (card (o_threads b))"
proof -
  have r: "refines b t" using kernel_run(1) [OF assms(2,1,3)] by (simp add: assms(4))
  then obtain L ps where o: "os_rel L ps b t" by (auto simp: refines_def)
  note ok = os_okD [OF refines_ok [OF r]]
  show ?thesis using os_relD(2,3,6) [OF o] sleeping_threads(1) [OF o] ok(1-3) by blast
qed

theorem threads_conserved_witness:
  "\<exists>t. runs kernel_step duo [Dispatch] t \<and> scheduler_current t = 5120 \<and> user_thread_count (sched t) = 2"
proof -
  obtain t where t: "kernel_step duo Dispatch t" by (rule duo_steps)
  then have r: "runs kernel_step duo [Dispatch] t" by simp
  have k: "keeps_to allowed spec [Dispatch] duo_os" by simp
  from threads_conserved [OF duo_refines r k refl] r show ?thesis
    by (auto simp: hand_over_def run_next_def start_os_def)
qed

text \<open>C5. Memory is used at one type: in every reachable state each thread structure, semaphore and sleeping
  entry that the kernel uses is a live block of the allocator, the blocks are pairwise disjoint, no block
  serves as two of them or as memory of a user program, and every thread in a queue or on the processor has
  such a structure.\<close>

theorem structures_typed:
  assumes "refines a s" and "runs kernel_step s es t" and "keeps_to allowed spec es a" and "b = fold spec es a"
  shows "\<exists>L ps. owns t L \<and> (\<forall>(p, m) \<in> L. \<forall>(q, k) \<in> L. (p, m) \<noteq> (q, k) \<longrightarrow> apart p m q k)
    \<and> sleepers t ps \<and> (\<forall>x \<in> all_threads b \<union> o_sems b \<union> set ps. (x, 1) \<in> L) \<and> o_blocks b \<subseteq> fst ` L
    \<and> all_threads b \<inter> o_sems b = {} \<and> (all_threads b \<union> o_sems b) \<inter> set ps = {}
    \<and> (all_threads b \<union> o_sems b \<union> set ps) \<inter> o_blocks b = {} \<and> set_mset (everyone b) \<subseteq> all_threads b"
proof -
  have r: "refines b t" using kernel_run(1) [OF assms(2,1,3)] by (simp add: assms(4))
  then obtain L ps where o: "os_rel L ps b t" by (auto simp: refines_def)
  have "sleepers t ps" using places_views(4) [OF os_relD(2) [OF o]] by simp
  moreover have "set_mset (everyone b) \<subseteq> all_threads b" using os_okD(2) [OF refines_ok [OF r]] by auto
  ultimately show ?thesis
    using owns_apart [OF os_relD(12) [OF o]] os_relD(11,12) [OF o] unfolding objects_def
    by (intro exI [of _ L] exI [of _ ps]) blast
qed

theorem structures_typed_witness:
  "\<exists>t L. runs kernel_step duo [Dispatch] t \<and> owns t L \<and> (\<forall>x \<in> {5120, 5184, 5248, 5312}. (x, 1) \<in> L)"
proof -
  obtain t where t: "kernel_step duo Dispatch t" by (rule duo_steps)
  then have r: "runs kernel_step duo [Dispatch] t" by simp
  have k: "keeps_to allowed spec [Dispatch] duo_os" by simp
  from structures_typed [OF duo_refines r k refl] obtain L ps where o: "owns t L"
    and x: "\<forall>x \<in> all_threads (hand_over duo_os) \<union> o_sems (hand_over duo_os) \<union> set ps. (x, 1) \<in> L" by auto
  have "{5120, 5184, 5248, 5312} \<subseteq> all_threads (hand_over duo_os) \<union> o_sems (hand_over duo_os)"
    by (simp add: hand_over_def run_next_def start_os_def)
  with o x r show ?thesis by blast
qed

text \<open>C6. A thread that goes to sleep for \<open>w\<close> ticks sleeps for exactly \<open>w\<close> ticks, whatever the other threads and
  the devices do meanwhile: as long as fewer ticks have passed it is asleep, neither running nor ready, and
  waits for the rest of them, and the last tick makes it run or ready.\<close>

theorem sleeper_wakes_on_time:
  assumes "refines a s" and "kernel_step s (Sleep w) t" and "allowed (Sleep w) a" and "0 < w"
    and "runs kernel_step t es u" and "keeps_to allowed spec es (spec (Sleep w) a)" and "ticks es < w"
  shows "asleep u (scheduler_current s) (w - ticks es)
    \<and> (csr_scause u = IRQ_TIMER \<and> ticks es + 1 = w \<longrightarrow>
        (\<exists>regs' v. irq_wrap regs u = Inr (regs', v) \<and> runnable v (scheduler_current s)))"
proof -
  let ?c = "scheduler_current s" and ?a = "spec (Sleep w) a" and ?b = "fold spec es (spec (Sleep w) a)"
  have c: "?c = o_current a" by (rule refines_view(1) [OF assms(1)])
  have r: "refines ?b u" using kernel_run(1) [OF assms(5) kernel_sim.simulates [OF assms(1,3,2)] assms(6)] .
  have "(w, ?c) \<in> set (o_sleeping ?a)" using assms(4) by (simp add: insert_wake_set c)
  from sleeping_run [OF this assms(7)] have s: "(w - ticks es, ?c) \<in> set (o_sleeping ?b)" .
  have "\<exists>regs' v. irq_wrap regs u = Inr (regs', v) \<and> runnable v ?c" if t: "csr_scause u = IRQ_TIMER" "ticks es + 1 = w"
  proof -
    obtain p regs' v where v: "irq_wrap regs u = Inr (regs', v)" "refines (spec (Tick p) ?b) v"
      by (rule timer_trap [OF r t(1)])
    have "(1, ?c) \<in> set (o_sleeping ?b)" using s t(2) by (metis diff_add_inverse)
    from tick_wakes_due [OF refines_ok [OF r] this] have "runnable v ?c" by (rule refines_runnable [OF v(2)])
    with v(1) show ?thesis by blast
  qed
  with refines_asleep [OF r s] show ?thesis by blast
qed

theorem sleeper_wakes_on_time_witness:
  "\<exists>t regs' v. kernel_step duo (Sleep 1) t \<and> asleep (t\<lparr>csr_scause := IRQ_TIMER\<rparr>) 5184 1
    \<and> irq_wrap blank_context (t\<lparr>csr_scause := IRQ_TIMER\<rparr>) = Inr (regs', v) \<and> runnable v 5184"
proof -
  let ?r = "calling SYSCALL_TIMED_SLEEP 1"
  obtain L ps where "os_rel L ps duo_os duo" using duo_refines by (auto simp: refines_def)
  then have o: "owns duo L" by (rule os_relD(12))
  have m: "mem_state.truncate (entered ?r duo) = mem_state.truncate duo"
    using os_same_trap(3) [of duo ?r] by (simp add: os_same_def)
  have "new_block 1 (entered ?r duo) = new_block 1 duo" by (rule new_block_cong [OF o _ m]) simp
  then have "new_block 1 (entered ?r duo) \<noteq> 0" using duo_room by simp
  moreover have "csr_scause duo = IRQ_ECALL_USER" by (simp add: duo_def)
  ultimately have "request (trap_save ?r duo) = Some (Sleep (unat (1 :: u64)))" by (intro sleep_request)
  then have "request (trap_save ?r duo) = Some (Sleep 1)" by simp
  then have "traps_for duo (Sleep 1)" unfolding traps_for_def by fastforce
  moreover have al: "allowed (Sleep 1) duo_os" by simp
  ultimately obtain t where t: "kernel_step duo (Sleep 1) t" using kernel_live.progress [OF duo_refines] by blast
  let ?u = "t\<lparr>csr_scause := IRQ_TIMER\<rparr>"
  have u: "runs kernel_step t [Run] ?u"
    using kernel_step.run [where s = t and c = "contexts t" and w = "words t" and cause = IRQ_TIMER
      and pc = "csr_sepc t" and st = "csr_sstatus t"] by simp
  have "scheduler_current duo = 5184" by (simp add: duo_def scheduler_current_def)
  with sleeper_wakes_on_time [OF duo_refines t al _ u, of blank_context] t show ?thesis by auto
qed

text \<open>C7. Threads that wait for a semaphore are served in order: as long as it is not closed, the thread with
  \<open>i\<close> others before it in the queue is woken by the signal that follows \<open>i\<close> others, whoever signals and
  whatever happens in between; it then holds a permit and is ready.\<close>

theorem semaphore_serves_in_order:
  assumes "refines a s" and "runs kernel_step s (es @ [Signal h]) t" and "keeps_to allowed spec (es @ [Signal h]) a"
    and "h \<in> o_sems a" and "Close h \<notin> set es" and "i < length (o_waiting a h)" and "count_list es (Signal h) = i"
  shows "o_waiting a h ! i \<in> o_holders (fold spec (es @ [Signal h]) a) h \<and> runnable t (o_waiting a h ! i)"
proof -
  let ?b = "fold spec es a" and ?c = "fold spec (es @ [Signal h]) a"
  have r: "refines ?c t" by (rule kernel_run(1) [OF assms(2,1,3)])
  have "lawful es a" using kernel_run(2) [OF assms(2,1,3)] by (simp add: lawful_append)
  from waiting_in_order [OF this assms(5,4)] assms(6,7) obtain us where
    "o_waiting ?b h = drop i (o_waiting a h) @ us" by auto
  then have "o_waiting ?b h = o_waiting a h ! i # (drop (Suc i) (o_waiting a h) @ us)"
    using assms(6) by (simp add: Cons_nth_drop_Suc)
  note w = signal_serves [OF this]
  have "runnable t (o_waiting a h ! i)" using w(2) by (intro refines_runnable [OF r]) simp
  with w(1) show ?thesis by simp
qed

theorem semaphore_serves_in_order_witness:
  "\<exists>a s t. o_waiting a 5312 = [5120] \<and> refines a s \<and> runs kernel_step s [Run, Signal 5312] t \<and> runnable t 5120"
proof -
  let ?a = "fold spec [Wait 5312, Dispatch, Wait 5312] duo_os"
  have a: "o_waiting ?a 5312 = [5120]" "5312 \<in> o_sems ?a" "allowed (Signal 5312) ?a"
    by (simp_all add: spec_wait_def Let_def hand_over_def run_next_def start_os_def)
  obtain s where s: "refines ?a s" by (rule duo_contended)
  obtain t where t: "runs kernel_step s [Run, Signal 5312] t"
    by (rule calls_run [OF s a(3) _ call_requests(2)]) simp
  have "runnable t (o_waiting ?a 5312 ! 0)"
    using semaphore_serves_in_order [OF s, of "[Run]" 5312 t 0] t a by (simp del: runs_simps fold_simps)
  with a(1) s t show ?thesis by auto
qed

text \<open>C8. Every ready thread gets its turn: whatever the threads do and whenever interrupts strike, the thread
  with \<open>i\<close> others before it in the ready queue runs when the running threads have handed over the processor
  \<open>i + 1\<close> times, by blocking, by dispatch, at the end of their time slices or by leaving.\<close>

theorem ready_thread_gets_turn:
  assumes "refines a s" and "runs kernel_step s (es @ [e]) t" and "keeps_to allowed spec (es @ [e]) a"
    and "i < length (o_ready a)" and "hand_overs es a = i" and "gives_up e (fold spec es a)"
  shows "scheduler_current t = o_ready a ! i"
proof -
  have "refines (spec e (fold spec es a)) t" using kernel_run(1) [OF assms(2,1,3)] by simp
  from refines_view(1) [OF this] ready_runs [OF assms(4-6)] show ?thesis by simp
qed

theorem ready_thread_gets_turn_witness:
  "\<exists>t. runs kernel_step duo [Dispatch] t \<and> scheduler_current t = 5120"
proof -
  obtain t where t: "kernel_step duo Dispatch t" by (rule duo_steps)
  have r: "runs kernel_step duo ([] @ [Dispatch]) t" using t by simp
  have k: "keeps_to allowed spec ([] @ [Dispatch]) duo_os" by simp
  from ready_thread_gets_turn [OF duo_refines r k, of 0] r show ?thesis by auto
qed

text \<open>C9. The handler never stops the machine on behalf of such threads: in every reachable state, a trap whose
  request is within the discipline, and for which the heap and the table of semaphores have room, returns,
  and does what the event says.\<close>

theorem traps_return:
  assumes "refines a s" and "runs kernel_step s es t" and "keeps_to allowed spec es a" and "b = fold spec es a"
    and "request (trap_save regs t) = Some e" and "allowed e b" and "fits e t"
  shows "\<exists>regs' u. irq_wrap regs t = Inr (regs', u) \<and> kernel_step t e u \<and> refines (spec e b) u"
proof -
  have r: "refines b t" using kernel_run(1) [OF assms(2,1,3)] by (simp add: assms(4))
  obtain regs' u where u: "irq_wrap regs t = Inr (regs', u)"
    using irq_wrap_implements(2) [OF r assms(5,6,7)] by blast
  with irq_wrap_implements(1) [OF r assms(5,6)] kernel_step.trap [OF assms(5)] show ?thesis by blast
qed

theorem traps_return_witness:
  "\<exists>regs' u. irq_wrap (calling SYSCALL_SEM_WAIT 5312) duo = Inr (regs', u) \<and> scheduler_current u = 5184"
proof -
  have r: "runs kernel_step duo [] duo" and k: "keeps_to allowed spec [] duo_os" by simp_all
  have al: "allowed (Wait 5312) duo_os" and f: "fits (Wait 5312) duo" by simp_all
  from traps_return [OF duo_refines r k _ duo_requests(1) _ f] obtain regs' u where
    u: "irq_wrap (calling SYSCALL_SEM_WAIT 5312) duo = Inr (regs', u)" "refines (spec (Wait 5312) duo_os) u"
    using al by auto
  from refines_view(1) [OF u(2)] u(1) show ?thesis by (simp add: spec_wait_def Let_def)
qed

end
