(* ===== verification/Boot.thy ===== *)
theory Boot
  imports System
begin

text \<open>
  The start of the kernel, \<open>main\<close> of \<open>src/main.c\<close>: the set-up of the platform, the kernel's own thread, the
  first user thread, and the loop that runs while user threads exist. The theorem says that on every
  platform with a heap that is large enough the first trap of \<open>main\<close> starts the user program.
\<close>

section \<open>Definitions\<close>

definition main_setup :: "kernel \<Rightarrow> kernel vres" where
  "main_setup s =
     (let s = s\<lparr>csr_sstatus := csr_sstatus s AND NOT 0x2\<rparr>;
          s = s\<lparr>csr_stvec := irq_wrap_addr s\<rparr>;
          s = mem_init s
      in console_init s)"

definition main_kernel_thread :: "kernel \<Rightarrow> kernel vres" where
  "main_kernel_thread s =
     seqr (mem_alloc (size_in_blocks sizeof_thread) s) (\<lambda>(p, s).
     let s = s\<lparr>kernel_main := p\<rparr> in
     if p = 0 then Inl (Panic (line ''Failed to allocate kernel main thread''), s)
     else
       (let s = upd_thread p (\<lambda>c. c\<lparr>thr_bp := 0\<rparr>) s;
            s = upd_thread p (\<lambda>c. c\<lparr>thr_time_left := 1\<rparr>) s
        in scheduler_init p s))"

definition main_user_thread :: "kernel \<Rightarrow> kernel vres" where
  "main_user_thread s =
     seqr (mem_alloc (size_in_blocks DEFAULT_STACK_SIZE) s) (\<lambda>(p, s).
     let s = s\<lparr>system_stack := p\<rparr> in
     seqr (mem_alloc (size_in_blocks DEFAULT_STACK_SIZE) s) (\<lambda>(user_stack, s).
     if system_stack s = 0 then Inl (Panic (line ''Failed to allocate system stack''), s)
     else if user_stack = 0 then Inl (Panic ''Failed to allocate user main stack'', s)
     else
       (let s = s\<lparr>system_stack := system_stack s + (DEFAULT_STACK_SIZE - 8)\<rparr>;
            user_stack = user_stack + (DEFAULT_STACK_SIZE - 8)
        in seqr (thread_create (user_main_addr s) (userMain_addr s) 0 user_stack EXEC_MODE_USER s) (\<lambda>(res, s).
           if res \<noteq> 0 then Inl (Panic (line ''Failed to allocate user main thread''), s) else Inr s))))"

text \<open>\<open>main\<close> up to its first trap.\<close>

definition boot :: "kernel \<Rightarrow> kernel vres" where
  "boot s = seqr (main_setup s) (\<lambda>s. seqr (main_kernel_thread s) main_user_thread)"

text \<open>One round of the loop of \<open>main\<close>, up to its trap: whether the loop goes on, and the state. The writes
  to the status register open and close the window in which the timer can interrupt.\<close>

definition main_round :: "kernel \<Rightarrow> bool \<times> kernel" where
  "main_round s =
     (if scheduler_user_thread_count s = 0 then (False, stop s)
      else
        (let sstatus = csr_sstatus s;
             int_enable_sstatus = sstatus OR push_bit 1 1;
             s = s\<lparr>csr_sstatus := int_enable_sstatus\<rparr>;
             s = s\<lparr>csr_sstatus := sstatus\<rparr>
         in (True, s)))"

section \<open>Allocating from a heap whose free blocks are all at the end\<close>

lemma first_fit_bump:
  assumes "\<forall>r \<in> set us. 0 < r" and "0 < k" and "k < m"
  shows "first_fit k i (us @ [- m]) = Some (i + extent us, us @ [k, k - m])"
  using assms(1)
proof (induction us arbitrary: i)
  case Nil
  then show ?case using assms(2,3) by simp
next
  case (Cons u us)
  then show ?case by simp
qed

lemma alloc_bump:
  assumes "mem_rep s (us @ [- m])" and "\<forall>r \<in> set us. 0 < r" and "0 < uint k" and "uint k < m"
  obtains t where "mem_alloc k s = Inr (block_addr s (extent us), t)" and "mem_rep t (us @ [uint k, - (m - uint k)])"
    and "same_heap s t" and "cell t (uint (n_mem_blocks s)) = cell s (uint (n_mem_blocks s))"
proof -
  have "first_fit (uint k) 0 (us @ [- m]) = Some (extent us, us @ [uint k, - (m - uint k)])"
    using first_fit_bump [OF assms(2-4), of 0] by simp
  then show thesis using mem_alloc_Some [OF assms(1,3)] that by metis
qed

lemma mem_rep_cong:
  assumes "mem_state.truncate t = mem_state.truncate s"
  shows "mem_rep t rs = mem_rep s rs"
proof -
  have f: "mem_index t = mem_index s" "n_mem_blocks t = n_mem_blocks s"
    "HEAP_START_ADDR t = HEAP_START_ADDR s" "HEAP_END_ADDR t = HEAP_END_ADDR s"
    using assms by (simp_all add: mem_state.truncate_def)
  then have "cell t = cell s" "heap_shape t = heap_shape s"
    by (simp_all add: cell_def [abs_def] heap_shape_def)
  with f show ?thesis by (simp add: mem_rep_def mem_lay_def)
qed

lemma rep_addr:
  assumes "mem_rep s rs" and "0 \<le> j" and "j < extent rs"
  shows "uint (block_addr s j) = uint (HEAP_START_ADDR s) + 64 * j" and "block_addr s j \<noteq> 0"
    and "thread_node (block_addr s j) \<noteq> 0"
proof -
  have h: "heap_shape s" "extent rs = uint (n_mem_blocks s)" using assms(1) by (simp_all add: mem_rep_def mem_lay_def)
  then show a: "uint (block_addr s j) = uint (HEAP_START_ADDR s) + 64 * j"
    using assms(2,3) by (intro uint_block_addr) simp_all
  have p: "0 < uint (HEAP_START_ADDR s)" "uint (HEAP_START_ADDR s) + 64 * uint (n_mem_blocks s) \<le> uint (HEAP_END_ADDR s)"
    using h(1) by (simp_all add: heap_shape_def)
  have b: "0 < uint (block_addr s j)" using a p(1) assms(2) by linarith
  then show "block_addr s j \<noteq> 0" by (metis less_irrefl uint_0_eq)
  have "uint (block_addr s j) + 40 < 2 ^ 64"
    using a p(2) assms(3) h(2) uint_u64_bounds [of "HEAP_END_ADDR s"] by simp
  then have "uint (block_addr s j + 40) = uint (block_addr s j) + 40" by (simp add: uint_add_bounded)
  then have "0 < uint (thread_node (block_addr s j))" using b by (simp add: thread_node_def)
  then show "thread_node (block_addr s j) \<noteq> 0" by (metis less_irrefl uint_0_eq)
qed

text \<open>The platform: what no operation changes.\<close>

definition same_platform :: "kernel \<Rightarrow> kernel \<Rightarrow> bool" where
  "same_platform s t \<longleftrightarrow> HEAP_START_ADDR t = HEAP_START_ADDR s \<and> userMain_addr t = userMain_addr s
     \<and> user_main_addr t = user_main_addr s \<and> thread_wrapper_addr t = thread_wrapper_addr s"

lemma same_platform_addr: "same_platform s t \<Longrightarrow> block_addr t j = block_addr s j"
  by (simp add: same_platform_def block_addr_def)

lemma same_heap_platform: "same_heap s t \<Longrightarrow> same_platform s t"
  by (auto simp: same_heap_def same_platform_def)

text \<open>What setting up threads leaves alone: the word behind the index, and the console.\<close>

definition boot_frame :: "kernel \<Rightarrow> kernel \<Rightarrow> bool" where
  "boot_frame s t \<longleftrightarrow> n_mem_blocks t = n_mem_blocks s
     \<and> cell t (uint (n_mem_blocks s)) = cell s (uint (n_mem_blocks s))
     \<and> console_receive_cnt t = console_receive_cnt s \<and> threads_waiting_for_input t = threads_waiting_for_input s"

lemma boot_frame_trans: "boot_frame s t \<Longrightarrow> boot_frame t u \<Longrightarrow> boot_frame s u"
  by (simp add: boot_frame_def)

lemma boot_alloc:
  fixes s :: kernel
  assumes "mem_rep s (us @ [- m])" and "\<forall>r \<in> set us. 0 < r" and "0 < uint k" and "uint k < m"
  obtains t where "mem_alloc k s = Inr (block_addr s (extent us), t)" and "mem_rep t (us @ [uint k, - (m - uint k)])"
    and "same_heap s t" and "boot_frame s t"
proof -
  obtain t where t: "mem_alloc k s = Inr (block_addr s (extent us), t)" "mem_rep t (us @ [uint k, - (m - uint k)])"
    "same_heap s t" "cell t (uint (n_mem_blocks s)) = cell s (uint (n_mem_blocks s))"
    by (rule alloc_bump [OF assms])
  then have "boot_frame s t" by (auto simp: boot_frame_def same_heap_def)
  with t(1-3) show thesis by (rule that)
qed

lemma boot_frame_upd:
  assumes "mem_state.truncate t = mem_state.truncate s" and "console_receive_cnt t = console_receive_cnt s"
    and "threads_waiting_for_input t = threads_waiting_for_input s"
  shows "boot_frame s t"
proof -
  have "mem_index t = mem_index s" "n_mem_blocks t = n_mem_blocks s"
    using assms(1) by (simp_all add: mem_state.truncate_def)
  with assms(2,3) show ?thesis by (simp add: boot_frame_def cell_def)
qed

section \<open>The stages\<close>

lemma mem_init_form:
  obtains ix nb il where "mem_init s = s\<lparr>n_mem_blocks := nb, mem_index_len_in_blocks := il, mem_index := ix\<rparr>"
proof -
  let ?n = "(HEAP_END_ADDR s - HEAP_START_ADDR s) div MEM_BLOCK_SIZE"
  let ?s = "s\<lparr>n_mem_blocks := ?n, mem_index_len_in_blocks := (4 * ?n + MEM_BLOCK_SIZE - 1) div MEM_BLOCK_SIZE\<rparr>"
  obtain ix where "mem_zero_loop 0 ?s = ?s\<lparr>mem_index := ix\<rparr>"
    using mem_zero_same [of ?s 0] by (auto simp: same_heap_def)
  then show thesis using that by (simp add: mem_init_def Let_def set_index_def)
qed

lemma setup_ok:
  assumes "0 < uint (HEAP_START_ADDR s)" and "HEAP_START_ADDR s \<le> HEAP_END_ADDR s"
    and "heap_blocks s < 2147483648" and "l = index_blocks (heap_blocks s)" and "l + 163 < heap_blocks s"
  obtains t where "main_setup s = Inr t" and "mem_rep t [l, 16, 16, - (heap_blocks s - l - 32)]"
    and "same_platform s t" and "csr_sstatus t = csr_sstatus s AND NOT 0x2" and "csr_stvec t = irq_wrap_addr s"
    and "console_receive_cnt t = 0" and "console_send_cnt t = 0" and "threads_waiting_for_input t = 0"
    and "uint (n_mem_blocks t) = heap_blocks s" and "cell t (heap_blocks s) = cell s (heap_blocks s)"
proof -
  define s1 where "s1 = s\<lparr>csr_sstatus := csr_sstatus s AND NOT 0x2, csr_stvec := irq_wrap_addr s\<rparr>"
  have hb: "heap_blocks s1 = heap_blocks s" "HEAP_START_ADDR s1 = HEAP_START_ADDR s" "HEAP_END_ADDR s1 = HEAP_END_ADDR s"
    by (simp_all add: heap_blocks_def s1_def)
  have "0 \<le> index_blocks (heap_blocks s)" if "2 \<le> heap_blocks s" using that by (simp add: index_blocks_def)
  moreover have "2 \<le> heap_blocks s"
  proof (rule ccontr)
    assume "\<not> 2 \<le> heap_blocks s"
    moreover have "0 \<le> heap_blocks s"
      using assms(2) by (simp add: heap_blocks_def word_le_def)
    ultimately have "0 \<le> l" using assms(4) by (simp add: index_blocks_def)
    then show False using assms(5) \<open>\<not> 2 \<le> heap_blocks s\<close> by simp
  qed
  ultimately have l: "2 \<le> heap_blocks s" "0 < l" using assms(4) by (simp_all add: index_blocks_def)
  have big: "heap_blocks s < 18446744073709551616" using assms(3) by simp
  define u where "u = mem_init s1"
  have u: "mem_rep u ([l] @ [- (heap_blocks s - l)])"
    using mem_init_layout(1) [of s1] assms l by (simp add: u_def hb)
  have ub: "uint (n_mem_blocks u) = heap_blocks s" "cell u (heap_blocks s) = cell s (heap_blocks s)"
    using mem_init_layout(2,3) [of s1] assms l big by (simp_all add: u_def hb) (simp_all add: cell_def s1_def)
  obtain t1 where t1: "mem_alloc 16 u = Inr (block_addr u l, t1)" "mem_rep t1 ([l, 16] @ [- (heap_blocks s - l - 16)])"
    "same_heap u t1" "cell t1 (uint (n_mem_blocks u)) = cell u (uint (n_mem_blocks u))"
    using alloc_bump [OF u, of 16] l assms(5) by auto
  let ?t1 = "t1\<lparr>console_receive_buffer_ptr := block_addr u l\<rparr>"
  have r1: "mem_rep ?t1 ([l, 16] @ [- (heap_blocks s - l - 16)])"
    using t1(2) mem_rep_cong [of ?t1 t1] by (simp add: mem_state.truncate_def)
  obtain t2 where t2: "mem_alloc 16 ?t1 = Inr (block_addr ?t1 (l + 16), t2)"
    "mem_rep t2 [l, 16, 16, - (heap_blocks s - l - 32)]" "same_heap ?t1 t2"
    "cell t2 (uint (n_mem_blocks ?t1)) = cell ?t1 (uint (n_mem_blocks ?t1))"
    using alloc_bump [OF r1, of 16] l assms(5) by auto
  let ?t = "t2\<lparr>console_send_buffer_ptr := block_addr ?t1 (l + 16), console_receive_cnt := 0,
    console_send_cnt := 0, threads_waiting_for_input := 0\<rparr>"
  have e: "main_setup s = Inr ?t"
    using t1(1) t2(1) by (simp add: main_setup_def console_init_def Let_def u_def s1_def)
  obtain ix nb il where "u = s1\<lparr>n_mem_blocks := nb, mem_index_len_in_blocks := il, mem_index := ix\<rparr>"
    unfolding u_def by (rule mem_init_form)
  with t1(3) t2(3) obtain b ix' where f: "t2 = s1\<lparr>n_mem_blocks := nb, mem_index_len_in_blocks := il,
      console_receive_buffer_ptr := b, mem_index := ix'\<rparr>"
    unfolding same_heap_def by auto
  have n: "n_mem_blocks t1 = n_mem_blocks u" "n_mem_blocks t2 = n_mem_blocks u"
    using t1(3) t2(3) by (auto simp: same_heap_def)
  have "cell t2 (heap_blocks s) = cell t1 (heap_blocks s)" using t2(4) n ub(1) by (simp add: cell_def)
  with t1(4) ub have c: "cell t2 (heap_blocks s) = cell s (heap_blocks s)" by simp
  show thesis
  proof (rule that [OF e])
    show "cell ?t (heap_blocks s) = cell s (heap_blocks s)" using c by (simp add: cell_def)
    show "uint (n_mem_blocks ?t) = heap_blocks s" using n ub(1) by simp
    show "mem_rep ?t [l, 16, 16, - (heap_blocks s - l - 32)]"
      using t2(2) mem_rep_cong [of ?t t2] by (simp add: mem_state.truncate_def)
  qed (simp_all add: f s1_def same_platform_def)
qed

lemma kernel_thread_ok:
  assumes r: "mem_rep s (us @ [- m])" and us: "\<forall>r \<in> set us. 0 < r" and m: "2 < m"
  obtains t where "main_kernel_thread s = Inr t" and "mem_rep t (us @ [1, 1, - (m - 2)])" and "same_platform s t"
    and "kernel_main t = block_addr s (extent us)"
    and "sched t = \<lparr>user_thread_count = 0, ready_threads = 0, sleeping_threads = 0,
      thread_current = kernel_main t, sch_kernel_main = kernel_main t\<rparr>"
    and "thr_time_left (threads t (kernel_main t)) = 1"
    and "csr_stvec t = csr_stvec s" and "csr_sstatus t = csr_sstatus s" and "boot_frame s t"
proof -
  let ?p = "block_addr s (extent us)"
  obtain t1 where t1: "mem_alloc 1 s = Inr (?p, t1)" "mem_rep t1 (us @ [1, - (m - 1)])" "same_heap s t1"
    "boot_frame s t1"
    using boot_alloc [OF r us, of 1] m by auto
  have nz: "?p \<noteq> 0" using rep_addr(2) [OF r extent_nonneg] m by simp
  define t2 where "t2 = upd_thread ?p (\<lambda>c. c\<lparr>thr_time_left := 1\<rparr>)
      (upd_thread ?p (\<lambda>c. c\<lparr>thr_bp := 0\<rparr>) (t1\<lparr>kernel_main := ?p\<rparr>))"
  have r2: "mem_rep t2 ((us @ [1]) @ [- (m - 1)])"
    using t1(2) mem_rep_cong [of t2 t1] by (simp add: t2_def mem_state.truncate_def upd_thread_def)
  obtain t3 where t3: "mem_alloc 1 t2 = Inr (block_addr t2 (extent us + 1), t3)"
    "mem_rep t3 (us @ [1, 1, - (m - 2)])" "same_heap t2 t3" "boot_frame t2 t3"
    using boot_alloc [OF r2, of 1] m us by auto
  have "block_addr t2 (extent us + 1) \<noteq> 0" using rep_addr(2) [OF r2, of "extent us + 1"] m extent_nonneg [of us] by simp
  with t1(1) t3(1) nz obtain t where t: "main_kernel_thread s = Inr t"
    "t = upd_sched (\<lambda>c. c\<lparr>user_thread_count := 0, ready_threads := 0, sleeping_threads := 0,
        sch_kernel_main := ?p, thread_current := ?p\<rparr>) (t3\<lparr>scheduler := block_addr t2 (extent us + 1)\<rparr>)"
    by (simp add: main_kernel_thread_def scheduler_init_def Let_def t2_def [symmetric])
  have "boot_frame t1 t2" "boot_frame t3 t"
    by (auto intro!: boot_frame_upd simp: t2_def t(2) mem_state.truncate_def upd_defs)
  then have bf: "boot_frame s t" using t1(4) t3(4) boot_frame_trans by blast
  have f: "kernel_main t3 = ?p" "thr_time_left (threads t3 ?p) = 1" "same_platform s t3"
    "csr_stvec t3 = csr_stvec s" "csr_sstatus t3 = csr_sstatus s"
    using t1(3) t3(3) by (auto simp: same_heap_def t2_def upd_thread_def same_platform_def)
  show thesis
  proof (rule that [OF t(1)])
    show "mem_rep t (us @ [1, 1, - (m - 2)])"
      using t3(2) mem_rep_cong [of t t3] by (simp add: t(2) mem_state.truncate_def upd_sched_def)
    show "sched t = \<lparr>user_thread_count = 0, ready_threads = 0, sleeping_threads = 0,
      thread_current = kernel_main t, sch_kernel_main = kernel_main t\<rparr>"
      by (cases "sched t3") (simp add: t(2) upd_sched_def f)
    show "boot_frame s t" by (rule bf)
  qed (use f in \<open>simp_all add: t(2) upd_sched_def same_platform_def\<close>)
qed

lemma user_thread_ok:
  assumes r: "mem_rep s (us @ [- m])" and us: "\<forall>r \<in> set us. 0 < r" and m: "129 < m"
    and q: "ready_threads (sched s) = 0" and b: "b = block_addr s (extent us + 64)"
    and u: "u = block_addr s (extent us + 128)"
  obtains t where "main_user_thread s = Inr t" and "mem_rep t (us @ [64, 64, 1, - (m - 129)])"
    and "same_platform s t" and "ready_queue t [u]" and "words t (user_main_addr s) = u"
    and "thr_sp (threads t u) = b + 4088 - 0x100" and "thr_bp (threads t u) = b"
    and "thr_sepc (threads t u) = thread_wrapper_addr s" and "thr_time_left (threads t u) = 2"
    and "thr_sstatus (threads t u) = csr_sstatus s AND NOT (push_bit 8 1)"
    and "x_sp (contexts t (b + 4088 - 0x100)) = b + 4088 - 0x100"
    and "x_a0 (contexts t (b + 4088 - 0x100)) = userMain_addr s"
    and "\<And>x. x \<noteq> u \<Longrightarrow> threads t x = threads s x" and "kernel_main t = kernel_main s"
    and "thread_current (sched t) = thread_current (sched s)" and "sch_kernel_main (sched t) = sch_kernel_main (sched s)"
    and "sleeping_threads (sched t) = sleeping_threads (sched s)"
    and "user_thread_count (sched t) = user_thread_count (sched s) + 1" and "csr_stvec t = csr_stvec s"
    and "system_stack t = block_addr s (extent us) + 4088" and "boot_frame s t"
proof -
  let ?p = "block_addr s (extent us)"
  have e: "0 \<le> extent us" by (rule extent_nonneg)
  obtain t1 where t1: "mem_alloc 64 s = Inr (?p, t1)" "mem_rep t1 (us @ [64, - (m - 64)])" "same_heap s t1"
    "boot_frame s t1"
    using boot_alloc [OF r us, of 64] m by auto
  define t2 where "t2 = t1\<lparr>system_stack := ?p\<rparr>"
  have r2: "mem_rep t2 ((us @ [64]) @ [- (m - 64)])"
    using t1(2) mem_rep_cong [of t2 t1] by (simp add: t2_def mem_state.truncate_def)
  have pl: "same_platform s t2" "sched t2 = sched s" "threads t2 = threads s" "kernel_main t2 = kernel_main s"
    "csr_stvec t2 = csr_stvec s" "csr_sstatus t2 = csr_sstatus s" "system_stack t2 = ?p"
    using t1(3) by (auto simp: same_heap_def t2_def same_platform_def)
  obtain t3 where t3: "mem_alloc 64 t2 = Inr (b, t3)" "mem_rep t3 (us @ [64, 64, - (m - 128)])" "same_heap t2 t3"
    "boot_frame t2 t3"
    using boot_alloc [OF r2, of 64] m us by (auto simp: b same_platform_addr [OF pl(1)])
  define t4 where "t4 = t3\<lparr>system_stack := ?p + 4088\<rparr>"
  have r4: "mem_rep t4 ((us @ [64, 64]) @ [- (m - 128)])"
    using t3(2) mem_rep_cong [of t4 t3] by (simp add: t4_def mem_state.truncate_def)
  have pl4: "same_platform s t4" "sched t4 = sched s" "threads t4 = threads s" "kernel_main t4 = kernel_main s"
    "csr_stvec t4 = csr_stvec s" "csr_sstatus t4 = csr_sstatus s" "system_stack t4 = ?p + 4088"
    using t3(3) pl by (auto simp: same_heap_def t4_def same_platform_def)
  obtain t5 where t5: "mem_alloc 1 t4 = Inr (u, t5)" "mem_rep t5 (us @ [64, 64, 1, - (m - 129)])"
    "boot_frame t4 t5"
    using boot_alloc [OF r4, of 1] m us by (auto simp: u same_platform_addr [OF pl4(1)])
  have nz: "?p \<noteq> 0" "b \<noteq> 0" "u \<noteq> 0" "thread_node u \<noteq> 0"
    using rep_addr(2) [OF r e] rep_addr(2,3) [OF r, of "extent us + 64"] rep_addr(2,3) [OF r, of "extent us + 128"] m e
    by (simp_all add: b u)
  have q4: "ready_queue t4 []" using q pl4(2) by (simp add: ready_queue_def thread_queue_at_def)
  obtain t where t: "thread_create (user_main_addr s) (userMain_addr s) 0 (b + 4088) EXEC_MODE_USER t4 = Inr (0, t)"
    "threads t = (threads t4)(u := \<lparr>thr_sp = b + 4088 - 0x100, thr_bp = b + 4088 - 4096 + 8,
      thr_sstatus = start_sstatus EXEC_MODE_USER (csr_sstatus t4), thr_sepc = thread_wrapper_addr t4, thr_time_left = 2\<rparr>)"
    "contexts t = (contexts t4)(b + 4088 - 0x100 := (contexts t4 (b + 4088 - 0x100))\<lparr>x_sp := b + 4088 - 0x100,
      x_a0 := userMain_addr s, x_a1 := 0, x_gp := reg_gp t4, x_tp := reg_tp t4\<rparr>)"
    "words t = (words t4)(user_main_addr s := u)" "ready_queue t ([] @ [u])"
    "mem_state.truncate t = mem_state.truncate t5"
    "user_thread_count (sched t) = user_thread_count (sched t4) + (if EXEC_MODE_USER = EXEC_MODE_USER then 1 else 0)"
    "thread_create_frame t4 t"
    by (rule thread_create_result [OF t5(1) nz(3) q4 _ nz(4), where handle = "user_main_addr s"
          and start_f = "userMain_addr s" and arg = 0 and stack = "b + 4088" and mode = EXEC_MODE_USER]) auto
  note tf = t(8) [unfolded thread_create_frame_def]
  have "boot_frame t1 t2" "boot_frame t3 t4"
    by (auto intro!: boot_frame_upd simp: t2_def t4_def mem_state.truncate_def)
  then have "boot_frame s t4" using t1(4) t3(4) boot_frame_trans by blast
  moreover have "boot_frame t4 t"
    using t5(3) t(6) tf by (simp add: boot_frame_def cell_def mem_state.truncate_def)
  ultimately have bf: "boot_frame s t" by (rule boot_frame_trans)
  have "user_main_addr t4 = user_main_addr s" "userMain_addr t4 = userMain_addr s"
    using pl4(1) by (simp_all add: same_platform_def)
  moreover have "t3\<lparr>system_stack := system_stack t3 + 4088\<rparr> = t4"
    using t3(3) pl(7) by (auto simp: t4_def same_heap_def)
  moreover have "size_in_blocks 4096 = 64" by (simp add: size_in_blocks_def)
  moreover have "system_stack t3 = ?p" using t3(3) pl(7) by (auto simp: same_heap_def)
  ultimately have m: "main_user_thread s = Inr t"
    using t1(1) t3(1) nz t(1) by (simp add: main_user_thread_def Let_def t2_def [symmetric])
  show thesis
  proof (rule that [OF m])
    show "mem_rep t (us @ [64, 64, 1, - (m - 129)])" using t5(2) mem_rep_cong [OF t(6)] by simp
    show "same_platform s t" using pl4(1) tf by (simp add: same_platform_def)
    show "boot_frame s t" by (rule bf)
  qed (use t pl4 tf in \<open>simp_all add: start_sstatus_def same_platform_def\<close>)
qed

lemma main_round_idle: "scheduler_user_thread_count s \<noteq> 0 \<Longrightarrow> main_round s = (True, s)"
  by (simp add: main_round_def)

text \<open>The heap of \<open>duo\<close>, with the kernel's own thread alone.\<close>

definition solo :: kernel where
  "solo = duo\<lparr>sched := \<lparr>user_thread_count = 0, ready_threads = 0, sleeping_threads = 0,
     thread_current = 5248, sch_kernel_main = 5248\<rparr>\<rparr>"

lemma solo_refines: "refines (start_os 5248 5248 [] {} (\<lambda>_. 0) {}) solo"
proof (rule start_refines)
  have "mem_state.truncate solo = mem_state.truncate duo" by (simp add: solo_def mem_state.truncate_def)
  from owns_cong [OF this] duo_owns show "owns solo {(4096, 16), (5120, 1), (5184, 1), (5248, 1), (5312, 1)}" by simp
qed (simp_all add: solo_def duo_def blank_kernel_def scheduler_current_def ready_queue_def thread_queue_at_def)

section \<open>Properties\<close>

text \<open>C19. The kernel starts the user program: on every platform whose heap has room for the 163 blocks that
  the start takes beside the index, \<open>main\<close> reaches its first trap without a panic, the allocator then
  holds exactly the index and the seven structures, and the trap leaves the processor in the thread
  wrapper, in user mode, on the user stack, with the address of the user program as argument.\<close>

theorem boot_runs_user_main:
  assumes "0 < uint (HEAP_START_ADDR s)" and "HEAP_START_ADDR s \<le> HEAP_END_ADDR s"
    and "heap_blocks s < 2147483648" and "l = index_blocks (heap_blocks s)" and "l + 163 < heap_blocks s"
    and "x_a0 regs = SYSCALL_KERNEL_DISPATCH" and "b = block_addr s (l + 98)" and "x_sp regs \<noteq> b + 4088"
  shows "\<exists>t regs' u. boot s = Inr t
    \<and> mem_rep t [l, 16, 16, 1, 1, 64, 64, 1, - (heap_blocks s - l - 163)]
    \<and> user_thread_count (sched t) = 1 \<and> csr_stvec t = irq_wrap_addr s
    \<and> irq_wrap regs (t\<lparr>csr_scause := IRQ_ECALL_KERNEL\<rparr>) = Inr (regs', u)
    \<and> scheduler_current u = words t (user_main_addr s) \<and> ready_queue u []
    \<and> csr_sepc u = thread_wrapper_addr s \<and> csr_sstatus u = (csr_sstatus s AND NOT 0x2) AND NOT (push_bit 8 1)
    \<and> x_a0 regs' = userMain_addr s \<and> x_sp regs' = b + 4088"
proof -
  obtain t1 where t1: "main_setup s = Inr t1" "mem_rep t1 [l, 16, 16, - (heap_blocks s - l - 32)]"
    "same_platform s t1" "csr_sstatus t1 = csr_sstatus s AND NOT 0x2" "csr_stvec t1 = irq_wrap_addr s"
    by (rule setup_ok [OF assms(1-5)])
  have pos: "0 < l" "0 \<le> heap_blocks s"
    using assms(2,4,5) by (simp_all add: index_blocks_def heap_blocks_def word_le_def)
  have r1: "mem_rep t1 ([l, 16, 16] @ [- (heap_blocks s - l - 32)])" using t1(2) by simp
  obtain t2 where t2: "main_kernel_thread t1 = Inr t2"
    "mem_rep t2 [l, 16, 16, 1, 1, - (heap_blocks s - l - 34)]" "same_platform t1 t2"
    "kernel_main t2 = block_addr t1 (l + 32)"
    "sched t2 = \<lparr>user_thread_count = 0, ready_threads = 0, sleeping_threads = 0,
      thread_current = kernel_main t2, sch_kernel_main = kernel_main t2\<rparr>"
    "csr_stvec t2 = csr_stvec t1" "csr_sstatus t2 = csr_sstatus t1"
    using kernel_thread_ok [OF r1] pos assms(5) by auto
  have p2: "same_platform s t2" using t1(3) t2(3) by (simp add: same_platform_def)
  have r2: "mem_rep t2 ([l, 16, 16, 1, 1] @ [- (heap_blocks s - l - 34)])" using t2(2) by simp
  define w where "w = block_addr s (l + 162)"
  have bw: "b = block_addr t2 (extent [l, 16, 16, 1, 1] + 64)" "w = block_addr t2 (extent [l, 16, 16, 1, 1] + 128)"
    using pos by (simp_all add: assms(7) w_def same_platform_addr [OF p2] add.commute)
  obtain t where t: "main_user_thread t2 = Inr t"
    "mem_rep t [l, 16, 16, 1, 1, 64, 64, 1, - (heap_blocks s - l - 163)]" "same_platform t2 t"
    "ready_queue t [w]" "words t (user_main_addr t2) = w"
    "thr_sp (threads t w) = b + 4088 - 0x100" "thr_sepc (threads t w) = thread_wrapper_addr t2"
    "thr_sstatus (threads t w) = csr_sstatus t2 AND NOT (push_bit 8 1)"
    "x_sp (contexts t (b + 4088 - 0x100)) = b + 4088 - 0x100"
    "x_a0 (contexts t (b + 4088 - 0x100)) = userMain_addr t2"
    "thread_current (sched t) = thread_current (sched t2)"
    "user_thread_count (sched t) = user_thread_count (sched t2) + 1" "csr_stvec t = csr_stvec t2"
    using user_thread_ok [OF r2 _ _ _ bw] pos assms(5) t2(5) by auto
  have c: "scheduler_current t = kernel_main t2" using t(11) t2(5) by (simp add: scheduler_current_def)
  have "kernel_main t2 = block_addr s (l + 32)" using t2(4) by (simp add: same_platform_addr [OF t1(3)])
  moreover have "uint (block_addr t2 (l + 32)) = uint (HEAP_START_ADDR t2) + 64 * (l + 32)"
    "uint (block_addr t2 (l + 162)) = uint (HEAP_START_ADDR t2) + 64 * (l + 162)"
    using rep_addr(1) [OF r2] pos assms(5) by simp_all
  ultimately have ne: "kernel_main t2 \<noteq> w" by (auto simp: w_def same_platform_addr [OF p2])
  define e where "e = (trap_save regs (t\<lparr>csr_scause := IRQ_ECALL_KERNEL\<rparr>))\<lparr>csr_sepc := csr_sepc t + 4\<rparr>"
  let ?v = "kernel_dispatch e"
  have h: "irq_wrap regs (t\<lparr>csr_scause := IRQ_ECALL_KERNEL\<rparr>) = Inr (trap_restore ?v)"
    using assms(6) by (simp add: irq_wrap_def irq_handler_def irq_ecall_kernel_def Let_def e_def)
  have es: "list_nodes e = list_nodes t" "sched e = sched t" "threads e = threads t"
    "p \<noteq> x_sp regs - 0x100 \<Longrightarrow> contexts e p = contexts t p" for p
    by (simp_all add: e_def trap_save_contexts)
  have q: "ready_queue e [w]" using t(4) by (simp add: ready_queue_def es)
  note nx = ready_next [OF q]
  have ce: "scheduler_current e = kernel_main t2" using c by (simp add: scheduler_current_def es)
  let ?y = "yield (kernel_main t2) w (snd (scheduler_next e))"
  have v: "?v = ?y\<lparr>csr_sscratch := thr_sp (threads ?y w)\<rparr>"
    by (simp add: kernel_dispatch_def Let_def split_beta ce nx(1))
  have "running ?y = saved w (snd (scheduler_next e))" by (rule yield_switch(1) [OF ne])
  also have "\<dots> = saved w t" by (simp add: saved_def es)
  finally have "running ?y = saved w t" .
  moreover have "threads ?y w = threads t w" using yield_threads [OF ne] ne by (simp add: es)
  ultimately have rv: "running ?v = saved w t" by (simp add: v running_def saved_def)
  have "b + 4088 - 0x100 \<noteq> x_sp regs - 0x100" using assms(8) by (metis diff_add_cancel)
  from es(4) [OF this] have cv: "contexts ?v (b + 4088 - 0x100) = contexts t (b + 4088 - 0x100)"
    by (simp add: v)
  have "ready_queue ?v []" using nx(2) by (simp add: v ready_queue_def)
  moreover have "scheduler_current ?v = w"
    using scheduler_next_current [of e] nx(1) by (simp add: v scheduler_current_def)
  moreover have "csr_sscratch ?v = b + 4088 - 0x100" "csr_sepc ?v = thread_wrapper_addr s"
    "csr_sstatus ?v = (csr_sstatus s AND NOT 0x2) AND NOT (push_bit 8 1)"
    using rv t(6,7,8) p2 t2(7) t1(4) by (simp_all add: running_def saved_def same_platform_def)
  moreover have "boot s = Inr t" using t1(1) t2(1) t(1) by (simp add: boot_def)
  moreover have "words t (user_main_addr s) = w" "userMain_addr t2 = userMain_addr s"
    using t(5) p2 by (simp_all add: same_platform_def)
  moreover have "user_thread_count (sched t) = 1" "csr_stvec t = irq_wrap_addr s"
    using t(12,13) t2(5,6) t1(5) by simp_all
  ultimately show ?thesis
    using t(2,9,10) h cv
    by (intro exI [of _ t] exI [of _ "fst (trap_restore ?v)"] exI [of _ "snd (trap_restore ?v)"])
       (simp add: trap_restore_def Let_def scheduler_current_def ready_queue_def)
qed

theorem boot_runs_user_main_witness:
  "\<exists>t regs' u. boot blank_kernel = Inr t
    \<and> irq_wrap (sample_regs\<lparr>x_a0 := SYSCALL_KERNEL_DISPATCH\<rparr>) (t\<lparr>csr_scause := IRQ_ECALL_KERNEL\<rparr>) = Inr (regs', u)
    \<and> csr_sepc u = 0x100 \<and> x_a0 regs' = 0x300 \<and> x_sp regs' = 0x3C78"
proof -
  let ?r = "sample_regs\<lparr>x_a0 := SYSCALL_KERNEL_DISPATCH\<rparr>"
  have p: "HEAP_START_ADDR blank_kernel = 4096" "HEAP_END_ADDR blank_kernel = 20480" "heap_blocks blank_kernel = 256"
    "thread_wrapper_addr blank_kernel = 0x100" "userMain_addr blank_kernel = 0x300"
    by (simp_all add: blank_kernel_def heap_blocks_def)
  have l: "16 = index_blocks (heap_blocks blank_kernel)" by (simp add: p index_blocks_def)
  have b: "11392 = block_addr blank_kernel (16 + 98)" by (simp add: block_addr_def p)
  from boot_runs_user_main [OF _ _ _ l _ _ b, of ?r] obtain t regs' u where
    "boot blank_kernel = Inr t" "irq_wrap ?r (t\<lparr>csr_scause := IRQ_ECALL_KERNEL\<rparr>) = Inr (regs', u)"
    "csr_sepc u = 0x100" "x_a0 regs' = 0x300" "x_sp regs' = 0x3C78"
    by (auto simp: p sample_regs_def)
  then show ?thesis by blast
qed

text \<open>C2. The start of the kernel establishes the refinement: when the heap has room for what \<open>main\<close> allocates,
  its first trap finds the kernel in the abstract state in which the kernel's own thread runs, the
  thread of the user program is the only other one and ready, its stack is the only user memory and no semaphore is
  open; so every run of the machine after the start refines the abstract operating system. The word behind the
  index of the heap, which the allocator reads at the end of the heap, is not negative.\<close>

theorem boot_refines:
  assumes "0 < uint (HEAP_START_ADDR s)" and "HEAP_START_ADDR s \<le> HEAP_END_ADDR s"
    and "heap_blocks s < 2147483648" and "l = index_blocks (heap_blocks s)" and "l + 163 < heap_blocks s"
    and "0 \<le> cell s (heap_blocks s)"
    and "a = start_os (block_addr s (l + 32)) (block_addr s (l + 32)) [block_addr s (l + 162)] {} n {block_addr s (l + 98)}"
  shows "\<exists>t. boot s = Inr t \<and> refines a t
    \<and> (\<forall>es u. runs kernel_step t es u \<and> keeps_to allowed spec es a \<longrightarrow> refines (fold spec es a) u)"
proof -
  obtain t1 where t1: "main_setup s = Inr t1" "mem_rep t1 [l, 16, 16, - (heap_blocks s - l - 32)]"
    "same_platform s t1" "console_receive_cnt t1 = 0" "threads_waiting_for_input t1 = 0"
    "uint (n_mem_blocks t1) = heap_blocks s" "cell t1 (heap_blocks s) = cell s (heap_blocks s)"
    by (rule setup_ok [OF assms(1-5)])
  have pos: "0 < l" "0 \<le> heap_blocks s"
    using assms(2,4,5) by (simp_all add: index_blocks_def heap_blocks_def word_le_def)
  have r1: "mem_rep t1 ([l, 16, 16] @ [- (heap_blocks s - l - 32)])" using t1(2) by simp
  obtain t2 where t2: "main_kernel_thread t1 = Inr t2"
    "mem_rep t2 [l, 16, 16, 1, 1, - (heap_blocks s - l - 34)]" "same_platform t1 t2"
    "kernel_main t2 = block_addr t1 (l + 32)"
    "sched t2 = \<lparr>user_thread_count = 0, ready_threads = 0, sleeping_threads = 0,
      thread_current = kernel_main t2, sch_kernel_main = kernel_main t2\<rparr>"
    "thr_time_left (threads t2 (kernel_main t2)) = 1" "boot_frame t1 t2"
    using kernel_thread_ok [OF r1] pos assms(5) by auto
  have p2: "same_platform s t2" using t1(3) t2(3) by (simp add: same_platform_def)
  have r2: "mem_rep t2 ([l, 16, 16, 1, 1] @ [- (heap_blocks s - l - 34)])" using t2(2) by simp
  define k w b where "k = block_addr s (l + 32)" and "w = block_addr s (l + 162)" and "b = block_addr s (l + 98)"
  have bw: "b = block_addr t2 (extent [l, 16, 16, 1, 1] + 64)" "w = block_addr t2 (extent [l, 16, 16, 1, 1] + 128)"
    using pos by (simp_all add: b_def w_def same_platform_addr [OF p2] add.commute)
  obtain t where t: "main_user_thread t2 = Inr t"
    "mem_rep t [l, 16, 16, 1, 1, 64, 64, 1, - (heap_blocks s - l - 163)]" "same_platform t2 t"
    "ready_queue t [w]" "thr_time_left (threads t w) = 2" "\<And>x. x \<noteq> w \<Longrightarrow> threads t x = threads t2 x"
    "thread_current (sched t) = thread_current (sched t2)" "sch_kernel_main (sched t) = sch_kernel_main (sched t2)"
    "sleeping_threads (sched t) = sleeping_threads (sched t2)"
    "user_thread_count (sched t) = user_thread_count (sched t2) + 1" "boot_frame t2 t"
    by (rule user_thread_ok [OF r2 _ _ _ bw]) (use pos assms(5) t2(5) in auto)
  have p: "same_platform s t" using p2 t(3) by (simp add: same_platform_def)
  have km: "kernel_main t2 = k" using t2(4) by (simp add: k_def same_platform_addr [OF t1(3)])
  have ba: "uint (block_addr s j) = uint (HEAP_START_ADDR s) + 64 * j" if "0 \<le> j" "j < heap_blocks s" for j
  proof -
    have "j < extent [l, 16, 16, 1, 1, 64, 64, 1, - (heap_blocks s - l - 163)]" using that pos assms(5) by simp
    from rep_addr(1) [OF t(2) that(1) this] show ?thesis
      using p by (simp add: same_platform_addr [OF p] same_platform_def)
  qed
  have ne: "k \<noteq> w" "k \<noteq> b" "w \<noteq> b"
    using ba [of "l + 32"] ba [of "l + 98"] ba [of "l + 162"] pos assms(5) by (auto simp: k_def w_def b_def)
  have bf: "boot_frame t1 t" using t2(7) t(11) by (rule boot_frame_trans)
  let ?L = "(\<lambda>(j, m). (block_addr t j, m)) ` live_at 0 [l, 16, 16, 1, 1, 64, 64, 1, - (heap_blocks s - l - 163)]"
  have o: "owns t ?L"
    unfolding owns_def using t(2) bf t1(6,7) assms(6)
    by (intro exI [of _ "[l, 16, 16, 1, 1, 64, 64, 1, - (heap_blocks s - l - 163)]"]) (simp add: boot_frame_def)
  have L: "(k, 1) \<in> ?L" "(w, 1) \<in> ?L" "(b, 64) \<in> ?L"
    using pos assms(5) by (simp_all add: k_def w_def b_def same_platform_addr [OF p] add.commute)
  have "refines (start_os k k [w] {} n {b}) t"
  proof (rule start_refines [OF t(4) _ _ _ _ _ _ _ _ _ _ o])
    show "{b} \<subseteq> fst ` ?L" using L(3) by force
    show "\<forall>x \<in> insert k (set [k, w]) \<union> {}. (x, 1) \<in> ?L" using L by simp
  qed (use t2(5,6) t(5-10) t1(4,5) bf km ne in \<open>simp_all add: scheduler_current_def boot_frame_def\<close>)
  then have "refines a t" by (simp add: assms(7) k_def w_def b_def)
  moreover have "boot s = Inr t" using t1(1) t2(1) t(1) by (simp add: boot_def)
  ultimately show ?thesis using kernel_run(1) by blast
qed

theorem boot_refines_witness:
  "\<exists>t u. boot blank_kernel = Inr t \<and> runs kernel_step t [Run, Dispatch] u \<and> scheduler_current u = 15488"
proof -
  let ?n = "\<lambda>_. 0" and ?s = "blank_kernel"
  have p: "HEAP_START_ADDR ?s = 4096" "HEAP_END_ADDR ?s = 20480" "heap_blocks ?s = 256" "cell ?s 256 = 0"
    by (simp_all add: blank_kernel_def heap_blocks_def cell_def)
  have l: "16 = index_blocks (heap_blocks ?s)" by (simp add: p index_blocks_def)
  define a where "a = start_os (block_addr ?s (16 + 32)) (block_addr ?s (16 + 32)) [block_addr ?s (16 + 162)] {} ?n
    {block_addr ?s (16 + 98)}"
  obtain t where t: "boot ?s = Inr t" "refines a t"
    "\<forall>es u. runs kernel_step t es u \<and> keeps_to allowed spec es a \<longrightarrow> refines (fold spec es a) u"
    using boot_refines [OF _ _ _ l _ _ a_def] by (auto simp: p)
  have al: "allowed Dispatch a" by simp
  obtain u where u: "runs kernel_step t [Run, Dispatch] u"
    by (rule calls_run [OF t(2) al _ call_requests(3)]) simp
  have "keeps_to allowed spec [Run, Dispatch] a" by simp
  with u t(3) have "refines (fold spec [Run, Dispatch] a) u" by blast
  from refines_view(1) [OF this] have "scheduler_current u = 15488"
    by (simp add: a_def hand_over_def run_next_def start_os_def block_addr_def p)
  with t(1) u show ?thesis by blast
qed

text \<open>C10. The kernel stops exactly when the last user thread has left: in every reachable state the loop of \<open>main\<close>
  goes on, and changes nothing but opening the window for interrupts, while threads exist, and writes
  the stop code to the platform when there is none.\<close>

theorem kernel_stops_after_last_exit:
  assumes "refines a s" and "runs kernel_step s es t" and "keeps_to allowed spec es a"
  shows "main_round t = (if o_threads (fold spec es a) = {} then (False, stop t) else (True, t))"
proof -
  let ?b = "fold spec es a"
  have r: "refines ?b t" by (rule kernel_run(1) [OF assms(2,1,3)])
  note v = refines_view(6,7) [OF r]
  have "card (o_threads ?b) = 0 \<longleftrightarrow> o_threads ?b = {}" using os_okD(9) [OF refines_ok [OF r]] by simp
  moreover have "user_thread_count (sched t) = 0 \<longleftrightarrow> card (o_threads ?b) = 0"
    using v by (auto simp: word_of_nat_eq_0_iff dest: dvd_imp_le)
  ultimately show ?thesis
    by (simp add: main_round_def scheduler_user_thread_count_def)
qed

theorem kernel_stops_after_last_exit_witness:
  "main_round duo = (True, duo) \<and> main_round solo = (False, stop solo)"
  using kernel_stops_after_last_exit [OF duo_refines, of "[]" duo]
    kernel_stops_after_last_exit [OF solo_refines, of "[]" solo] by simp

end
