(* ===== verification/Syscall.thy ===== *)
theory Syscall
  imports Boot
begin

text \<open>
  The user side of the system calls, \<open>src/syscall_c.c\<close>: each function moves its arguments from the registers
  of the C calling convention to those of the kernel, executes \<open>ecall\<close> and takes the result from \<open>a0\<close>.

  A function is modelled on the register file at its entry. The \<open>ecall\<close> is a parameter, what the machine does
  until the thread runs again; \<open>direct_ecall\<close> is its instance for calls after which the same thread goes on.
  The registers that the compiler picks for the C variables are taken to be none of those the code names.
\<close>

section \<open>Definitions\<close>

type_synonym ecall = "context_t \<Rightarrow> kernel \<Rightarrow> (context_t, kernel) res"

definition direct_ecall :: ecall where
  "direct_ecall regs s = irq_wrap regs (s\<lparr>csr_scause := IRQ_ECALL_USER\<rparr>)"

definition usr_putc :: "ecall \<Rightarrow> context_t \<Rightarrow> kernel \<Rightarrow> (context_t, kernel) res" where
  "usr_putc ecall regs s =
     (let a1 = x_a1 regs;
          regs = regs\<lparr>x_a1 := x_a0 regs\<rparr>;
          regs = regs\<lparr>x_a0 := 0x42\<rparr>
      in seqr (ecall regs s) (\<lambda>(regs, s). Inr (regs\<lparr>x_a1 := a1\<rparr>, s)))"

definition usr_getc :: "ecall \<Rightarrow> context_t \<Rightarrow> kernel \<Rightarrow> (u8 \<times> context_t, kernel) res" where
  "usr_getc ecall regs s =
     seqr (ecall (regs\<lparr>x_a0 := 0x41\<rparr>) s) (\<lambda>(regs, s). Inr ((ucast (x_a0 regs), regs), s))"

definition usr_mem_alloc :: "ecall \<Rightarrow> context_t \<Rightarrow> kernel \<Rightarrow> (u64 \<times> context_t, kernel) res" where
  "usr_mem_alloc ecall regs s =
     (let nbytes = x_a0 regs;
          nblocks = (nbytes + MEM_BLOCK_SIZE - 1) div MEM_BLOCK_SIZE;
          a1 = x_a1 regs;
          regs = regs\<lparr>x_a1 := nblocks\<rparr>;
          regs = regs\<lparr>x_a0 := 0x1\<rparr>
      in seqr (ecall regs s) (\<lambda>(regs, s).
         let regs = regs\<lparr>x_a1 := a1\<rparr> in Inr ((x_a0 regs, regs), s)))"

definition usr_mem_free :: "ecall \<Rightarrow> context_t \<Rightarrow> kernel \<Rightarrow> (i32 \<times> context_t, kernel) res" where
  "usr_mem_free ecall regs s =
     (let ptr = x_a0 regs;
          a1 = x_a1 regs;
          regs = regs\<lparr>x_a1 := ptr\<rparr>;
          regs = regs\<lparr>x_a0 := 0x2\<rparr>
      in seqr (ecall regs s) (\<lambda>(regs, s).
         let regs = regs\<lparr>x_a1 := a1\<rparr> in Inr ((u64_to_i32 (x_a0 regs), regs), s)))"

definition usr_thread_create :: "ecall \<Rightarrow> context_t \<Rightarrow> kernel \<Rightarrow> (i32 \<times> context_t, kernel) res" where
  "usr_thread_create ecall regs s =
     (let a1 = x_a1 regs; a2 = x_a2 regs; a3 = x_a3 regs; a4 = x_a4 regs;
          regs = regs\<lparr>x_a4 := x_a2 regs\<rparr>;
          regs = regs\<lparr>x_a3 := x_a1 regs\<rparr>;
          regs = regs\<lparr>x_a2 := x_a0 regs\<rparr>
      in seqr (usr_mem_alloc ecall (regs\<lparr>x_a0 := DEFAULT_STACK_SIZE\<rparr>) s) (\<lambda>((new_stack, regs), s).
         if new_stack = 0 then Inr ((THREAD_CREATE_NO_MEMORY, regs), s)
         else
           (let new_stack = new_stack + (DEFAULT_STACK_SIZE - 8);
                regs = regs\<lparr>x_a1 := x_a2 regs\<rparr>;
                regs = regs\<lparr>x_a2 := x_a3 regs\<rparr>;
                regs = regs\<lparr>x_a3 := x_a4 regs\<rparr>;
                regs = regs\<lparr>x_a4 := new_stack\<rparr>;
                regs = regs\<lparr>x_a0 := 0x11\<rparr>
            in seqr (ecall regs s) (\<lambda>(regs, s).
               let regs = regs\<lparr>x_a1 := a1, x_a2 := a2, x_a3 := a3, x_a4 := a4\<rparr>;
                   result = u64_to_i32 (x_a0 regs)
               in if result \<noteq> 0
                  then seqr (usr_mem_free ecall (regs\<lparr>x_a0 := new_stack - DEFAULT_STACK_SIZE + 8\<rparr>) s)
                         (\<lambda>((_, regs), s). Inr ((result, regs), s))
                  else Inr ((result, regs), s)))))"

definition usr_thread_exit :: "ecall \<Rightarrow> context_t \<Rightarrow> kernel \<Rightarrow> (i32 \<times> context_t, kernel) res" where
  "usr_thread_exit ecall regs s = seqr (ecall (regs\<lparr>x_a0 := 0x12\<rparr>) s) (\<lambda>(regs, s). Inr ((0, regs), s))"

definition usr_thread_dispatch :: "ecall \<Rightarrow> context_t \<Rightarrow> kernel \<Rightarrow> (context_t, kernel) res" where
  "usr_thread_dispatch ecall regs s = ecall (regs\<lparr>x_a0 := 0x13\<rparr>) s"

definition usr_sem_open :: "ecall \<Rightarrow> context_t \<Rightarrow> kernel \<Rightarrow> (i32 \<times> context_t, kernel) res" where
  "usr_sem_open ecall regs s =
     (let a1 = x_a1 regs; a2 = x_a2 regs;
          regs = regs\<lparr>x_a2 := x_a1 regs\<rparr>;
          regs = regs\<lparr>x_a1 := x_a0 regs\<rparr>;
          regs = regs\<lparr>x_a0 := 0x21\<rparr>
      in seqr (ecall regs s) (\<lambda>(regs, s).
         let regs = regs\<lparr>x_a1 := a1, x_a2 := a2\<rparr> in Inr ((u64_to_i32 (x_a0 regs), regs), s)))"

text \<open>The five calls with one argument save and restore \<open>a1\<close> in the same way.\<close>

definition usr_sem_close :: "ecall \<Rightarrow> context_t \<Rightarrow> kernel \<Rightarrow> (i32 \<times> context_t, kernel) res" where
  "usr_sem_close ecall regs s =
     (let a1 = x_a1 regs;
          regs = regs\<lparr>x_a1 := x_a0 regs\<rparr>;
          regs = regs\<lparr>x_a0 := 0x22\<rparr>
      in seqr (ecall regs s) (\<lambda>(regs, s).
         let regs = regs\<lparr>x_a1 := a1\<rparr> in Inr ((u64_to_i32 (x_a0 regs), regs), s)))"

definition usr_sem_wait :: "ecall \<Rightarrow> context_t \<Rightarrow> kernel \<Rightarrow> (i32 \<times> context_t, kernel) res" where
  "usr_sem_wait ecall regs s =
     (let a1 = x_a1 regs;
          regs = regs\<lparr>x_a1 := x_a0 regs\<rparr>;
          regs = regs\<lparr>x_a0 := 0x23\<rparr>
      in seqr (ecall regs s) (\<lambda>(regs, s).
         let regs = regs\<lparr>x_a1 := a1\<rparr> in Inr ((u64_to_i32 (x_a0 regs), regs), s)))"

definition usr_sem_signal :: "ecall \<Rightarrow> context_t \<Rightarrow> kernel \<Rightarrow> (i32 \<times> context_t, kernel) res" where
  "usr_sem_signal ecall regs s =
     (let a1 = x_a1 regs;
          regs = regs\<lparr>x_a1 := x_a0 regs\<rparr>;
          regs = regs\<lparr>x_a0 := 0x24\<rparr>
      in seqr (ecall regs s) (\<lambda>(regs, s).
         let regs = regs\<lparr>x_a1 := a1\<rparr> in Inr ((u64_to_i32 (x_a0 regs), regs), s)))"

definition usr_sem_timed_wait :: "ecall \<Rightarrow> context_t \<Rightarrow> kernel \<Rightarrow> (i32 \<times> context_t, kernel) res" where
  "usr_sem_timed_wait ecall regs s =
     (let a1 = x_a1 regs; a2 = x_a2 regs;
          regs = regs\<lparr>x_a2 := x_a1 regs\<rparr>;
          regs = regs\<lparr>x_a1 := x_a0 regs\<rparr>;
          regs = regs\<lparr>x_a0 := 0x25\<rparr>
      in seqr (ecall regs s) (\<lambda>(regs, s).
         let regs = regs\<lparr>x_a1 := a1, x_a2 := a2\<rparr> in Inr ((u64_to_i32 (x_a0 regs), regs), s)))"

definition usr_sem_trywait :: "ecall \<Rightarrow> context_t \<Rightarrow> kernel \<Rightarrow> (i32 \<times> context_t, kernel) res" where
  "usr_sem_trywait ecall regs s =
     (let a1 = x_a1 regs;
          regs = regs\<lparr>x_a1 := x_a0 regs\<rparr>;
          regs = regs\<lparr>x_a0 := 0x26\<rparr>
      in seqr (ecall regs s) (\<lambda>(regs, s).
         let regs = regs\<lparr>x_a1 := a1\<rparr> in Inr ((u64_to_i32 (x_a0 regs), regs), s)))"

definition usr_time_sleep :: "ecall \<Rightarrow> context_t \<Rightarrow> kernel \<Rightarrow> (i32 \<times> context_t, kernel) res" where
  "usr_time_sleep ecall regs s =
     (let a1 = x_a1 regs;
          regs = regs\<lparr>x_a1 := x_a0 regs\<rparr>;
          regs = regs\<lparr>x_a0 := 0x31\<rparr>
      in seqr (ecall regs s) (\<lambda>(regs, s).
         let regs = regs\<lparr>x_a1 := a1\<rparr> in Inr ((u64_to_i32 (x_a0 regs), regs), s)))"

section \<open>Allocation through a system call\<close>

text \<open>A trap that saves registers does not change the heap.\<close>

lemma mem_rep_entered: "mem_rep (entered regs s) rs = mem_rep s rs"
  by (rule mem_rep_cong) (simp add: mem_state.truncate_def trap_save_def upd_context_def Let_def)

lemma block_addr_entered: "block_addr (entered regs s) j = block_addr s j"
  by (simp add: block_addr_def trap_save_def upd_context_def Let_def)

text \<open>A call that the handler answers in the caller's context returns to the caller with the result in \<open>a0\<close>
  and its other registers as they were.\<close>

lemma direct_ecall_answers:
  assumes h: "irq_handler (trap_save regs (s\<lparr>csr_scause := IRQ_ECALL_USER\<rparr>)) =
      Inr (upd_context (x_sp regs - 0x100) (set_a0 r) v)"
    and p: "csr_sscratch v = x_sp regs - 0x100"
    and c: "contexts v (x_sp regs - 0x100) = regs\<lparr>x_zero := 0, x_sp := x_sp regs - 0x100\<rparr>"
  obtains t where "direct_ecall regs s = Inr (regs\<lparr>x_zero := 0, x_a0 := r\<rparr>, t)"
    and "os_same t v" and "threads t = threads v" and "words t = words v" and "running t = running v"
    and "thread_wrapper_addr t = thread_wrapper_addr v"
    and "contexts t = (contexts v)(x_sp regs - 0x100 := regs\<lparr>x_zero := 0, x_sp := x_sp regs - 0x100, x_a0 := r\<rparr>)"
proof -
  let ?t = "upd_context (x_sp regs - 0x100) (set_a0 r) v"
  have r: "fst (trap_restore ?t) = regs\<lparr>x_zero := 0, x_a0 := r\<rparr>"
    by (rule trap_restore_saved(1)) (simp_all add: p c upd_context_def set_a0_def)
  have "direct_ecall regs s = Inr (regs\<lparr>x_zero := 0, x_a0 := r\<rparr>, snd (trap_restore ?t))"
    using r by (simp only: direct_ecall_def irq_wrap_def h seqr_Inr) (simp add: prod_eq_iff)
  moreover have "os_same (snd (trap_restore ?t)) v" using os_same_trans [OF os_same_trap(1) os_same_context] .
  ultimately show thesis
    by (rule that) (simp_all add: trap_restore_def Let_def upd_context_def running_def c set_a0_def)
qed

text \<open>An allocation.\<close>

lemma direct_ecall_alloc:
  assumes v: "mem_alloc k (entered (regs\<lparr>x_a1 := k, x_a0 := 1\<rparr>) (s\<lparr>csr_scause := IRQ_ECALL_USER\<rparr>)) = Inr (p, v)"
  obtains t where "direct_ecall (regs\<lparr>x_a1 := k, x_a0 := 1\<rparr>) s = Inr (regs\<lparr>x_zero := 0, x_a1 := k, x_a0 := p\<rparr>, t)"
    and "mem_state.truncate t = mem_state.truncate v" and "csr_sepc t = csr_sepc s + 4" and "sched t = sched s"
    and "list_nodes t = list_nodes s" and "threads t = threads s" and "words t = words s"
    and "csr_sstatus t = csr_sstatus s" and "thread_wrapper_addr t = thread_wrapper_addr s"
    and "HEAP_START_ADDR t = HEAP_START_ADDR s"
proof -
  let ?r = "regs\<lparr>x_a1 := k, x_a0 := 1\<rparr>"
  note sv = same_heap_kernel [OF mem_alloc_same [OF v]]
  have "irq_handler (trap_save ?r (s\<lparr>csr_scause := IRQ_ECALL_USER\<rparr>)) = Inr (upd_context (x_sp ?r - 0x100) (set_a0 p) v)"
    using v by (simp add: irq_handler_def irq_ecall_user_def sys_mem_alloc_def Let_def trap_save_contexts)
  then obtain t where t: "direct_ecall ?r s = Inr (?r\<lparr>x_zero := 0, x_a0 := p\<rparr>, t)" "os_same t v" "threads t = threads v"
    "words t = words v" "running t = running v" "thread_wrapper_addr t = thread_wrapper_addr v"
    by (rule direct_ecall_answers) (simp_all add: sv trap_save_contexts)
  have "?r\<lparr>x_zero := 0, x_a0 := p\<rparr> = regs\<lparr>x_zero := 0, x_a1 := k, x_a0 := p\<rparr>" by simp
  moreover have "HEAP_START_ADDR v = HEAP_START_ADDR s"
    using mem_alloc_same [OF v] by (auto simp: same_heap_def trap_save_def upd_context_def Let_def)
  ultimately show thesis using t
    by (intro that [of t])
       (simp_all add: os_same_def sv running_def, simp_all add: trap_save_def upd_context_def Let_def mem_state.truncate_def)
qed

lemma ecall_mem_alloc:
  assumes r: "mem_rep s rs" and k: "0 < uint k" and f: "first_fit (uint k) 0 rs = Some (j, qs)"
  obtains t where "direct_ecall (regs\<lparr>x_a1 := k, x_a0 := 1\<rparr>) s =
      Inr (regs\<lparr>x_zero := 0, x_a1 := k, x_a0 := block_addr s j\<rparr>, t)"
    and "mem_rep t qs" and "csr_sepc t = csr_sepc s + 4" and "sched t = sched s"
    and "list_nodes t = list_nodes s" and "threads t = threads s" and "words t = words s"
    and "csr_sstatus t = csr_sstatus s" and "thread_wrapper_addr t = thread_wrapper_addr s"
    and "HEAP_START_ADDR t = HEAP_START_ADDR s"
proof -
  define e where "e = entered (regs\<lparr>x_a1 := k, x_a0 := 1\<rparr>) (s\<lparr>csr_scause := IRQ_ECALL_USER\<rparr>)"
  have er: "mem_rep e rs"
    using r mem_rep_cong [of "s\<lparr>csr_scause := IRQ_ECALL_USER\<rparr>" s]
    unfolding e_def mem_rep_entered by (simp add: mem_state.truncate_def)
  have ba: "block_addr e j = block_addr s j" unfolding e_def block_addr_entered by (simp add: block_addr_def)
  obtain v where v: "mem_alloc k e = Inr (block_addr s j, v)" "mem_rep v qs"
    by (rule mem_alloc_Some [OF er k f, unfolded ba])
  show thesis
    by (rule direct_ecall_alloc [OF v(1) [unfolded e_def]], rule that)
       (use v(2) mem_rep_cong in blast)+
qed

section \<open>Creating a thread through two system calls\<close>

lemma thread_create_same:
  assumes "mem_alloc 1 s = Inr (t, v)" and "t \<noteq> 0" and "thread_create handle start_f arg stack mode s = Inr (r, u)"
  shows "csr_sscratch u = csr_sscratch s"
  using assms same_heap_kernel(10) [OF mem_alloc_same [OF assms(1)]]
  by (cases mode) (auto simp: thread_create_def Let_def upd_defs scheduler_user_thread_increment_def)

text \<open>The stack is the first block, the thread's structure the second. The caller's trap frame must not be the
  initial context of the new thread.\<close>

lemma usr_thread_create_result:
  assumes r: "mem_rep s rs" and f: "first_fit 64 0 rs = Some (j, qs)" "first_fit 1 0 qs = Some (i, ps)"
    and t: "base = block_addr s j" "t = block_addr s i"
    and q: "ready_queue s ts" "t \<notin> set ts" and apart: "x_sp regs \<noteq> base + 4088"
    and nz: "base \<noteq> 0" "t \<noteq> 0" "thread_node t \<noteq> 0"
  obtains u where "usr_thread_create direct_ecall regs s = Inr ((0, regs\<lparr>x_zero := 0, x_a0 := 0\<rparr>), u)"
    and "words u = (words s)(x_a0 regs := t)" and "ready_queue u (ts @ [t])" and "mem_rep u ps"
    and "threads u = (threads s)(t := \<lparr>thr_sp = base + 3832, thr_bp = base,
      thr_sstatus = start_sstatus EXEC_MODE_USER (csr_sstatus s), thr_sepc = thread_wrapper_addr s, thr_time_left = 2\<rparr>)"
    and "x_a0 (contexts u (base + 3832)) = x_a1 regs" and "x_a1 (contexts u (base + 3832)) = x_a2 regs"
    and "x_sp (contexts u (base + 3832)) = base + 3832" and "scheduler_current u = scheduler_current s"
proof -
  let ?f = "regs\<lparr>x_a4 := x_a2 regs, x_a3 := x_a1 regs, x_a2 := x_a0 regs, x_a0 := 4096\<rparr>"
  have k: "uint (64 :: u64) = 64" by simp
  obtain s1 where s1: "direct_ecall (?f\<lparr>x_a1 := 64, x_a0 := 1\<rparr>) s = Inr (?f\<lparr>x_zero := 0, x_a1 := 64, x_a0 := base\<rparr>, s1)"
    "mem_rep s1 qs" "sched s1 = sched s" "list_nodes s1 = list_nodes s" "threads s1 = threads s" "words s1 = words s"
    "csr_sstatus s1 = csr_sstatus s" "thread_wrapper_addr s1 = thread_wrapper_addr s" "HEAP_START_ADDR s1 = HEAP_START_ADDR s"
    unfolding t(1) by (rule ecall_mem_alloc [OF r, of 64 j qs ?f]) (simp_all add: f(1))
  let ?g = "regs\<lparr>x_zero := 0, x_a0 := 0x11, x_a1 := x_a0 regs, x_a2 := x_a1 regs, x_a3 := x_a2 regs, x_a4 := base + 4088\<rparr>"
  let ?e = "entered ?g (s1\<lparr>csr_scause := IRQ_ECALL_USER\<rparr>)"
  have re: "mem_rep ?e qs"
    using s1(2) mem_rep_cong [of "s1\<lparr>csr_scause := IRQ_ECALL_USER\<rparr>" s1]
    unfolding mem_rep_entered by (simp add: mem_state.truncate_def)
  have te: "block_addr ?e i = t" unfolding block_addr_entered t(2) by (simp add: block_addr_def s1(9))
  have "first_fit (uint (1 :: u64)) 0 qs = Some (i, ps)" using f(2) by simp
  from mem_alloc_Some [OF re _ this] te obtain w where w: "mem_alloc 1 ?e = Inr (t, w)" "mem_rep w ps" by auto
  have qe: "ready_queue ?e ts" using q(1) by (simp add: ready_queue_def s1 trap_save_def upd_context_def Let_def)
  obtain u where u: "thread_create (x_a0 regs) (x_a1 regs) (x_a2 regs) (base + 4088) EXEC_MODE_USER ?e = Inr (0, u)"
    "threads u = (threads ?e)(t := \<lparr>thr_sp = base + 4088 - 0x100, thr_bp = base + 4088 - 4096 + 8,
      thr_sstatus = start_sstatus EXEC_MODE_USER (csr_sstatus ?e), thr_sepc = thread_wrapper_addr ?e, thr_time_left = 2\<rparr>)"
    "contexts u = (contexts ?e)(base + 4088 - 0x100 := (contexts ?e (base + 4088 - 0x100))\<lparr>x_sp := base + 4088 - 0x100,
      x_a0 := x_a1 regs, x_a1 := x_a2 regs, x_gp := reg_gp ?e, x_tp := reg_tp ?e\<rparr>)"
    "words u = (words ?e)(x_a0 regs := t)" "ready_queue u (ts @ [t])" "mem_state.truncate u = mem_state.truncate w"
    "thread_create_frame ?e u"
    by (rule thread_create_result [OF w(1) nz(2) qe q(2) nz(3), where handle = "x_a0 regs" and start_f = "x_a1 regs"
      and arg = "x_a2 regs" and stack = "base + 4088" and mode = EXEC_MODE_USER])
  have ctx: "x_sp ?g - 0x100 \<noteq> base + 4088 - 0x100" using apart by (simp add: add.commute)
  have h: "irq_handler (trap_save ?g (s1\<lparr>csr_scause := IRQ_ECALL_USER\<rparr>)) = Inr (upd_context (x_sp ?g - 0x100) (set_a0 0) u)"
    using u(1) by (simp add: irq_handler_def irq_ecall_user_def sys_thread_create_def Let_def trap_save_contexts)
  have sp: "csr_sscratch u = x_sp ?g - 0x100" using thread_create_same [OF w(1) nz(2) u(1)] by simp
  obtain x where x: "direct_ecall ?g s1 = Inr (?g\<lparr>x_zero := 0, x_a0 := 0\<rparr>, x)" "os_same x u" "threads x = threads u"
    "words x = words u" "contexts x = (contexts u)(x_sp ?g - 0x100 := ?g\<lparr>x_zero := 0, x_sp := x_sp ?g - 0x100, x_a0 := 0\<rparr>)"
    by (rule direct_ecall_answers [OF h sp]) (use ctx in \<open>simp_all add: u(3) trap_save_contexts\<close>)
  have m: "usr_mem_alloc direct_ecall ?f s = Inr ((base, ?f\<lparr>x_zero := 0, x_a0 := base\<rparr>), s1)"
    using s1(1) by (cases regs) (simp add: usr_mem_alloc_def Let_def)
  have g: "?f\<lparr>x_zero := 0, x_a0 := 0x11, x_a1 := x_a2 ?f, x_a2 := x_a3 ?f, x_a3 := x_a4 ?f, x_a4 := base + 4088\<rparr> = ?g"
    by (cases regs) simp
  have e: "usr_thread_create direct_ecall regs s = Inr ((0, regs\<lparr>x_zero := 0, x_a0 := 0\<rparr>), x)"
    using nz(1) m x(1) g by (cases regs) (simp add: usr_thread_create_def Let_def)
  show thesis
  proof (rule that [OF e])
    show "mem_rep x ps" using w(2) x(2) u(6) mem_rep_cong [of x w ps] by (simp add: os_same_def)
    have "ready_queue x ts' = ready_queue u ts'" for ts'
      using x(2) by (simp add: ready_queue_def os_same_def)
    then show "ready_queue x (ts @ [t])" using u(5) by simp
    show "scheduler_current x = scheduler_current s"
      using x(2) u(7) by (simp add: os_same_def scheduler_current_def thread_create_frame_def s1(3))
  qed (use ctx in \<open>simp_all add: x u(2-4) s1, simp_all add: trap_save_def upd_context_def Let_def s1 add.commute\<close>)
qed

section \<open>Properties\<close>

text \<open>C13. The user's \<open>mem_alloc\<close>, through the system call, is first-fit allocation of the requested bytes
  rounded up to blocks: it returns the address of the first free run with room for them and takes just that
  many blocks, with fewer than 64 bytes to spare; of the caller's registers only \<open>a0\<close> changes, and
  execution goes on behind the call. The request must be positive and not within 63 bytes of \<open>2\<^sup>6\<^sup>4\<close>,
  where the rounding wraps around to 0 blocks.\<close>

theorem usr_mem_alloc_allocates:
  assumes "mem_rep s rs" and "0 < uint (x_a0 regs)" and "uint (x_a0 regs) + 64 \<le> 2 ^ 64"
    and "k = (uint (x_a0 regs) + 63) div 64" and "first_fit k 0 rs = Some (j, qs)"
  shows "\<exists>t. usr_mem_alloc direct_ecall regs s =
      Inr ((block_addr s j, regs\<lparr>x_zero := 0, x_a0 := block_addr s j\<rparr>), t)
    \<and> mem_rep t qs \<and> csr_sepc t = csr_sepc s + 4
    \<and> uint (x_a0 regs) \<le> 64 * k \<and> 64 * k < uint (x_a0 regs) + 64"
proof -
  let ?k = "(x_a0 regs + MEM_BLOCK_SIZE - 1) div MEM_BLOCK_SIZE"
  have "x_a0 regs + 64 - 1 = x_a0 regs + 63" by simp
  moreover have "uint (x_a0 regs + 63) = uint (x_a0 regs) + 63"
    using assms(3) uint_add_bounded [of "x_a0 regs" 63] by simp
  ultimately have k: "uint ?k = k" using assms(4) by (simp add: uint_div_64 add.commute)
  then have kp: "0 < uint ?k" using assms(2,4) by linarith
  have f: "first_fit (uint ?k) 0 rs = Some (j, qs)" using assms(5) k by simp
  obtain t where t: "direct_ecall (regs\<lparr>x_a1 := ?k, x_a0 := 1\<rparr>) s =
      Inr (regs\<lparr>x_zero := 0, x_a1 := ?k, x_a0 := block_addr s j\<rparr>, t)" "mem_rep t qs" "csr_sepc t = csr_sepc s + 4"
    by (rule ecall_mem_alloc [OF assms(1) kp f])
  have "regs\<lparr>x_zero := 0, x_a1 := ?k, x_a0 := block_addr s j, x_a1 := x_a1 regs\<rparr> =
      regs\<lparr>x_zero := 0, x_a0 := block_addr s j\<rparr>"
    by (cases regs) simp
  then have "usr_mem_alloc direct_ecall regs s =
      Inr ((block_addr s j, regs\<lparr>x_zero := 0, x_a0 := block_addr s j\<rparr>), t)"
    using t(1) by (simp add: usr_mem_alloc_def Let_def)
  moreover have "uint (x_a0 regs) \<le> 64 * k" "64 * k < uint (x_a0 regs) + 64" using assms(4) by linarith+
  ultimately show ?thesis using t(2,3) by blast
qed

theorem usr_mem_alloc_allocates_witness:
  "\<exists>t. usr_mem_alloc direct_ecall (sample_regs\<lparr>x_a0 := 100\<rparr>) blank_kernel =
      Inr ((5120, sample_regs\<lparr>x_a0 := 5120\<rparr>), t) \<and> mem_rep t [16, 2, -238]"
proof -
  have b: "block_addr blank_kernel 16 = 5120" by (simp add: block_addr_def blank_kernel_fields)
  have r: "sample_regs\<lparr>x_a0 := 100\<rparr>\<lparr>x_zero := 0, x_a0 := 5120\<rparr> = sample_regs\<lparr>x_a0 := 5120\<rparr>"
    by (simp add: sample_regs_def blank_context_def)
  have "\<exists>t. usr_mem_alloc direct_ecall (sample_regs\<lparr>x_a0 := 100\<rparr>) blank_kernel =
      Inr ((block_addr blank_kernel 16, sample_regs\<lparr>x_a0 := 100\<rparr>\<lparr>x_zero := 0, x_a0 := block_addr blank_kernel 16\<rparr>), t)
    \<and> mem_rep t [16, 2, -238] \<and> csr_sepc t = csr_sepc blank_kernel + 4
    \<and> uint (x_a0 (sample_regs\<lparr>x_a0 := 100\<rparr>)) \<le> 64 * 2 \<and> 64 * 2 < uint (x_a0 (sample_regs\<lparr>x_a0 := 100\<rparr>)) + 64"
    by (rule usr_mem_alloc_allocates [OF blank_kernel_heap]) simp_all
  then show ?thesis unfolding b r by blast
qed

text \<open>A request for 0 bytes, or one within 63 bytes of \<open>2\<^sup>6\<^sup>4\<close>, reaches the allocator as one for 0 blocks.\<close>

lemma usr_mem_alloc_zero_blocks:
  assumes "x_a0 regs = 0 \<or> uint (x_a0 regs) + 63 \<ge> 2 ^ 64"
  shows "usr_mem_alloc ecall regs s = seqr (ecall (regs\<lparr>x_a1 := 0, x_a0 := 0x1\<rparr>) s) (\<lambda>(r, s).
    Inr ((x_a0 r, r\<lparr>x_a1 := x_a1 regs\<rparr>), s))"
proof -
  have "uint (x_a0 regs + 63) < 64"
  proof (cases "x_a0 regs = 0")
    case False
    then have "uint (x_a0 regs) + 63 \<ge> 2 ^ 64" using assms by simp
    moreover have "uint (x_a0 regs) < 2 ^ 64" using uint_u64_bounds [of "x_a0 regs"] by simp
    moreover have "uint (x_a0 regs + 63) = (uint (x_a0 regs) + 63) mod 2 ^ 64" by (simp add: uint_word_ariths)
    moreover have "\<dots> = (uint (x_a0 regs) + 63 - 2 ^ 64) mod 2 ^ 64" by (rule minus_mod_self2 [symmetric])
    ultimately show ?thesis by simp
  qed simp
  then have "uint ((x_a0 regs + 63) div 64) = 0" by (simp add: uint_div)
  then have "(x_a0 regs + 63) div 64 = 0" by (simp add: uint_0_iff)
  then show ?thesis by (simp add: usr_mem_alloc_def Let_def add.commute)
qed

text \<open>\<open>mem_free\<close> and \<open>sem_trywait\<close> do nothing: their codes are unknown to the handler.\<close>

lemma usr_mem_free_nothing:
  "\<exists>t. usr_mem_free direct_ecall regs s = Inr ((2, regs\<lparr>x_zero := 0, x_a0 := 2\<rparr>), t)
    \<and> mem_state.truncate t = mem_state.truncate s \<and> sched t = sched s"
proof -
  have "irq_handler (trap_save (regs\<lparr>x_a1 := x_a0 regs, x_a0 := 2\<rparr>) (s\<lparr>csr_scause := 8\<rparr>)) =
      Inr (entered (regs\<lparr>x_a1 := x_a0 regs, x_a0 := 2\<rparr>) (s\<lparr>csr_scause := 8\<rparr>))"
    by (simp add: irq_handler_def irq_ecall_user_def Let_def trap_save_contexts)
  then show ?thesis
    by (cases regs)
       (simp add: usr_mem_free_def direct_ecall_def irq_wrap_def Let_def trap_restore_def trap_save_def
         upd_context_def mem_state.truncate_def)
qed

end
