(* ===== verification/Syscall_Cpp.thy ===== *)
theory Syscall_Cpp
  imports Syscall
begin

text \<open>
  The C++ classes \<open>Thread\<close>, \<open>Semaphore\<close> and \<open>Console\<close> of \<open>src/syscall_cpp.cpp\<close>, on top of the C functions. An
  object is the address \<open>this\<close>; its members are words of memory behind the pointer to the table of virtual
  functions, where the kernel also stores the handle whose address it is given. A method sets the argument
  registers of the C function it calls and returns what that returns.

  What the compiler supplies is a parameter: the address of a class's table of virtual functions, that of
  the local function of the protected constructor, and the function that a virtual call reaches through a
  table. \<open>PeriodicThread\<close> is declared in the header and implemented nowhere.
\<close>

section \<open>Objects\<close>

definition this_vptr :: "u64 \<Rightarrow> u64" where "this_vptr this = this"
definition this_myHandle :: "u64 \<Rightarrow> u64" where "this_myHandle this = this + 8"
definition this_body :: "u64 \<Rightarrow> u64" where "this_body this = this + 16"
definition this_arg :: "u64 \<Rightarrow> u64" where "this_arg this = this + 24"

lemmas members = this_vptr_def this_myHandle_def this_body_def this_arg_def

definition store :: "u64 \<Rightarrow> u64 \<Rightarrow> kernel \<Rightarrow> kernel" where
  "store p w s = s\<lparr>words := (words s)(p := w)\<rparr>"

section \<open>Allocation\<close>

definition operator_new :: "ecall \<Rightarrow> u64 \<Rightarrow> context_t \<Rightarrow> kernel \<Rightarrow> (u64 \<times> context_t, kernel) res" where
  "operator_new ecall sz regs s = usr_mem_alloc ecall (regs\<lparr>x_a0 := sz\<rparr>) s"

definition operator_new_array :: "ecall \<Rightarrow> u64 \<Rightarrow> context_t \<Rightarrow> kernel \<Rightarrow> (u64 \<times> context_t, kernel) res" where
  "operator_new_array ecall sz regs s = usr_mem_alloc ecall (regs\<lparr>x_a0 := sz\<rparr>) s"

definition operator_delete :: "ecall \<Rightarrow> u64 \<Rightarrow> context_t \<Rightarrow> kernel \<Rightarrow> (context_t, kernel) res" where
  "operator_delete ecall ptr regs s =
     seqr (usr_mem_free ecall (regs\<lparr>x_a0 := ptr\<rparr>) s) (\<lambda>((_, regs), s). Inr (regs, s))"

definition operator_delete_array :: "ecall \<Rightarrow> u64 \<Rightarrow> context_t \<Rightarrow> kernel \<Rightarrow> (context_t, kernel) res" where
  "operator_delete_array ecall ptr regs s =
     seqr (usr_mem_free ecall (regs\<lparr>x_a0 := ptr\<rparr>) s) (\<lambda>((_, regs), s). Inr (regs, s))"

section \<open>Thread\<close>

text \<open>The public constructor takes a function and its argument, the protected one arranges that the thread
  calls the virtual function \<open>run\<close> of the object.\<close>

definition Thread_new :: "u64 \<Rightarrow> u64 \<Rightarrow> u64 \<Rightarrow> u64 \<Rightarrow> kernel \<Rightarrow> kernel" where
  "Thread_new vtable this body arg s =
     (let s = store (this_vptr this) vtable s;
          s = store (this_body this) body s
      in store (this_arg this) arg s)"

definition hack_func :: "(u64 \<Rightarrow> u64 \<Rightarrow> kernel \<Rightarrow> 'r) \<Rightarrow> u64 \<Rightarrow> kernel \<Rightarrow> 'r" where
  "hack_func run thread s = run (words s (this_vptr thread)) thread s"

definition Thread_new_derived :: "u64 \<Rightarrow> u64 \<Rightarrow> u64 \<Rightarrow> kernel \<Rightarrow> kernel" where
  "Thread_new_derived vtable func this s =
     (let s = store (this_vptr this) vtable s;
          s = store (this_body this) func s
      in store (this_arg this) this s)"

definition Thread_run :: "u64 \<Rightarrow> kernel \<Rightarrow> kernel" where
  "Thread_run this s = s"

definition Thread_start :: "ecall \<Rightarrow> u64 \<Rightarrow> context_t \<Rightarrow> kernel \<Rightarrow> (i32 \<times> context_t, kernel) res" where
  "Thread_start ecall this regs s =
     usr_thread_create ecall (regs\<lparr>x_a0 := this_myHandle this, x_a1 := words s (this_body this),
       x_a2 := words s (this_arg this)\<rparr>) s"

definition Thread_dispatch :: "ecall \<Rightarrow> context_t \<Rightarrow> kernel \<Rightarrow> (context_t, kernel) res" where
  "Thread_dispatch ecall regs s = usr_thread_dispatch ecall regs s"

definition Thread_sleep :: "ecall \<Rightarrow> u64 \<Rightarrow> context_t \<Rightarrow> kernel \<Rightarrow> (i32 \<times> context_t, kernel) res" where
  "Thread_sleep ecall time regs s = usr_time_sleep ecall (regs\<lparr>x_a0 := time\<rparr>) s"

text \<open>\<open>delete\<close> of a null pointer calls nothing.\<close>

definition Thread_destroy :: "ecall \<Rightarrow> u64 \<Rightarrow> context_t \<Rightarrow> kernel \<Rightarrow> (context_t, kernel) res" where
  "Thread_destroy ecall this regs s =
     (let myHandle = words s (this_myHandle this)
      in if myHandle = 0 then Inr (regs, s) else operator_delete ecall myHandle regs s)"

section \<open>Semaphore\<close>

definition Semaphore_new :: "ecall \<Rightarrow> u64 \<Rightarrow> u64 \<Rightarrow> u32 \<Rightarrow> context_t \<Rightarrow> kernel \<Rightarrow> (context_t, kernel) res" where
  "Semaphore_new ecall vtable this init regs s =
     seqr (usr_sem_open ecall (regs\<lparr>x_a0 := this_myHandle this, x_a1 := scast init\<rparr>) (store (this_vptr this) vtable s))
       (\<lambda>((_, regs), s). Inr (regs, s))"

definition Semaphore_wait :: "ecall \<Rightarrow> u64 \<Rightarrow> context_t \<Rightarrow> kernel \<Rightarrow> (i32 \<times> context_t, kernel) res" where
  "Semaphore_wait ecall this regs s = usr_sem_wait ecall (regs\<lparr>x_a0 := words s (this_myHandle this)\<rparr>) s"

definition Semaphore_signal :: "ecall \<Rightarrow> u64 \<Rightarrow> context_t \<Rightarrow> kernel \<Rightarrow> (i32 \<times> context_t, kernel) res" where
  "Semaphore_signal ecall this regs s = usr_sem_signal ecall (regs\<lparr>x_a0 := words s (this_myHandle this)\<rparr>) s"

definition Semaphore_timedWait :: "ecall \<Rightarrow> u64 \<Rightarrow> u64 \<Rightarrow> context_t \<Rightarrow> kernel \<Rightarrow> (i32 \<times> context_t, kernel) res" where
  "Semaphore_timedWait ecall this t regs s =
     usr_sem_timed_wait ecall (regs\<lparr>x_a0 := words s (this_myHandle this), x_a1 := t\<rparr>) s"

definition Semaphore_tryWait :: "ecall \<Rightarrow> u64 \<Rightarrow> context_t \<Rightarrow> kernel \<Rightarrow> (i32 \<times> context_t, kernel) res" where
  "Semaphore_tryWait ecall this regs s = usr_sem_trywait ecall (regs\<lparr>x_a0 := words s (this_myHandle this)\<rparr>) s"

definition Semaphore_destroy :: "ecall \<Rightarrow> u64 \<Rightarrow> context_t \<Rightarrow> kernel \<Rightarrow> (context_t, kernel) res" where
  "Semaphore_destroy ecall this regs s =
     seqr (usr_sem_close ecall (regs\<lparr>x_a0 := words s (this_myHandle this)\<rparr>) s) (\<lambda>((_, regs), s). Inr (regs, s))"

section \<open>Console\<close>

definition Console_getc :: "ecall \<Rightarrow> context_t \<Rightarrow> kernel \<Rightarrow> (u8 \<times> context_t, kernel) res" where
  "Console_getc ecall regs s = usr_getc ecall regs s"

definition Console_putc :: "ecall \<Rightarrow> u8 \<Rightarrow> context_t \<Rightarrow> kernel \<Rightarrow> (context_t, kernel) res" where
  "Console_putc ecall c regs s = usr_putc ecall (regs\<lparr>x_a0 := ucast c\<rparr>) s"

section \<open>A thread object\<close>

lemma store_simps [simp]:
  "words (store p w s) = (words s)(p := w)" "sched (store p w s) = sched s" "list_nodes (store p w s) = list_nodes s"
  "threads (store p w s) = threads s" "csr_sstatus (store p w s) = csr_sstatus s" "sems (store p w s) = sems s"
  "thread_wrapper_addr (store p w s) = thread_wrapper_addr s" "mem_state.truncate (store p w s) = mem_state.truncate s"
  "sem_cnt (store p w s) = sem_cnt s"
  by (simp_all add: store_def mem_state.truncate_def)

lemma block_addr_cong: "mem_state.truncate t = mem_state.truncate s \<Longrightarrow> block_addr t j = block_addr s j"
  by (simp add: block_addr_def mem_state.truncate_def)

text \<open>The members are different words.\<close>

lemma members_apart [simp]:
  "this_body p \<noteq> this_vptr p" "this_arg p \<noteq> this_vptr p" "this_body p \<noteq> this_arg p" "this_myHandle p \<noteq> this_vptr p"
  "this_myHandle p \<noteq> this_body p" "this_myHandle p \<noteq> this_arg p"
  "this_vptr p \<noteq> this_body p" "this_vptr p \<noteq> this_arg p" "this_arg p \<noteq> this_body p" "this_vptr p \<noteq> this_myHandle p"
  "this_body p \<noteq> this_myHandle p" "this_arg p \<noteq> this_myHandle p"
  by (simp_all add: members)

lemma Thread_new_derived_fields [simp]:
  "words (Thread_new_derived vtable func this s) (this_vptr this) = vtable"
  "words (Thread_new_derived vtable func this s) (this_body this) = func"
  "words (Thread_new_derived vtable func this s) (this_arg this) = this"
  "sched (Thread_new_derived vtable func this s) = sched s"
  "list_nodes (Thread_new_derived vtable func this s) = list_nodes s"
  "mem_state.truncate (Thread_new_derived vtable func this s) = mem_state.truncate s"
  by (simp_all add: Thread_new_derived_def Let_def)

section \<open>A semaphore object\<close>

lemma Semaphore_new_opens:
  assumes o: "owns s L" and a: "mem_alloc 1 s = Inr (p, v)" "p \<noteq> 0" and c: "sem_cnt s < 10"
  obtains u where "Semaphore_new direct_ecall vtable this init regs s =
      Inr (regs\<lparr>x_zero := 0, x_a0 := 0, x_a1 := scast init\<rparr>, u)"
    and "words u = (words s)(this_vptr this := vtable, this_myHandle this := p)"
    and "sems u = (sems s)(p := \<lparr>sem_val = init, sem_init = init, sem_waiting = 0\<rparr>)"
    and "sched u = sched s" and "list_nodes u = list_nodes s" and "owns u (insert (p, 1) L)"
    and "sleeping u = sleeping s" and "threads_waiting_for_input u = threads_waiting_for_input s"
proof -
  let ?s = "store (this_vptr this) vtable s"
  let ?r = "regs\<lparr>x_a0 := 0x21, x_a1 := this_myHandle this, x_a2 := scast init\<rparr>"
  let ?e = "entered ?r (?s\<lparr>csr_scause := IRQ_ECALL_USER\<rparr>)"
  have te: "mem_state.truncate ?e = mem_state.truncate s"
    by (simp add: trap_save_def upd_context_def Let_def mem_state.truncate_def store_def)
  obtain w where w: "mem_alloc 1 ?e = Inr (p, w)" "owns w (insert (p, uint (1 :: u64)) L)"
    by (rule owned_alloc_cong [OF o _ a te]) simp_all
  have ce: "sem_cnt ?e < 10" using c by (simp add: trap_save_def upd_context_def Let_def)
  obtain u where u: "sem_open (this_myHandle this) init ?e = Inr (0, u)" "words u = (words ?e)(this_myHandle this := p)"
    "sems u = (sems ?e)(p := \<lparr>sem_val = init, sem_init = init, sem_waiting = 0\<rparr>)"
    "sched u = sched ?e" "list_nodes u = list_nodes ?e" "contexts u = contexts ?e" "running u = running ?e"
    "mem_state.truncate u = mem_state.truncate w" "sleeping u = sleeping ?e"
    "threads_waiting_for_input u = threads_waiting_for_input ?e"
    by (rule sem_open_result [OF w(1) a(2) ce, of "this_myHandle this" init])
  have "ucast (scast init :: u64) = init" by (intro bit_word_eqI) (simp add: bit_simps)
  then have h: "irq_handler (trap_save ?r (?s\<lparr>csr_scause := IRQ_ECALL_USER\<rparr>)) = Inr (upd_context (x_sp ?r - 0x100) (set_a0 0) u)"
    using u(1) by (simp add: irq_handler_def irq_ecall_user_def sys_sem_open_def Let_def trap_save_contexts)
  obtain x where x: "direct_ecall ?r ?s = Inr (?r\<lparr>x_zero := 0, x_a0 := 0\<rparr>, x)" "os_same x u" "words x = words u"
    by (rule direct_ecall_answers [OF h]) (use u(7) in \<open>simp_all add: running_def u(6) trap_save_contexts\<close>)
  have "Semaphore_new direct_ecall vtable this init regs s = Inr (regs\<lparr>x_zero := 0, x_a0 := 0, x_a1 := scast init\<rparr>, x)"
    using x(1) by (cases regs) (simp add: Semaphore_new_def usr_sem_open_def Let_def)
  moreover have "mem_state.truncate x = mem_state.truncate w" using x(2) u(8) by (simp add: os_same_def)
  then have "owns x (insert (p, 1) L)" using w(2) owns_cong [of x w] by simp
  ultimately show thesis
    using x(2) by (intro that [of x]) (simp_all add: x(3) u os_same_def, simp_all add: trap_save_def upd_context_def Let_def store_def)
qed

lemma Semaphore_destroy_closes:
  assumes o: "owns s L" and p: "p = words s (this_myHandle this)" and l: "(p, k) \<in> L" and w: "sem_waiting (sems s p) = 0"
  obtains u where "Semaphore_destroy direct_ecall this regs s = Inr (regs\<lparr>x_zero := 0, x_a0 := 0\<rparr>, u)"
    and "owns u (L - {(p, k)})" and "sched u = sched s" and "list_nodes u = list_nodes s" and "words u = words s"
    and "sems u = sems s" and "sleeping u = sleeping s" and "threads_waiting_for_input u = threads_waiting_for_input s"
proof -
  let ?r = "regs\<lparr>x_a0 := 0x22, x_a1 := p\<rparr>"
  let ?e = "entered ?r (s\<lparr>csr_scause := IRQ_ECALL_USER\<rparr>)"
  have te: "mem_state.truncate ?e = mem_state.truncate s"
    by (simp add: trap_save_def upd_context_def Let_def mem_state.truncate_def)
  obtain u where u: "mem_free p ?e = (0, u)" "owns u (L - {(p, k)})"
    using mem_heap.free_owned [of ?e L p k] o l owns_cong [OF te] by blast
  note f = same_heap_kernel [OF mem_free_same [OF u(1)]]
  have "sem_close p ?e = Inr (0, u)"
    using w u(1) by (simp add: sem_close_def)
  then have h: "irq_handler (trap_save ?r (s\<lparr>csr_scause := IRQ_ECALL_USER\<rparr>)) = Inr (upd_context (x_sp ?r - 0x100) (set_a0 0) u)"
    by (simp add: irq_handler_def irq_ecall_user_def sys_sem_close_def Let_def trap_save_contexts)
  obtain x where x: "direct_ecall ?r s = Inr (?r\<lparr>x_zero := 0, x_a0 := 0\<rparr>, x)" "os_same x u" "words x = words u"
    by (rule direct_ecall_answers [OF h]) (simp_all add: f trap_save_contexts)
  have "Semaphore_destroy direct_ecall this regs s = Inr (regs\<lparr>x_zero := 0, x_a0 := 0\<rparr>, x)"
    using x(1) unfolding p by (cases regs) (simp add: Semaphore_destroy_def usr_sem_close_def Let_def)
  moreover have "owns x (L - {(p, k)})" using u(2) x(2) owns_cong [of x u] by (simp add: os_same_def)
  ultimately show thesis
    using x(2) by (intro that [of x]) (simp_all add: x(3) f os_same_def, simp_all add: trap_save_def upd_context_def Let_def)
qed

section \<open>What the destructor of a thread and tryWait do\<close>

text \<open>The destructor of \<open>Thread\<close> means to free the thread's structure; the kernel ignores the request. (It would
  have freed it a second time: the kernel frees it when the thread exits.)\<close>

lemma Thread_destroy_frees_nothing:
  "\<exists>r t. Thread_destroy direct_ecall this regs s = Inr (r, t) \<and> mem_state.truncate t = mem_state.truncate s
    \<and> sched t = sched s"
proof (cases "words s (this_myHandle this) = 0")
  case False
  obtain t where "usr_mem_free direct_ecall (regs\<lparr>x_a0 := words s (this_myHandle this)\<rparr>) s =
      Inr ((2, regs\<lparr>x_a0 := words s (this_myHandle this)\<rparr>\<lparr>x_zero := 0, x_a0 := 2\<rparr>), t)"
    "mem_state.truncate t = mem_state.truncate s" "sched t = sched s"
    using usr_mem_free_nothing [of "regs\<lparr>x_a0 := words s (this_myHandle this)\<rparr>" s] by blast
  then show ?thesis using False by (simp add: Thread_destroy_def operator_delete_def)
qed (simp add: Thread_destroy_def)

lemma Semaphore_tryWait_nothing:
  "\<exists>r t. Semaphore_tryWait direct_ecall this regs s = Inr ((0x26, r), t) \<and> sems t = sems s \<and> sched t = sched s"
proof -
  let ?r = "regs\<lparr>x_a1 := words s (this_myHandle this), x_a0 := 0x26\<rparr>"
  have "irq_handler (trap_save ?r (s\<lparr>csr_scause := 8\<rparr>)) = Inr (entered ?r (s\<lparr>csr_scause := 8\<rparr>))"
    by (simp add: irq_handler_def irq_ecall_user_def Let_def trap_save_contexts)
  then show ?thesis
    by (simp add: Semaphore_tryWait_def usr_sem_trywait_def direct_ecall_def irq_wrap_def Let_def trap_restore_def
      trap_save_def upd_context_def)
qed

section \<open>Properties\<close>

text \<open>C14. Starting an object of a class derived from \<open>Thread\<close> makes a thread that calls the object's own \<open>run\<close>:
  through two system calls, on a heap with room, a stack and a structure are allocated, the handle in
  the object is the new thread, which is last in the ready queue and starts on its stack with the
  object in its argument registers, and the function it starts in makes the virtual call on the object.\<close>

theorem derived_thread_runs_its_run:
  assumes "mem_rep s rs" and "first_fit 64 0 rs = Some (j, qs)" and "first_fit 1 0 qs = Some (i, ps)"
    and "base = block_addr s j" and "t = block_addr s i" and "base \<noteq> 0" and "t \<noteq> 0" and "thread_node t \<noteq> 0"
    and "ready_queue s ts" and "t \<notin> set ts" and "x_sp regs \<noteq> base + 4088"
  shows "\<exists>r u. Thread_start direct_ecall this regs (Thread_new_derived vtable func this s) = Inr ((0, r), u)
    \<and> x_sp r = x_sp regs \<and> words u (this_myHandle this) = t \<and> mem_rep u ps \<and> ready_queue u (ts @ [t])
    \<and> scheduler_current u = scheduler_current s
    \<and> thr_sp (threads u t) = base + 3832 \<and> thr_bp (threads u t) = base
    \<and> x_a0 (contexts u (base + 3832)) = func \<and> x_a1 (contexts u (base + 3832)) = this
    \<and> hack_func run (x_a1 (contexts u (base + 3832))) u = run vtable this u"
proof -
  let ?s = "Thread_new_derived vtable func this s"
  let ?r = "regs\<lparr>x_a0 := this_myHandle this, x_a1 := words ?s (this_body this), x_a2 := words ?s (this_arg this)\<rparr>"
  have "mem_rep ?s rs" using assms(1) mem_rep_cong [of ?s s] by simp
  moreover have "base = block_addr ?s j" "t = block_addr ?s i"
    using assms(4,5) block_addr_cong [of ?s s] by simp_all
  moreover have "ready_queue ?s ts" using assms(9) by (simp add: ready_queue_def)
  ultimately obtain u where u: "usr_thread_create direct_ecall ?r ?s = Inr ((0, ?r\<lparr>x_zero := 0, x_a0 := 0\<rparr>), u)"
    "words u = (words ?s)(x_a0 ?r := t)" "ready_queue u (ts @ [t])" "mem_rep u ps"
    "thr_sp (threads u t) = base + 3832" "thr_bp (threads u t) = base"
    "x_a0 (contexts u (base + 3832)) = x_a1 ?r" "x_a1 (contexts u (base + 3832)) = x_a2 ?r"
    "scheduler_current u = scheduler_current ?s"
    using assms by - (rule usr_thread_create_result [where s = ?s and regs = ?r], auto)
  then show ?thesis
    by (intro exI [of _ "?r\<lparr>x_zero := 0, x_a0 := 0\<rparr>"] exI [of _ u])
       (simp add: Thread_start_def hack_func_def scheduler_current_def)
qed

theorem derived_thread_runs_its_run_witness:
  "\<exists>r u. Thread_start direct_ecall 0x700 sample_regs (Thread_new_derived 0x40 0x300 0x700 blank_kernel) = Inr ((0, r), u)
    \<and> words u 0x708 = 9216 \<and> ready_queue u [9216] \<and> hack_func (\<lambda>v p _. (v, p)) (x_a1 (contexts u 8952)) u = (0x40, 0x700)"
proof -
  have b: "block_addr blank_kernel 16 = 5120" "block_addr blank_kernel 80 = 9216"
    by (simp_all add: block_addr_def blank_kernel_fields)
  have f: "first_fit 64 0 [16, -240] = Some (16, [16, 64, -176])" "first_fit 1 0 [16, 64, -176] = Some (80, [16, 64, 1, -175])"
    by simp_all
  have "ready_queue blank_kernel []" by (simp add: ready_queue_def thread_queue_at_def)
  then show ?thesis
    using derived_thread_runs_its_run [OF blank_kernel_heap f b [symmetric], of "[]" sample_regs "0x700" "0x40" "0x300"
      "\<lambda>v p _. (v, p)"]
    by (auto simp: members thread_node_def sample_regs_def blank_context_def)
qed

text \<open>C15. A semaphore object gives back what it took: constructing it opens a semaphore with the given number
  of permits and nobody waiting, whose handle is in the object, and destroying it when nobody waits closes the
  semaphore and leaves the heap with the blocks it had before. No queue has changed: the heads of the ready
  and the sleeping threads, of the threads waiting for input and of every other semaphore, all links between
  list nodes and all entries of sleeping threads are what they were.\<close>

theorem semaphore_object_roundtrip:
  assumes "owns s L" and "mem_alloc 1 s = Inr (p, v)" and "p \<noteq> 0" and "sem_cnt s < 10"
  shows "\<exists>r u r' w. Semaphore_new direct_ecall vtable this init regs s = Inr (r, u)
    \<and> words u (this_myHandle this) = p \<and> sem_val (sems u p) = init \<and> waiting_at p u [] \<and> owns u (insert (p, 1) L)
    \<and> Semaphore_destroy direct_ecall this r u = Inr (r', w) \<and> owns w L
    \<and> sched w = sched s \<and> list_nodes w = list_nodes s \<and> sleeping w = sleeping s
    \<and> threads_waiting_for_input w = threads_waiting_for_input s \<and> (\<forall>k. k \<noteq> p \<longrightarrow> sems w k = sems s k)"
proof -
  obtain u where u: "Semaphore_new direct_ecall vtable this init regs s =
      Inr (regs\<lparr>x_zero := 0, x_a0 := 0, x_a1 := scast init\<rparr>, u)" (is "_ = Inr (?r, u)")
    "words u = (words s)(this_vptr this := vtable, this_myHandle this := p)"
    "sems u = (sems s)(p := \<lparr>sem_val = init, sem_init = init, sem_waiting = 0\<rparr>)"
    "sched u = sched s" "list_nodes u = list_nodes s" "owns u (insert (p, 1) L)"
    "sleeping u = sleeping s" "threads_waiting_for_input u = threads_waiting_for_input s"
    by (rule Semaphore_new_opens [OF assms, of vtable this init regs])
  have "p = words u (this_myHandle this)" "sem_waiting (sems u p) = 0" by (simp_all add: u)
  then obtain w where w: "Semaphore_destroy direct_ecall this ?r u = Inr (?r\<lparr>x_zero := 0, x_a0 := 0\<rparr>, w)"
    "owns w (insert (p, 1) L - {(p, 1)})" "sched w = sched u" "list_nodes w = list_nodes u"
    "sems w = sems u" "sleeping w = sleeping u" "threads_waiting_for_input w = threads_waiting_for_input u"
    by - (rule Semaphore_destroy_closes [OF u(6), of p this 1 ?r], auto)
  have "insert (p, 1) L - {(p, 1)} = L" using mem_heap.alloc_not_owned [OF assms(1) _ assms(2,3)] by simp
  with w(2) have "owns w L" by simp
  moreover have "waiting_at p u []" by (simp add: waiting_at_def thread_queue_at_def u(3))
  ultimately show ?thesis using u(6)
    by (intro exI [of _ ?r] exI [of _ u] exI [of _ "?r\<lparr>x_zero := 0, x_a0 := 0\<rparr>"] exI [of _ w])
      (simp add: u(1-5,7,8) w(1,3-7))
qed

theorem semaphore_object_roundtrip_witness:
  "\<exists>r u r' w. Semaphore_new direct_ecall 0x40 0x700 3 sample_regs blank_kernel = Inr (r, u)
    \<and> words u 0x708 = 5120 \<and> sem_val (sems u 5120) = 3 \<and> Semaphore_destroy direct_ecall 0x700 r u = Inr (r', w)
    \<and> owns w {(4096, 16)}"
proof -
  obtain v where v: "mem_alloc 1 blank_kernel = Inr (5120, v)" by (rule blank_kernel_alloc)
  have "sem_cnt blank_kernel < 10" by (simp add: blank_kernel_def)
  from semaphore_object_roundtrip [OF blank_kernel_owns v _ this, of "0x40" "0x700" 3 sample_regs]
  show ?thesis by (auto simp: members)
qed

end
