(* ===== verification/Ubsan.thy ===== *)
theory Ubsan
  imports Print
begin

text \<open>
  The run time of the undefined behaviour sanitizer, \<open>src/ubsan.c\<close>: handlers that the compiler calls with a
  record of the place in the source. Each prints a report and never returns. A C string is a \<open>string\<close>, and
  a null pointer to one \<open>None\<close>; a type descriptor is only passed on, so its address stands for it.
\<close>

section \<open>Reports\<close>

record ubsan_source_location =
  loc_filename :: "string option"
  loc_line :: u32
  loc_column :: u32

definition unknown_location :: ubsan_source_location where
  "unknown_location = \<lparr>loc_filename = Some ''<unknown file>'', loc_line = 0, loc_column = 0\<rparr>"

text \<open>\<open>ubsan_abort\<close> ends in an empty endless loop.\<close>

definition ubsan_abort ::
  "ubsan_source_location option \<Rightarrow> string \<Rightarrow> 'a io_state_scheme \<Rightarrow> ('a io_state_scheme) vres" where
  "ubsan_abort location violation s =
     (let location = (case location of
            None \<Rightarrow> unknown_location
          | Some l \<Rightarrow> if loc_filename l = None then unknown_location else l);
          s = print_str ''filename = '' s;
          s = print_str (the (loc_filename location)) s;
          s = print_str ''; line = '' s;
          s = print_u64 (ucast (loc_line location)) s;
          s = print_str ''; column = '' s;
          s = print_u64 (ucast (loc_column location)) s;
          s = print_str ''; violation = '' s;
          s = print_str violation s;
          s = print_str (line '';'') s
      in Inl (Diverges, s))"

section \<open>Handlers\<close>

record ubsan_type_mismatch_v1_data =
  tm_location :: ubsan_source_location
  tm_type :: u64
  tm_alignment :: u64
  tm_type_check_kind :: u8

definition ubsan_handle_type_mismatch_v1 ::
  "ubsan_type_mismatch_v1_data \<Rightarrow> u64 \<Rightarrow> 'a io_state_scheme \<Rightarrow> ('a io_state_scheme) vres" where
  "ubsan_handle_type_mismatch_v1 data pointer s =
     (let violation = ''type mismatch'';
          violation = (if pointer = 0 then ''null pointer access''
            else if tm_alignment data \<noteq> 0 \<and> pointer AND (tm_alignment data - 1) \<noteq> 0 then ''unaligned access''
            else violation)
      in ubsan_abort (Some (tm_location data)) violation s)"

text \<open>The other handlers ignore the values they are given and differ in what they call the violation.\<close>

record ubsan_overflow_data =
  ovf_location :: ubsan_source_location
  ovf_type :: u64

definition ubsan_handle_pointer_overflow ::
  "ubsan_overflow_data \<Rightarrow> u64 \<Rightarrow> u64 \<Rightarrow> 'a io_state_scheme \<Rightarrow> ('a io_state_scheme) vres" where
  "ubsan_handle_pointer_overflow data lhs rhs s = ubsan_abort (Some (ovf_location data)) ''pointer overflow'' s"

definition ubsan_handle_add_overflow ::
  "ubsan_overflow_data \<Rightarrow> u64 \<Rightarrow> u64 \<Rightarrow> 'a io_state_scheme \<Rightarrow> ('a io_state_scheme) vres" where
  "ubsan_handle_add_overflow data lhs rhs s = ubsan_abort (Some (ovf_location data)) ''addition overflow'' s"

definition ubsan_handle_sub_overflow ::
  "ubsan_overflow_data \<Rightarrow> u64 \<Rightarrow> u64 \<Rightarrow> 'a io_state_scheme \<Rightarrow> ('a io_state_scheme) vres" where
  "ubsan_handle_sub_overflow data lhs rhs s = ubsan_abort (Some (ovf_location data)) ''subtraction overflow'' s"

definition ubsan_handle_mul_overflow ::
  "ubsan_overflow_data \<Rightarrow> u64 \<Rightarrow> u64 \<Rightarrow> 'a io_state_scheme \<Rightarrow> ('a io_state_scheme) vres" where
  "ubsan_handle_mul_overflow data lhs rhs s = ubsan_abort (Some (ovf_location data)) ''multiplication overflow'' s"

definition ubsan_handle_negate_overflow ::
  "ubsan_overflow_data \<Rightarrow> u64 \<Rightarrow> 'a io_state_scheme \<Rightarrow> ('a io_state_scheme) vres" where
  "ubsan_handle_negate_overflow data old_value s = ubsan_abort (Some (ovf_location data)) ''negation overflow'' s"

definition ubsan_handle_divrem_overflow ::
  "ubsan_overflow_data \<Rightarrow> u64 \<Rightarrow> u64 \<Rightarrow> 'a io_state_scheme \<Rightarrow> ('a io_state_scheme) vres" where
  "ubsan_handle_divrem_overflow data lhs rhs s = ubsan_abort (Some (ovf_location data)) ''division remainder overflow'' s"

record ubsan_shift_out_of_bounds_data =
  shf_location :: ubsan_source_location
  shf_lhs_type :: u64
  shf_rhs_type :: u64

definition ubsan_handle_shift_out_of_bounds ::
  "ubsan_shift_out_of_bounds_data \<Rightarrow> u64 \<Rightarrow> u64 \<Rightarrow> 'a io_state_scheme \<Rightarrow> ('a io_state_scheme) vres" where
  "ubsan_handle_shift_out_of_bounds data lhs rhs s = ubsan_abort (Some (shf_location data)) ''shift out of bounds'' s"

record ubsan_out_of_bounds_data =
  oob_location :: ubsan_source_location
  oob_array_type :: u64
  oob_index_type :: u64

definition ubsan_handle_out_of_bounds ::
  "ubsan_out_of_bounds_data \<Rightarrow> u64 \<Rightarrow> 'a io_state_scheme \<Rightarrow> ('a io_state_scheme) vres" where
  "ubsan_handle_out_of_bounds data index s = ubsan_abort (Some (oob_location data)) ''out of bounds'' s"

record ubsan_unreachable_data =
  unr_location :: ubsan_source_location

definition ubsan_handle_builtin_unreachable ::
  "ubsan_unreachable_data \<Rightarrow> 'a io_state_scheme \<Rightarrow> ('a io_state_scheme) vres" where
  "ubsan_handle_builtin_unreachable data s = ubsan_abort (Some (unr_location data)) ''reached unreachable'' s"

definition ubsan_handle_missing_return ::
  "ubsan_unreachable_data \<Rightarrow> 'a io_state_scheme \<Rightarrow> ('a io_state_scheme) vres" where
  "ubsan_handle_missing_return data s = ubsan_abort (Some (unr_location data)) ''missing return'' s"

record ubsan_vla_bound_data =
  vla_location :: ubsan_source_location
  vla_type :: u64

definition ubsan_handle_vla_bound_not_positive ::
  "ubsan_vla_bound_data \<Rightarrow> u64 \<Rightarrow> 'a io_state_scheme \<Rightarrow> ('a io_state_scheme) vres" where
  "ubsan_handle_vla_bound_not_positive data bound s = ubsan_abort (Some (vla_location data)) ''negative variable array length'' s"

record ubsan_float_cast_overflow_data =
  fco_location :: ubsan_source_location
  fco_from_type :: u64
  fco_to_type :: u64

definition ubsan_handle_float_cast_overflow ::
  "ubsan_float_cast_overflow_data \<Rightarrow> u64 \<Rightarrow> 'a io_state_scheme \<Rightarrow> ('a io_state_scheme) vres" where
  "ubsan_handle_float_cast_overflow data from_value s = ubsan_abort (Some (fco_location data)) ''float cast overflow'' s"

record ubsan_invalid_value_data =
  inv_location :: ubsan_source_location
  inv_type :: u64

definition ubsan_handle_load_invalid_value ::
  "ubsan_invalid_value_data \<Rightarrow> u64 \<Rightarrow> 'a io_state_scheme \<Rightarrow> ('a io_state_scheme) vres" where
  "ubsan_handle_load_invalid_value data value_handle s = ubsan_abort (Some (inv_location data)) ''invalid value load'' s"

record ubsan_function_type_mismatch_v1_data =
  ftm_location :: ubsan_source_location
  ftm_type :: u64

definition ubsan_handle_function_type_mismatch_v1 ::
  "ubsan_function_type_mismatch_v1_data \<Rightarrow> u64 \<Rightarrow> 'a io_state_scheme \<Rightarrow> ('a io_state_scheme) vres" where
  "ubsan_handle_function_type_mismatch_v1 data value_handle s = ubsan_abort (Some (ftm_location data)) ''function type mismatch'' s"

record ubsan_nonnull_return_data =
  nnr_location :: ubsan_source_location
  nnr_attr_location :: ubsan_source_location

definition ubsan_handle_nonnull_return ::
  "ubsan_nonnull_return_data \<Rightarrow> 'a io_state_scheme \<Rightarrow> ('a io_state_scheme) vres" where
  "ubsan_handle_nonnull_return data s = ubsan_abort (Some (nnr_location data)) ''null return'' s"

record ubsan_nonnull_arg_data =
  nna_location :: ubsan_source_location
  nna_attr_location :: ubsan_source_location

definition ubsan_handle_nonnull_arg ::
  "ubsan_nonnull_arg_data \<Rightarrow> u64 \<Rightarrow> 'a io_state_scheme \<Rightarrow> ('a io_state_scheme) vres" where
  "ubsan_handle_nonnull_arg data index s = ubsan_abort (Some (nna_location data)) ''null argument'' s"

record ubsan_cfi_bad_icall_data =
  cfi_location :: ubsan_source_location
  cfi_type :: u64

definition ubsan_handle_cfi_bad_icall ::
  "ubsan_cfi_bad_icall_data \<Rightarrow> u64 \<Rightarrow> 'a io_state_scheme \<Rightarrow> ('a io_state_scheme) vres" where
  "ubsan_handle_cfi_bad_icall data value_handle s = ubsan_abort (Some (cfi_location data)) ''control flow integrity check failure during indirect call'' s"

lemmas ubsan_handler_defs =
  ubsan_handle_pointer_overflow_def ubsan_handle_add_overflow_def
  ubsan_handle_sub_overflow_def ubsan_handle_mul_overflow_def
  ubsan_handle_negate_overflow_def ubsan_handle_divrem_overflow_def
  ubsan_handle_shift_out_of_bounds_def ubsan_handle_out_of_bounds_def
  ubsan_handle_builtin_unreachable_def ubsan_handle_missing_return_def
  ubsan_handle_vla_bound_not_positive_def ubsan_handle_float_cast_overflow_def
  ubsan_handle_load_invalid_value_def ubsan_handle_function_type_mismatch_v1_def
  ubsan_handle_nonnull_return_def ubsan_handle_nonnull_arg_def
  ubsan_handle_cfi_bad_icall_def

section \<open>What is reported\<close>

definition ubsan_report :: "ubsan_source_location \<Rightarrow> string \<Rightarrow> u8 list" where
  "ubsan_report l violation = map of_char ''filename = '' @ map of_char (the (loc_filename l))
     @ map of_char ''; line = '' @ map digit_char (dec_digits (unat (loc_line l)))
     @ map of_char ''; column = '' @ map digit_char (dec_digits (unat (loc_column l)))
     @ map of_char ''; violation = '' @ map of_char violation @ map of_char (line '';'')"

lemma ubsan_abort_reports:
  "ubsan_abort location violation s =
     Inl (Diverges, emits (ubsan_report
       (if location = None \<or> loc_filename (the location) = None then unknown_location else the location) violation) s)"
  by (cases location)
     (auto simp: ubsan_abort_def ubsan_report_def print_str_emits print_u64_digits unat_ucast_u32 Let_def
       simp del: list.map)

lemma aligned_iff_mod:
  assumes "k < 64"
  shows "(p :: u64) AND (2 ^ k - 1) = 0 \<longleftrightarrow> unat p mod 2 ^ k = 0"
proof -
  have "p AND (2 ^ k - 1) = take_bit k p"
    by (simp add: take_bit_eq_mask mask_eq_exp_minus_1)
  moreover have "unat (take_bit k p) = unat p mod 2 ^ k"
    by (subst unsigned_take_bit_eq) (rule take_bit_eq_mod)
  moreover have "take_bit k p = 0 \<longleftrightarrow> unat (take_bit k p) = 0"
    by (simp add: unat_eq_0)
  ultimately show ?thesis by simp
qed

section \<open>Properties\<close>

text \<open>C36. The handler of bad pointers reports the place in the source, says null pointer for a null pointer,
  unaligned for one that is not a multiple of the required power of two, and type mismatch otherwise, and
  never returns; without a file name it reports an unknown place.\<close>

theorem ubsan_type_mismatch_reports:
  assumes "tm_alignment data = 2 ^ k" and "k < 64"
  shows "ubsan_handle_type_mismatch_v1 data p s = Inl (Diverges, emits (ubsan_report
      (if loc_filename (tm_location data) = None then unknown_location else tm_location data)
      (if p = 0 then ''null pointer access''
       else if unat p mod 2 ^ k \<noteq> 0 then ''unaligned access'' else ''type mismatch'')) s)"
proof -
  have "tm_alignment data \<noteq> 0" using assms by (simp add: exp_eq_zero_iff)
  then show ?thesis
    using aligned_iff_mod [OF assms(2), of p]
    by (simp add: ubsan_handle_type_mismatch_v1_def ubsan_abort_reports assms(1) Let_def)
qed

theorem ubsan_type_mismatch_reports_witness:
  "ubsan_handle_type_mismatch_v1
      \<lparr>tm_location = \<lparr>loc_filename = Some ''m.c'', loc_line = 7, loc_column = 3\<rparr>, tm_type = 0, tm_alignment = 8,
       tm_type_check_kind = 0\<rparr> 20 stuck_console =
    Inl (Diverges, emits (ubsan_report \<lparr>loc_filename = Some ''m.c'', loc_line = 7, loc_column = 3\<rparr>
      ''unaligned access'') stuck_console)"
  using ubsan_type_mismatch_reports [of "\<lparr>tm_location = \<lparr>loc_filename = Some ''m.c'', loc_line = 7, loc_column = 3\<rparr>,
    tm_type = 0, tm_alignment = 8, tm_type_check_kind = 0\<rparr>" 3 20 stuck_console]
  by simp

text \<open>The other handlers stop with a report that names their violation.\<close>

lemma ubsan_handlers_stop:
  "\<exists>cs. ubsan_handle_pointer_overflow d a b s = Inl (Diverges, emits cs s)"
  "\<exists>cs. ubsan_handle_add_overflow d a b s = Inl (Diverges, emits cs s)"
  "\<exists>cs. ubsan_handle_sub_overflow d a b s = Inl (Diverges, emits cs s)"
  "\<exists>cs. ubsan_handle_mul_overflow d a b s = Inl (Diverges, emits cs s)"
  "\<exists>cs. ubsan_handle_negate_overflow d a s = Inl (Diverges, emits cs s)"
  "\<exists>cs. ubsan_handle_divrem_overflow d a b s = Inl (Diverges, emits cs s)"
  "\<exists>cs. ubsan_handle_shift_out_of_bounds d' a b s = Inl (Diverges, emits cs s)"
  "\<exists>cs. ubsan_handle_out_of_bounds e a s = Inl (Diverges, emits cs s)"
  by (auto simp: ubsan_handler_defs ubsan_abort_reports)

end
