(* ===== verification/Spec2Isabelle.thy ===== *)
theory Spec2Isabelle
  imports Syscall_Cpp Ubsan
begin

text \<open>
  A RISC-V teaching kernel, \<open>src/\<close>: an allocator of 64-byte blocks, threads with preemption, semaphores,
  sleeping threads, console input and output, and the system calls through which user programs reach them.
  The kernel has one state, the record \<open>kernel\<close>; it runs only inside the trap handler, with interrupts off, so
  that every operation is a function from state to state. Everything but hardware and user code is modelled.

  The parts and their theories, from the bottom:
  \<^item> \<open>Prelude\<close>: machine words (\<open>u64\<close>, \<open>i32\<close> and so on are words of that width; \<open>+\<close> wraps as in C), faults
    (panic, stop, array bounds, a loop that does not return) and \<open>seqr\<close>, which passes a state on unless there
    was a fault. A loop that may not end is a \<open>partial_function (option)\<close> whose \<open>None\<close> becomes the fault
    \<open>Diverges\<close>; where a theorem says that an operation gives \<open>Inr\<close>, it has returned.
  \<^item> \<open>Mem\<close>, \<open>Mem_Layout\<close>, \<open>Mem_Correct\<close>, \<open>Heap_Props\<close>: \<open>src/mem.c\<close>. The index of block counts, word by word; the list
    of runs that it represents (\<open>mem_rep\<close>); \<open>__mem_alloc\<close> is first fit and \<open>__mem_free\<close> releases and merges runs.
    The locale \<open>block_heap\<close> is the interface of the allocator: what \<open>owns\<close> says about live blocks after an
    allocation and a release. The other theories use only its facts \<open>mem_heap\<close>.
  \<^item> \<open>Console\<close>, \<open>Print\<close>, \<open>Console_Input\<close>: \<open>src/console.c\<close> and \<open>src/kernel.c\<close>. The device registers are streams of
    values read and a list of bytes written.
  \<^item> \<open>Lists\<close>: \<open>src/list.c\<close> and the doubly linked rings of every queue; a ring is a list of node addresses. The
    locale \<open>thread_queue\<close> is the interface of a first-in-first-out queue of threads; it is interpreted for the
    ready queue, the queues of semaphores and the threads that wait for input.
  \<^item> \<open>Kernel_State\<close>: the record \<open>kernel\<close>. Structures that the C code reaches through pointers are functions from
    addresses: list nodes, threads, saved contexts, sleeping entries, semaphores and plain words.
  \<^item> \<open>Scheduler\<close>, \<open>Thread\<close>, \<open>Timeout\<close>, \<open>Semaphore\<close>: \<open>src/scheduler.c\<close>, \<open>src/thread.c\<close> and \<open>src/semaphore.c\<close>. \<open>sleepers\<close> and
    \<open>wakes\<close> read the delta list of sleeping threads as their wake-up times.
  \<^item> \<open>Trap\<close>: \<open>irq_handler\<close> of \<open>src/main.c\<close>, one definition per cause and system call, and \<open>src/trap.S\<close>.
  \<^item> \<open>OS_Spec\<close>, \<open>OS_Runs\<close>: what the kernel promises, as an abstract operating system without memory: threads in
    lists, semaphores with limits and holders, wake-up times. \<open>spec\<close> says what each event does, \<open>allowed\<close> is the
    discipline of user programs, \<open>fresh\<close> what the allocator guarantees; \<open>os_ok\<close> is kept by every such event, and
    runs serve semaphores and ready threads in order.
  \<^item> \<open>Places\<close>, \<open>System_Inv\<close>, \<open>System_Ops\<close>, \<open>Requests\<close>, \<open>System\<close>: the kernel refines it. \<open>refines\<close> says that the lists in
    memory are those of the abstract state, that structures are different live blocks of the heap and that
    counters agree; \<open>request\<close> reads from the registers which event a trap is. A step of the machine is a trap
    from arbitrary code with arbitrary registers, or that code itself. The locales \<open>simulation\<close> and
    \<open>live_simulation\<close> carry the relation along runs; their instances \<open>kernel_sim\<close> and \<open>kernel_live\<close> are the kernel.
    Outside \<open>allowed\<close>: waiting on or signalling a semaphore that is not open, signalling one that is not held,
    waiting for one that is held, exiting with one, and exiting with a stack that was not allocated. \<open>request\<close> leaves out
    timed waits (which corrupt the lists, see the findings), illegal operations, requests for 0 blocks,
    sleeping on a full heap and an exit with the stack pointer below the stack. \<open>fits\<close> is what a trap needs to return.
  \<^item> \<open>Boot\<close>: \<open>main\<close> of \<open>src/main.c\<close> up to the first trap, which establishes \<open>refines\<close>, and a round of its idle
    loop, which stops the machine exactly when no user thread is left.
  \<^item> \<open>Syscall\<close>, \<open>Syscall_Cpp\<close>: \<open>src/syscall_c.c\<close> and \<open>src/syscall_cpp.cpp\<close>, the user side of the system calls on the
    register file; the \<open>ecall\<close> is a parameter, \<open>direct_ecall\<close> its instance for calls that return to the same thread.
  \<^item> \<open>Ubsan\<close>: \<open>src/ubsan.c\<close>, the handlers that report undefined behaviour.

  What is not modelled:
  \<^item> What the processor does between the trap and the first instruction of \<open>irq_wrap\<close> and at \<open>sret\<close>; the
    library \<open>lib/hw.lib\<close>, whose \<open>plic_claim\<close> is an input stream of the state.
  \<^item> User code, and the call of the thread function in \<open>__thread_wrapper\<close>: in \<open>System\<close> code outside the kernel may
    do anything to contexts and trap with any registers.
  \<^item> Overlap of structures in memory. Different kinds of structures are different functions of the address; the
    invariant of \<open>System_Inv\<close> says that those of the kernel are different blocks of the heap. Saved contexts are
    one record for each address: two of them less than 256 bytes apart on one stack do not overlap in the model;
    \<open>getc_result_misplaced\<close>, which depends on it, assumes them equal or apart.
  \<^item> The macros of \<open>h/kernel.h\<close> that print in debug builds; they are empty in the build of the repository.
  \<^item> \<open>PeriodicThread\<close>, which has no implementation, and the test programs.
\<close>

end
